(* ===== verification/Prelude.thy ===== *)
theory Prelude
  imports Main "HOL-Library.Word" "HOL-Library.Finite_Map" "HOL-Library.Signed_Division"
    "HOL-Library.Multiset"
begin

text \<open>
  Shared vocabulary of the development: the machine types of Go, the run-time panics and
  the sentinel errors of the program, the pieces of Go's standard library that several
  packages use (decimal printing, \<^verbatim>\<open>sort.Search\<close>, \<^verbatim>\<open>float64\<close> rounding of integers,
  indexing with a bounds check), and the generic lemmas about them.
\<close>

section \<open>Machine types\<close>

text \<open>
  \<^verbatim>\<open>int64\<close> values are 64-bit words read with \<^const>\<open>sint\<close>; additions wrap around as
  they do in Go. A Go \<^verbatim>\<open>map\<close> is a finite map, and \<^verbatim>\<open>len(m)\<close> is the number of its keys.
  A Go \<^verbatim>\<open>string\<close> is a byte string.
\<close>

type_synonym uint64 = "64 word"
type_synonym int64 = "64 word"
type_synonym float64 = rat

abbreviation maplen :: "('k, 'v) fmap \<Rightarrow> nat" where
  "maplen m \<equiv> fcard (fmdom m)"

named_theorems ring_simps \<open>how the operations of the hash ring change its fields\<close>
named_theorems pool_simps \<open>how the operations of the node pool change its fields\<close>

section \<open>Errors\<close>

text \<open>The run-time panics the code can raise, and the error values it returns.\<close>

datatype go_panic =
    IndexOutOfRange
  | SliceBoundsOutOfRange
  | IntegerDivideByZero
  | NilPointerDereference
  | InterfaceConversion
  | NonPositiveTicker

datatype go_error =
    ErrNoHosts
  | ErrNodePoolIsUpgrading
  | ErrDriverStarted
  | ErrRemote string
  | Panic go_panic

text \<open>Reading a slice at an index: out of range is a panic.\<close>

definition index_at :: "'a list \<Rightarrow> nat \<Rightarrow> go_error + 'a" where
  "index_at xs i = (if i < length xs then Inr (xs ! i) else Inl (Panic IndexOutOfRange))"

section \<open>Decimal printing\<close>

text \<open>\<^verbatim>\<open>%d\<close> of a non-negative integer.\<close>

definition digit_char :: "nat \<Rightarrow> char" where
  "digit_char d = char_of (48 + d)"

fun itoa :: "nat \<Rightarrow> string" where
  "itoa n = (if n < 10 then [digit_char n] else itoa (n div 10) @ [digit_char (n mod 10)])"

declare itoa.simps [simp del]

section \<open>Binary search: \<^verbatim>\<open>sort.Search\<close>\<close>

text \<open>
  \<^verbatim>\<open>sort.Search(n, f)\<close>: the loop over \<^verbatim>\<open>[i, j)\<close> of Go's package sort.
\<close>

function search_loop :: "(nat \<Rightarrow> bool) \<Rightarrow> nat \<Rightarrow> nat \<Rightarrow> nat" where
  "search_loop f i j =
     (if i < j then
        let h = (i + j) div 2 in
        if \<not> f h then search_loop f (h + 1) j else search_loop f i h
      else i)"
  by pat_completeness auto
termination
  by (relation "measure (\<lambda>(f, i, j). j - i)") auto

declare search_loop.simps [simp del]

definition sort_Search :: "nat \<Rightarrow> (nat \<Rightarrow> bool) \<Rightarrow> nat" where
  "sort_Search n f = search_loop f 0 n"

section \<open>\<^verbatim>\<open>float64\<close> arithmetic on integral values\<close>

text \<open>
  \<^verbatim>\<open>float64(n)\<close> for an integer \<open>n\<close>: the nearest number with a 53-bit significand, ties
  to the even one. Scaling by a power of two does not change the significand, so the same
  function rounds a product by \<^verbatim>\<open>1.25\<close> counted in quarters.
\<close>

fun bit_length :: "nat \<Rightarrow> nat" where
  "bit_length n = (if n = 0 then 0 else Suc (bit_length (n div 2)))"

declare bit_length.simps [simp del]

definition f64 :: "int \<Rightarrow> int" where
  "f64 n =
     (let m = nat \<bar>n\<bar> in
      if m < 2 ^ 53 then n
      else
        let e = bit_length m - 53;
            q = m div 2 ^ e;
            r = m mod 2 ^ e;
            up = (2 ^ e < 2 * r \<or> 2 ^ e = 2 * r \<and> odd q);
            q' = (if up then Suc q else q)
        in sgn n * int (q' * 2 ^ e))"

text \<open>\<^verbatim>\<open>math.Ceil(a * 1.25)\<close> for an integral float \<open>a\<close>.\<close>

definition ceil_mul_1_25 :: "int \<Rightarrow> int" where
  "ceil_mul_1_25 a = - ((- f64 (5 * a)) div 4)"

text \<open>\<^verbatim>\<open>int64(x)\<close> of an integral float; out of range it is the amd64 result.\<close>

definition int64_of_f64 :: "int \<Rightarrow> int64" where
  "int64_of_f64 x = (if - (2 ^ 63) \<le> x \<and> x < 2 ^ 63 then word_of_int x else 2 ^ 63)"

section \<open>Lemmas\<close>

subsection \<open>Indexing\<close>

lemma index_at_Inr [simp]: "i < length xs \<Longrightarrow> index_at xs i = Inr (xs ! i)"
  by (simp add: index_at_def)

lemma index_at_eq_Inr_iff: "index_at xs i = Inr x \<longleftrightarrow> i < length xs \<and> xs ! i = x"
  by (auto simp: index_at_def)

subsection \<open>Decimal printing is injective\<close>

fun decimal_value :: "string \<Rightarrow> nat" where
  "decimal_value cs = foldl (\<lambda>a c. 10 * a + (of_char c - 48)) 0 cs"

lemma of_char_digit: "d < 10 \<Longrightarrow> of_char (digit_char d) = (48 + d :: nat)"
  by (simp add: digit_char_def)

lemma decimal_value_itoa: "decimal_value (itoa n) = n"
proof (induction n rule: itoa.induct)
  case (1 n)
  show ?case
  proof (cases "n < 10")
    case True
    then show ?thesis by (simp add: itoa.simps [of n] of_char_digit)
  next
    case False
    with 1 show ?thesis by (simp add: itoa.simps [of n] of_char_digit)
  qed
qed

lemma itoa_inject [simp]: "itoa m = itoa n \<longleftrightarrow> m = n"
  by (metis decimal_value_itoa)

lemma append_itoa_inject:
  "length a = length b \<Longrightarrow> a @ itoa i = b @ itoa j \<longleftrightarrow> a = b \<and> i = j"
  by simp

subsection \<open>Binary search returns the first index that satisfies a monotone predicate\<close>

lemma search_loop_bounds: "i \<le> j \<Longrightarrow> i \<le> search_loop f i j \<and> search_loop f i j \<le> j"
proof (induction f i j rule: search_loop.induct)
  case (1 f i j)
  then show ?case by (subst (1 2) search_loop.simps) (fastforce simp: Let_def)
qed

lemma search_loop_below:
  assumes "\<And>k. k < i \<Longrightarrow> \<not> f k" and "\<And>k l. k \<le> l \<Longrightarrow> l < n \<Longrightarrow> f k \<Longrightarrow> f l" and "j \<le> n"
    and "k < search_loop f i j" and "i \<le> j"
  shows "\<not> f k"
  using assms
proof (induction f i j rule: search_loop.induct)
  case (1 f i j)
  let ?h = "(i + j) div 2"
  show ?case
  proof (cases "i < j \<and> \<not> f ?h")
    case True
    have "?h < n" using True 1(5) by linarith
    then have below: "\<not> f k" if "k < ?h + 1" for k
      using True 1(4) [of k ?h] that by auto
    have "k < search_loop f (?h + 1) j"
      using True 1(6) by (simp add: search_loop.simps [of f i j] Let_def)
    with True below 1 show ?thesis by (auto simp del: One_nat_def)
  next
    case False
    show ?thesis
    proof (cases "i < j")
      case True
      with False have "k < search_loop f i ?h"
        using 1(6) by (simp add: search_loop.simps [of f i j] Let_def)
      with True False 1 show ?thesis by auto
    next
      case False
      with 1 show ?thesis by (simp add: search_loop.simps [of f i j])
    qed
  qed
qed

lemma search_loop_above:
  assumes "j < n \<Longrightarrow> f j" and "i \<le> j" and "search_loop f i j < n" and "j \<le> n"
  shows "f (search_loop f i j)"
  using assms
proof (induction f i j rule: search_loop.induct)
  case (1 f i j)
  let ?h = "(i + j) div 2"
  show ?case
  proof (cases "i < j")
    case True
    show ?thesis
    proof (cases "f ?h")
      case True
      with \<open>i < j\<close> have eq: "search_loop f i j = search_loop f i ?h"
        by (simp add: search_loop.simps [of f i j] Let_def)
      from \<open>i < j\<close> True 1(2) [OF \<open>i < j\<close> refl] 1(5,6) show ?thesis
        unfolding eq by simp
    next
      case False
      with \<open>i < j\<close> have eq: "search_loop f i j = search_loop f (?h + 1) j"
        by (simp add: search_loop.simps [of f i j] Let_def)
      from \<open>i < j\<close> False 1(1) [OF \<open>i < j\<close> refl] 1(3,5,6) show ?thesis
        unfolding eq by simp
    qed
  next
    case False
    then have "search_loop f i j = i" by (simp add: search_loop.simps [of f i j])
    with False 1 show ?thesis by simp
  qed
qed

lemma sort_Search_le: "sort_Search n f \<le> n"
  by (simp add: sort_Search_def search_loop_bounds)

lemma sort_Search_least:
  assumes "\<And>k l. k \<le> l \<Longrightarrow> l < n \<Longrightarrow> f k \<Longrightarrow> f l"
  shows "k < sort_Search n f \<Longrightarrow> \<not> f k"
    and "sort_Search n f < n \<Longrightarrow> f (sort_Search n f)"
proof -
  show "k < sort_Search n f \<Longrightarrow> \<not> f k"
    unfolding sort_Search_def
    by (rule search_loop_below [where i = 0 and n = n and j = n and f = f]) (use assms in auto)
  show "sort_Search n f < n \<Longrightarrow> f (sort_Search n f)"
    unfolding sort_Search_def
    by (rule search_loop_above [where n = n]) auto
qed

subsection \<open>\<^verbatim>\<open>float64\<close> is exact on small integers\<close>

lemma f64_exact [simp]: "\<bar>n\<bar> < 2 ^ 53 \<Longrightarrow> f64 n = n"
  by (simp add: f64_def Let_def nat_less_iff)

lemma ceil_mul_1_25_exact: "\<bar>5 * a\<bar> < 2 ^ 53 \<Longrightarrow> ceil_mul_1_25 a = - ((- (5 * a)) div 4)"
  by (simp add: ceil_mul_1_25_def)

lemma ceil_mul_1_25_gt:
  assumes "1 \<le> a" and "5 * a < 2 ^ 53"
  shows "a + 1 \<le> ceil_mul_1_25 a"
proof -
  have "ceil_mul_1_25 a = - ((- (5 * a)) div 4)"
    using assms by (intro ceil_mul_1_25_exact) simp
  also have "\<dots> \<ge> a + 1"
    using assms(1) by presburger
  finally show ?thesis .
qed

end
