(* ===== verification/ConsistentHash.thy ===== *)
theory ConsistentHash
  imports Prelude
begin

text \<open>
  Package consistenthash (\<^verbatim>\<open>consistenthash/consistenthash.go\<close>): the hash ring with virtual
  nodes, its lookups, and the bounded-load bookkeeping. The hash function is xxhash, a
  third-party package, and is a parameter of every operation that hashes.
\<close>

section \<open>State\<close>

definition replicationFactor :: nat where
  "replicationFactor = 50"

definition DefaultLoad :: float64 where
  "DefaultLoad = 5 / 4"

record Host =
  Name :: string
  Load :: int64

record Consistent =
  hosts :: "(uint64, string) fmap"
  sortedSet :: "uint64 list"
  loadMap :: "(string, Host) fmap"
  totalLoad :: int64
  replicas :: int
  defaultLoad :: float64

type_synonym hashfun = "string \<Rightarrow> uint64"
type_synonym consistent_opt = "Consistent \<Rightarrow> Consistent"

section \<open>Construction\<close>

definition Consistent_New :: "consistent_opt list \<Rightarrow> Consistent" where
  "Consistent_New opts =
     fold (\<lambda>opt c. opt c) opts
       \<lparr>hosts = fmempty, sortedSet = [], loadMap = fmempty, totalLoad = 0,
        replicas = int replicationFactor, defaultLoad = 0\<rparr>"

definition WithReplicas :: "int \<Rightarrow> consistent_opt" where
  "WithReplicas number = (\<lambda>c. c\<lparr>replicas := number\<rparr>)"

definition WithDefaultLoad :: "float64 \<Rightarrow> consistent_opt" where
  "WithDefaultLoad load =
     (\<lambda>c. let c = (if load < 1 then c\<lparr>defaultLoad := 1\<rparr> else c)
          in c\<lparr>defaultLoad := load\<rparr>)"

section \<open>Membership\<close>

text \<open>\<^verbatim>\<open>fmt.Sprintf("%s%d", host, i)\<close>, the name of the \<open>i\<close>-th virtual node of a host.\<close>

definition vnode :: "string \<Rightarrow> nat \<Rightarrow> string" where
  "vnode host i = host @ itoa i"

definition add_vnode :: "hashfun \<Rightarrow> string \<Rightarrow> nat \<Rightarrow> Consistent \<Rightarrow> Consistent" where
  "add_vnode hash host i c =
     (let h = hash (vnode host i)
      in c\<lparr>hosts := fmupd h host (hosts c), sortedSet := sortedSet c @ [h]\<rparr>)"

definition Consistent_Add :: "hashfun \<Rightarrow> string \<Rightarrow> Consistent \<Rightarrow> Consistent" where
  "Consistent_Add hash host c =
     (if fmlookup (loadMap c) host \<noteq> None then c
      else
        let c = c\<lparr>loadMap := fmupd host \<lparr>Name = host, Load = 0\<rparr> (loadMap c)\<rparr>;
            c = fold (add_vnode hash host) [0..<nat (replicas c)] c
        in c\<lparr>sortedSet := sort (sortedSet c)\<rparr>)"

text \<open>The binary search of \<^verbatim>\<open>delSlice\<close>: the loop over \<^verbatim>\<open>l\<close> and \<^verbatim>\<open>r\<close>.\<close>

function delSlice_search :: "uint64 list \<Rightarrow> uint64 \<Rightarrow> int \<Rightarrow> int \<Rightarrow> int" where
  "delSlice_search xs val l r =
     (if l \<le> r then
        let m = (l + r) div 2 in
        if xs ! nat m = val then m
        else if xs ! nat m < val then delSlice_search xs val (m + 1) r
        else delSlice_search xs val l (m - 1)
      else -1)"
  by pat_completeness auto
termination
  by (relation "measure (\<lambda>(xs, val, l, r). nat (r + 1 - l))") auto

declare delSlice_search.simps [simp del]

definition delSlice :: "uint64 \<Rightarrow> Consistent \<Rightarrow> Consistent" where
  "delSlice val c =
     (let idx = delSlice_search (sortedSet c) val 0 (int (length (sortedSet c)) - 1)
      in if idx \<noteq> -1
         then c\<lparr>sortedSet := take (nat idx) (sortedSet c) @ drop (nat idx + 1) (sortedSet c)\<rparr>
         else c)"

definition del_vnode :: "hashfun \<Rightarrow> string \<Rightarrow> nat \<Rightarrow> Consistent \<Rightarrow> Consistent" where
  "del_vnode hash host i c =
     (let h = hash (vnode host i)
      in delSlice h (c\<lparr>hosts := fmdrop h (hosts c)\<rparr>))"

definition Consistent_Remove :: "hashfun \<Rightarrow> string \<Rightarrow> Consistent \<Rightarrow> bool \<times> Consistent" where
  "Consistent_Remove hash host c =
     (let c = fold (del_vnode hash host) [0..<replicationFactor] c
      in (True, c\<lparr>loadMap := fmdrop host (loadMap c)\<rparr>))"

definition GetSortedSet :: "Consistent \<Rightarrow> uint64 list" where
  "GetSortedSet c = sortedSet c"

definition Consistent_IsEmpty :: "Consistent \<Rightarrow> bool" where
  "Consistent_IsEmpty c \<longleftrightarrow> maplen (hosts c) = 0"

text \<open>
  \<^verbatim>\<open>Hosts\<close> ranges over a map, so the order of its result is not fixed: the model says which
  lists it may return.
\<close>

definition Consistent_Hosts :: "Consistent \<Rightarrow> string list \<Rightarrow> bool" where
  "Consistent_Hosts c hs \<longleftrightarrow> distinct hs \<and> fset_of_list hs = fmdom (loadMap c)"

section \<open>Lookup\<close>

definition ring_search :: "uint64 \<Rightarrow> Consistent \<Rightarrow> nat" where
  "ring_search key c =
     (let idx = sort_Search (length (sortedSet c)) (\<lambda>i. sortedSet c ! i \<ge> key)
      in if idx \<ge> length (sortedSet c) then 0 else idx)"

text \<open>Reading a missing key of a \<^verbatim>\<open>map[uint64]string\<close> gives the empty string.\<close>

definition hosts_at :: "Consistent \<Rightarrow> uint64 \<Rightarrow> string" where
  "hosts_at c h = (case fmlookup (hosts c) h of None \<Rightarrow> [] | Some host \<Rightarrow> host)"

definition Consistent_Get :: "hashfun \<Rightarrow> string \<Rightarrow> Consistent \<Rightarrow> go_error + string" where
  "Consistent_Get hash key c =
     (if maplen (hosts c) = 0 then Inl ErrNoHosts
      else
        let h = hash key; idx = ring_search h c in
        case index_at (sortedSet c) idx of
          Inl e \<Rightarrow> Inl e
        | Inr v \<Rightarrow> Inr (hosts_at c v))"

section \<open>Loads\<close>

definition set_load :: "string \<Rightarrow> int64 \<Rightarrow> (string, Host) fmap \<Rightarrow> (string, Host) fmap" where
  "set_load host load m =
     (case fmlookup m host of
        None \<Rightarrow> m
      | Some b \<Rightarrow> fmupd host (b\<lparr>Load := load\<rparr>) m)"

definition Consistent_ResetLoads :: "Consistent \<Rightarrow> Consistent" where
  "Consistent_ResetLoads c =
     c\<lparr>loadMap := fmmap (\<lambda>b. b\<lparr>Load := 0\<rparr>) (loadMap c), totalLoad := 0\<rparr>"

definition UpdateLoad :: "string \<Rightarrow> int64 \<Rightarrow> Consistent \<Rightarrow> Consistent" where
  "UpdateLoad host load c =
     (case fmlookup (loadMap c) host of
        None \<Rightarrow> c
      | Some b \<Rightarrow>
          let c = c\<lparr>totalLoad := totalLoad c - Load b\<rparr>;
              c = c\<lparr>loadMap := set_load host load (loadMap c)\<rparr>
          in c\<lparr>totalLoad := totalLoad c + load\<rparr>)"

definition Inc :: "string \<Rightarrow> Consistent \<Rightarrow> Consistent" where
  "Inc host c =
     (case fmlookup (loadMap c) host of
        None \<Rightarrow> c
      | Some b \<Rightarrow>
          c\<lparr>loadMap := set_load host (Load b + 1) (loadMap c), totalLoad := totalLoad c + 1\<rparr>)"

definition Done :: "string \<Rightarrow> Consistent \<Rightarrow> Consistent" where
  "Done host c =
     (case fmlookup (loadMap c) host of
        None \<Rightarrow> c
      | Some b \<Rightarrow>
          c\<lparr>loadMap := set_load host (Load b - 1) (loadMap c), totalLoad := totalLoad c - 1\<rparr>)"

definition GetLoads :: "Consistent \<Rightarrow> (string, int64) fmap" where
  "GetLoads c = fmmap Load (loadMap c)"

definition MaxLoad :: "Consistent \<Rightarrow> go_error + int64 \<times> Consistent" where
  "MaxLoad c =
     (let c = (if totalLoad c = 0 then c\<lparr>totalLoad := 1\<rparr> else c) in
      if maplen (loadMap c) = 0 then Inl (Panic IntegerDivideByZero)
      else
        let avg = f64 (sint (totalLoad c) sdiv int (maplen (loadMap c)));
            avg = (if avg = 0 then 1 else avg)
        in Inr (int64_of_f64 (ceil_mul_1_25 avg), c))"

definition loadOK :: "string \<Rightarrow> Consistent \<Rightarrow> go_error + bool \<times> Consistent" where
  "loadOK host c =
     (let c = (if sint (totalLoad c) < 0 then c\<lparr>totalLoad := 0\<rparr> else c) in
      if maplen (loadMap c) = 0 then Inl (Panic IntegerDivideByZero)
      else
        let avg = f64 (sint (totalLoad c + 1) sdiv int (maplen (loadMap c)));
            avg = (if avg = 0 then 1 else avg);
            avg = ceil_mul_1_25 avg
        in case fmlookup (loadMap c) host of
             None \<Rightarrow> Inr (False, c)
           | Some bhost \<Rightarrow> Inr (f64 (f64 (sint (Load bhost)) + 1) \<le> avg, c))"

section \<open>Bounded-load lookup\<close>

text \<open>
  The loop of \<^verbatim>\<open>GetLeast\<close> has no exit of its own when no host is acceptable, so it is a
  partial function: \<^const>\<open>None\<close> is a call that does not return. It also returns the ring,
  because \<^verbatim>\<open>loadOK\<close> may reset a negative total.
\<close>

partial_function (option) GetLeast_loop ::
    "nat \<Rightarrow> Consistent \<Rightarrow> ((go_error + string) \<times> Consistent) option" where
  "GetLeast_loop i c =
     (case index_at (sortedSet c) i of
        Inl e \<Rightarrow> Some (Inl e, c)
      | Inr v \<Rightarrow>
          (case fmlookup (hosts c) v of
             None \<Rightarrow> Some (Inl ErrNoHosts, c)
           | Some host \<Rightarrow>
               (case loadOK host c of
                  Inl e \<Rightarrow> Some (Inl e, c)
                | Inr (ok, c') \<Rightarrow>
                    if ok then Some (Inr host, c')
                    else GetLeast_loop (if i + 1 \<ge> maplen (hosts c') then 0 else i + 1) c')))"

definition GetLeast ::
    "hashfun \<Rightarrow> string \<Rightarrow> Consistent \<Rightarrow> ((go_error + string) \<times> Consistent) option" where
  "GetLeast hash key c =
     (if maplen (hosts c) = 0 then Some (Inl ErrNoHosts, c)
      else GetLeast_loop (ring_search (hash key) c) c)"

text \<open>
  \<^verbatim>\<open>GetLeastv2wip\<close>: one pass over the distinct hosts, which remembers the least loaded one.
\<close>

partial_function (option) GetLeastv2_loop ::
    "nat \<Rightarrow> string \<Rightarrow> int64 \<Rightarrow> string fset \<Rightarrow> Consistent
      \<Rightarrow> ((go_error + string) \<times> Consistent) option" where
  "GetLeastv2_loop i leastHost leastLoad considered c =
     (let i = (if i \<ge> length (sortedSet c) then 0 else i) in
      if fcard considered = maplen (loadMap c) then Some (Inr leastHost, c)
      else
        case index_at (sortedSet c) i of
          Inl e \<Rightarrow> Some (Inl e, c)
        | Inr v \<Rightarrow>
            (case fmlookup (hosts c) v of
               None \<Rightarrow> Some (Inl ErrNoHosts, c)
             | Some host \<Rightarrow>
                 if host |\<in>| considered
                 then GetLeastv2_loop (i + 1) leastHost leastLoad considered c
                 else
                   let hostLoad = (case fmlookup (loadMap c) host of
                                     None \<Rightarrow> 0 | Some b \<Rightarrow> Load b);
                       lower = (sint hostLoad < sint leastLoad)
                   in case loadOK host c of
                        Inl e \<Rightarrow> Some (Inl e, c)
                      | Inr (ok, c') \<Rightarrow>
                          if ok then Some (Inr host, c')
                          else GetLeastv2_loop (i + 1)
                                 (if lower then host else leastHost)
                                 (if lower then hostLoad else leastLoad)
                                 (finsert host considered) c'))"

definition max_int64 :: int64 where
  "max_int64 = 2 ^ 63 - 1"

definition GetLeastv2wip ::
    "hashfun \<Rightarrow> string \<Rightarrow> Consistent \<Rightarrow> ((go_error + string) \<times> Consistent) option" where
  "GetLeastv2wip hash key c =
     (if maplen (hosts c) = 0 then Some (Inl ErrNoHosts, c)
      else GetLeastv2_loop (ring_search (hash key) c) [] max_int64 {||} c)"

end
