(* ===== verification/NodePool.thy ===== *)
theory NodePool
  imports ConsistentHash "HOL-Library.List_Lexorder" "HOL-Library.Char_ord"
begin

text \<open>
  Package nodepool (\<^verbatim>\<open>nodepool/nodepool.go\<close>): the members of a service as one node sees
  them, the hash ring it keeps over them, and the question a node asks before it runs a job:
  is this key mine. The driver is an interface, so its five operations are a parameter.
  \<^verbatim>\<open>time.Now\<close> and the order in which a map is ranged over are arguments.
\<close>

section \<open>State\<close>

definition NodePoolStateSteady :: string where
  "NodePoolStateSteady = ''NodePoolStateSteady''"

definition NodePoolStateUpgrade :: string where
  "NodePoolStateUpgrade = ''NodePoolStateUpgrade''"

text \<open>
  \<^verbatim>\<open>driver.DriverV2\<close>: the operations, on a state that stands for the driver object and
  the remote server it talks to. The timeout is the only option the pool passes on that
  matters here.
\<close>

record 'd DriverV2 =
  Driver_Init :: "string \<Rightarrow> int \<Rightarrow> 'd \<Rightarrow> 'd"
  Driver_NodeID :: "'d \<Rightarrow> string"
  Driver_GetNodes :: "'d \<Rightarrow> (go_error + string list) \<times> 'd"
  Driver_Start :: "'d \<Rightarrow> go_error option \<times> 'd"
  Driver_Stop :: "'d \<Rightarrow> go_error option \<times> 'd"

text \<open>
  The two \<^verbatim>\<open>atomic.Value\<close> fields start out empty, the ring starts out as a nil pointer,
  and \<^verbatim>\<open>stopChan\<close>, a channel with a buffer of one, is the number of values in it.
\<close>

record 'd NodePool =
  serviceName :: string
  nodeID :: string
  Nodes :: "Consistent option"
  Driver :: 'd
  hashReplicas :: int
  hashLoad :: float64
  updateDuration :: int
  stopChan :: nat
  preNodes :: "string list"
  capacityLoad :: bool
  lastUpdateNodesTime :: "int option"
  state :: "string option"

type_synonym 'd pool_opt = "'d NodePool \<Rightarrow> 'd NodePool"

text \<open>The order in which \<^verbatim>\<open>range\<close> visits a map: any enumeration of its keys.\<close>

type_synonym range_order = "(string, int) fmap \<Rightarrow> string list"

definition ranges :: "range_order \<Rightarrow> bool" where
  "ranges order \<longleftrightarrow> (\<forall>m. distinct (order m) \<and> set (order m) = fset (fmdom m))"

section \<open>Construction\<close>

definition WithCapacityLoad :: "'d pool_opt" where
  "WithCapacityLoad = (\<lambda>np. np\<lparr>capacityLoad := True\<rparr>)"

definition WithHashLoad :: "float64 \<Rightarrow> 'd pool_opt" where
  "WithHashLoad load = (\<lambda>np. np\<lparr>hashLoad := load\<rparr>)"

definition NewNodePool ::
    "'d DriverV2 \<Rightarrow> string \<Rightarrow> 'd \<Rightarrow> int \<Rightarrow> int \<Rightarrow> 'd pool_opt list \<Rightarrow> 'd NodePool" where
  "NewNodePool drv name d duration nreplicas options =
     (let np = \<lparr>serviceName = name, nodeID = [], Nodes = None, Driver = d,
                hashReplicas = nreplicas, hashLoad = DefaultLoad, updateDuration = duration,
                stopChan = 0, preNodes = [], capacityLoad = False,
                lastUpdateNodesTime = None, state = None\<rparr>;
          np = np\<lparr>Driver := Driver_Init drv name duration (Driver np)\<rparr>
      in fold (\<lambda>opt np. opt np) options np)"

section \<open>Membership changes\<close>

text \<open>\<^verbatim>\<open>nodeCount[node]++\<close> and \<^verbatim>\<open>nodeCount[node]--\<close>: a missing entry reads as 0.\<close>

definition count_at :: "(string, int) fmap \<Rightarrow> string \<Rightarrow> int" where
  "count_at m node = (case fmlookup m node of None \<Rightarrow> 0 | Some k \<Rightarrow> k)"

definition bump :: "int \<Rightarrow> string \<Rightarrow> (string, int) fmap \<Rightarrow> (string, int) fmap" where
  "bump d node m = fmupd node (count_at m node + d) m"

definition diff_step ::
    "(string, int) fmap \<Rightarrow> string \<Rightarrow> string list \<times> string list \<Rightarrow> string list \<times> string list" where
  "diff_step m node = (\<lambda>(added, removed).
     if count_at m node > 0 then (added @ [node], removed)
     else if count_at m node < 0 then (added, removed @ [node])
     else (added, removed))"

definition diffNodes ::
    "range_order \<Rightarrow> string list \<Rightarrow> string list \<Rightarrow> string list \<times> string list" where
  "diffNodes order currentNodes newNodes =
     (let nodeCount = fold (bump 1) newNodes fmempty;
          nodeCount = fold (bump (-1)) currentNodes nodeCount
      in fold (diff_step nodeCount) (order nodeCount) ([], []))"

definition updateHashRing ::
    "hashfun \<Rightarrow> range_order \<Rightarrow> int \<Rightarrow> string list \<Rightarrow> 'd NodePool \<Rightarrow> 'd NodePool" where
  "updateHashRing hash order now nodes np =
     (let ring = (case Nodes np of
                    None \<Rightarrow> Consistent_New [WithReplicas (hashReplicas np), WithDefaultLoad (hashLoad np)]
                  | Some c \<Rightarrow> c);
          np = np\<lparr>Nodes := Some ring\<rparr>;
          nodes = sort nodes;
          (addedNodes, removedNodes) = diffNodes order (preNodes np) nodes
      in if length addedNodes = 0 \<and> length removedNodes = 0
         then np\<lparr>state := Some NodePoolStateSteady\<rparr>
         else
           let np = np\<lparr>state := Some NodePoolStateUpgrade\<rparr>;
               ring = fold (\<lambda>node c. snd (Consistent_Remove hash node c)) removedNodes ring;
               ring = fold (\<lambda>node c. Consistent_Add hash node c) addedNodes ring
           in np\<lparr>Nodes := Some ring, preNodes := nodes, lastUpdateNodesTime := Some now\<rparr>)"

section \<open>Lookup\<close>

text \<open>
  \<^verbatim>\<open>GetHost\<close>: the result is \<^const>\<open>None\<close> when the bounded-load lookup does not return, and
  the pool is returned because that lookup may write to the ring.
\<close>

definition GetHost ::
    "hashfun \<Rightarrow> string \<Rightarrow> 'd NodePool \<Rightarrow> ((go_error + string) \<times> 'd NodePool) option" where
  "GetHost hash key np =
     (case Nodes np of
        None \<Rightarrow> Some (Inr [], np)
      | Some c \<Rightarrow>
          if Consistent_IsEmpty c then Some (Inr [], np)
          else
            (case state np of
               None \<Rightarrow> Some (Inl (Panic InterfaceConversion), np)
             | Some st \<Rightarrow>
                 if st \<noteq> NodePoolStateSteady then Some (Inl ErrNodePoolIsUpgrading, np)
                 else if capacityLoad np then
                   (case GetLeast hash key c of
                      None \<Rightarrow> None
                    | Some (r, c') \<Rightarrow> Some (r, np\<lparr>Nodes := Some c'\<rparr>))
                 else Some (Consistent_Get hash key c, np)))"

definition IsEligible ::
    "hashfun \<Rightarrow> string \<Rightarrow> 'd NodePool \<Rightarrow> ((go_error + bool) \<times> 'd NodePool) option" where
  "IsEligible hash key np =
     (case GetHost hash key np of
        None \<Rightarrow> None
      | Some (Inl e, np) \<Rightarrow> Some (Inl e, np)
      | Some (Inr targetNode, np) \<Rightarrow>
          if capacityLoad np then
            (case Nodes np of
               None \<Rightarrow> Some (Inl (Panic NilPointerDereference), np)
             | Some c \<Rightarrow>
                 Some (Inr (nodeID np = targetNode), np\<lparr>Nodes := Some (Inc targetNode c)\<rparr>))
          else Some (Inr (nodeID np = targetNode), np))"

definition DecreaseLoadByKey ::
    "hashfun \<Rightarrow> string \<Rightarrow> 'd NodePool \<Rightarrow> (go_error option \<times> 'd NodePool) option" where
  "DecreaseLoadByKey hash key np =
     (if \<not> capacityLoad np then Some (None, np)
      else
        (case GetHost hash key np of
           None \<Rightarrow> None
         | Some (Inl e, np) \<Rightarrow> Some (Some e, np)
         | Some (Inr targetHost, np) \<Rightarrow>
             (case Nodes np of
                None \<Rightarrow> Some (Some (Panic NilPointerDereference), np)
              | Some c \<Rightarrow> Some (None, np\<lparr>Nodes := Some (Done targetHost c)\<rparr>))))"

definition ResetLoads :: "'d NodePool \<Rightarrow> go_error option \<times> 'd NodePool" where
  "ResetLoads np =
     (case Nodes np of
        None \<Rightarrow> (Some (Panic NilPointerDereference), np)
      | Some c \<Rightarrow> (None, np\<lparr>Nodes := Some (Consistent_ResetLoads c)\<rparr>))"

definition GetNodeID :: "'d NodePool \<Rightarrow> string" where
  "GetNodeID np = nodeID np"

definition GetLastNodesUpdateTime :: "'d NodePool \<Rightarrow> go_error + int" where
  "GetLastNodesUpdateTime np =
     (case lastUpdateNodesTime np of None \<Rightarrow> Inl (Panic InterfaceConversion) | Some t \<Rightarrow> Inr t)"

definition GetState :: "'d NodePool \<Rightarrow> go_error + string" where
  "GetState np =
     (case state np of None \<Rightarrow> Inl (Panic InterfaceConversion) | Some st \<Rightarrow> Inr st)"

section \<open>Life cycle\<close>

text \<open>
  The body of \<^verbatim>\<open>Start\<close> up to the point where the background loop is spawned. What remains
  of it is a wait for the steady state, which is a step of the system below.
\<close>

definition Start_init ::
    "'d DriverV2 \<Rightarrow> hashfun \<Rightarrow> range_order \<Rightarrow> int \<Rightarrow> 'd NodePool \<Rightarrow> go_error option \<times> 'd NodePool" where
  "Start_init drv hash order now np =
     (case Driver_Start drv (Driver np) of
        (Some e, d) \<Rightarrow> (Some e, np\<lparr>Driver := d\<rparr>)
      | (None, d) \<Rightarrow>
          let np = np\<lparr>Driver := d, nodeID := Driver_NodeID drv d\<rparr> in
          (case Driver_GetNodes drv d of
             (Inl e, d) \<Rightarrow> (Some e, np\<lparr>Driver := d\<rparr>)
           | (Inr nowNodes, d) \<Rightarrow>
               let np = np\<lparr>Driver := d, state := Some NodePoolStateUpgrade\<rparr>
               in (None, updateHashRing hash order now nowNodes np)))"

text \<open>One turn of \<^verbatim>\<open>waitingForHashRing\<close> after the ticker fired.\<close>

definition waitingForHashRing_tick ::
    "'d DriverV2 \<Rightarrow> hashfun \<Rightarrow> range_order \<Rightarrow> int \<Rightarrow> 'd NodePool \<Rightarrow> 'd NodePool" where
  "waitingForHashRing_tick drv hash order now np =
     (case Driver_GetNodes drv (Driver np) of
        (Inl e, d) \<Rightarrow> np\<lparr>Driver := d\<rparr>
      | (Inr nowNodes, d) \<Rightarrow> updateHashRing hash order now nowNodes (np\<lparr>Driver := d\<rparr>))"

text \<open>
  \<^verbatim>\<open>Stop\<close>: \<^const>\<open>None\<close> while the send on the full \<^verbatim>\<open>stopChan\<close> blocks. The error of the
  driver is dropped, a panic is not.
\<close>

definition NodePool_Stop ::
    "'d DriverV2 \<Rightarrow> 'd NodePool \<Rightarrow> (go_error option \<times> 'd NodePool) option" where
  "NodePool_Stop drv np =
     (if stopChan np \<ge> 1 then None
      else
        let np = np\<lparr>stopChan := stopChan np + 1\<rparr> in
        (case Driver_Stop drv (Driver np) of
           (Some (Panic p), d) \<Rightarrow> Some (Some (Panic p), np\<lparr>Driver := d\<rparr>)
         | (_, d) \<Rightarrow> Some (None, np\<lparr>Driver := d, preNodes := []\<rparr>)))"

section \<open>The pool with its background loop\<close>

text \<open>
  The pool, the number of \<^verbatim>\<open>waitingForHashRing\<close> goroutines that run, and the number of
  \<^verbatim>\<open>Start\<close> calls that wait for the steady state. A call is one step: the update of the ring
  holds the write lock, which excludes the read-locked calls, but two read-locked calls may
  overlap in the code, and \<^verbatim>\<open>Start\<close> and \<^verbatim>\<open>Stop\<close> take no lock; overlaps of these are not
  covered. \<open>env\<close> says how the remote server changes on its own.
\<close>

record 'd pool_sys =
  pool :: "'d NodePool"
  loops :: nat
  waiting :: nat

datatype pool_label =
    CallStart | StartReturns | CallStop | CallEligible string bool | CallFailed | CallDecrease string
  | CallReset | Tick | LoopEnds | Environment

inductive pool_step ::
    "'d DriverV2 \<Rightarrow> hashfun \<Rightarrow> ('d \<Rightarrow> 'd \<Rightarrow> bool) \<Rightarrow> 'd pool_sys \<Rightarrow> pool_label \<Rightarrow> 'd pool_sys \<Rightarrow> bool"
  for drv hash env where
  start: "ranges order \<Longrightarrow> Start_init drv hash order now (pool s) = (None, np) \<Longrightarrow>
    pool_step drv hash env s CallStart \<lparr>pool = np, loops = loops s + 1, waiting = waiting s + 1\<rparr>"
| start_error: "ranges order \<Longrightarrow> Start_init drv hash order now (pool s) = (Some e, np) \<Longrightarrow>
    pool_step drv hash env s CallFailed (s\<lparr>pool := np\<rparr>)"
| start_returns: "waiting s > 0 \<Longrightarrow> GetState (pool s) = Inr NodePoolStateSteady \<Longrightarrow>
    pool_step drv hash env s StartReturns (s\<lparr>waiting := waiting s - 1\<rparr>)"
| tick: "loops s > 0 \<Longrightarrow> ranges order \<Longrightarrow>
    pool_step drv hash env s Tick (s\<lparr>pool := waitingForHashRing_tick drv hash order now (pool s)\<rparr>)"
| loop_ends: "loops s > 0 \<Longrightarrow> stopChan (pool s) > 0 \<Longrightarrow>
    pool_step drv hash env s LoopEnds
      (s\<lparr>pool := (pool s)\<lparr>stopChan := stopChan (pool s) - 1\<rparr>, loops := loops s - 1\<rparr>)"
| stop: "NodePool_Stop drv (pool s) = Some (r, np) \<Longrightarrow>
    pool_step drv hash env s CallStop (s\<lparr>pool := np\<rparr>)"
| eligible: "IsEligible hash key (pool s) = Some (Inr b, np) \<Longrightarrow>
    pool_step drv hash env s (CallEligible key b) (s\<lparr>pool := np\<rparr>)"
| eligible_error: "IsEligible hash key (pool s) = Some (Inl e, np) \<Longrightarrow>
    pool_step drv hash env s CallFailed (s\<lparr>pool := np\<rparr>)"
| decrease: "DecreaseLoadByKey hash key (pool s) = Some (r, np) \<Longrightarrow>
    pool_step drv hash env s (CallDecrease key) (s\<lparr>pool := np\<rparr>)"
| reset: "ResetLoads (pool s) = (r, np) \<Longrightarrow>
    pool_step drv hash env s CallReset (s\<lparr>pool := np\<rparr>)"
| environment: "env (Driver (pool s)) d \<Longrightarrow>
    pool_step drv hash env s Environment (s\<lparr>pool := (pool s)\<lparr>Driver := d\<rparr>\<rparr>)"

inductive pool_run ::
    "'d DriverV2 \<Rightarrow> hashfun \<Rightarrow> ('d \<Rightarrow> 'd \<Rightarrow> bool) \<Rightarrow> 'd pool_sys \<Rightarrow> pool_label list \<Rightarrow> 'd pool_sys \<Rightarrow> bool"
  for drv hash env where
  run_refl: "pool_run drv hash env s [] s"
| run_step: "pool_run drv hash env s ls s' \<Longrightarrow> pool_step drv hash env s' l s'' \<Longrightarrow>
    pool_run drv hash env s (ls @ [l]) s''"

inductive_cases pool_stepE: "pool_step drv hash env s l s'"

end
