(* ===== verification/HostRing.thy ===== *)
theory HostRing
  imports Prelude
begin

text \<open>
  The contract between the hash ring and its clients (the node pool): a ring holds a finite
  set of hosts, hosts are added and removed one at a time, and a key is routed to the owner
  that a specification names from the set of hosts alone. What a client needs (that two
  rings with the same hosts route alike, that the order of a batch of changes does not
  matter, that a change of membership moves only the keys it must) is proved once here.
\<close>

locale host_ring =
  fixes invar :: "'r \<Rightarrow> bool"
    and hosts_of :: "'r \<Rightarrow> 'h set"
    and universe :: "'h set"
    and add :: "'h \<Rightarrow> 'r \<Rightarrow> 'r"
    and remove :: "'h \<Rightarrow> 'r \<Rightarrow> 'r"
    and route :: "'k \<Rightarrow> 'r \<Rightarrow> 'e + 'h"
    and owner :: "'h set \<Rightarrow> 'k \<Rightarrow> 'h \<Rightarrow> bool"
  assumes hosts_finite: "finite (hosts_of r)"
    and hosts_universe: "invar r \<Longrightarrow> hosts_of r \<subseteq> universe"
    and invar_add: "invar r \<Longrightarrow> h \<in> universe \<Longrightarrow> invar (add h r)"
    and hosts_add: "invar r \<Longrightarrow> h \<in> universe \<Longrightarrow> hosts_of (add h r) = insert h (hosts_of r)"
    and invar_remove: "invar r \<Longrightarrow> h \<in> universe \<Longrightarrow> invar (remove h r)"
    and hosts_remove: "invar r \<Longrightarrow> h \<in> universe \<Longrightarrow> hosts_of (remove h r) = hosts_of r - {h}"
    and route_owner: "invar r \<Longrightarrow> hosts_of r \<noteq> {} \<Longrightarrow> route k r = Inr h \<longleftrightarrow> owner (hosts_of r) k h"
    and owner_exists: "invar r \<Longrightarrow> hosts_of r \<noteq> {} \<Longrightarrow> \<exists>h. owner (hosts_of r) k h"
    and owner_member: "owner H k h \<Longrightarrow> h \<in> H"
    and owner_subset: "owner H k h \<Longrightarrow> h \<in> H' \<Longrightarrow> H' \<subseteq> H \<Longrightarrow> finite H \<Longrightarrow> owner H' k h"
begin

lemma route_total:
  assumes "invar r" "hosts_of r \<noteq> {}"
  obtains h where "route k r = Inr h" "h \<in> hosts_of r"
  using owner_exists [OF assms] route_owner [OF assms] owner_member by blast

lemma route_agree:
  assumes "invar r" "invar r'" "hosts_of r = hosts_of r'" "hosts_of r \<noteq> {}"
  shows "route k r = route k r'"
proof -
  obtain h where h: "route k r = Inr h" using route_total [OF assms(1,4)] by metis
  then have "owner (hosts_of r') k h" using route_owner [OF assms(1,4)] assms(3) by simp
  then have "route k r' = Inr h" using route_owner [OF assms(2)] assms(3,4) by simp
  with h show ?thesis by simp
qed

lemma fold_add:
  assumes "invar r" "set hs \<subseteq> universe"
  shows "invar (fold add hs r)" and "hosts_of (fold add hs r) = hosts_of r \<union> set hs"
  using assms by (induction hs arbitrary: r) (auto simp: invar_add hosts_add)

lemma fold_remove:
  assumes "invar r" "set hs \<subseteq> universe"
  shows "invar (fold remove hs r)" and "hosts_of (fold remove hs r) = hosts_of r - set hs"
  using assms by (induction hs arbitrary: r) (auto simp: invar_remove hosts_remove)

text \<open>The update a membership change makes: first the removals, then the additions.\<close>

lemma update_hosts:
  assumes "invar r" "set rem \<subseteq> universe" "set new \<subseteq> universe"
  shows "invar (fold add new (fold remove rem r))"
    and "hosts_of (fold add new (fold remove rem r)) = (hosts_of r - set rem) \<union> set new"
  using fold_remove [OF assms(1,2)] fold_add [OF _ assms(3)] by auto

lemma route_add_stable:
  assumes r: "invar r" "hosts_of r \<noteq> {}" and x: "x \<in> universe"
    and new: "route k (add x r) = Inr h'" and old: "route k r = Inr h"
  shows "h' = h \<or> h' = x"
proof (cases "h' = x")
  case False
  have "owner (insert x (hosts_of r)) k h'"
    using new route_owner [OF invar_add [OF r(1) x]] hosts_add [OF r(1) x] by simp
  moreover from this False have "h' \<in> hosts_of r" using owner_member by blast
  ultimately have "owner (hosts_of r) k h'"
    by (rule owner_subset) (auto simp: hosts_finite)
  then have "route k r = Inr h'" using route_owner [OF r] by simp
  with old show ?thesis by simp
qed simp

lemma route_remove_stable:
  assumes r: "invar r" and x: "x \<in> universe" and old: "route k r = Inr h" "hosts_of r \<noteq> {}"
    and h: "h \<noteq> x"
  shows "route k (remove x r) = Inr h"
proof -
  have own: "owner (hosts_of r) k h" using route_owner [OF r old(2)] old(1) by simp
  then have mem: "h \<in> hosts_of (remove x r)"
    using owner_member h by (simp add: hosts_remove [OF r x])
  have "owner (hosts_of (remove x r)) k h"
    using own mem by (rule owner_subset) (auto simp: hosts_finite hosts_remove [OF r x])
  with mem show ?thesis using route_owner [OF invar_remove [OF r x]] by blast
qed

end

end
