(* ===== verification/Ring.thy ===== *)
theory Ring
  imports ConsistentHash HostRing
begin

text \<open>
  The hash ring as a data structure: the successor specification of consistent hashing, the
  ring invariant, its preservation by \<^verbatim>\<open>Add\<close> and \<^verbatim>\<open>Remove\<close>, and the proof that
  \<^verbatim>\<open>search\<close> and \<^verbatim>\<open>Get\<close> find the owner the specification names.
\<close>

section \<open>Specification vocabulary\<close>

text \<open>
  The hosts of a ring, the hashes of their virtual nodes, and the successor of a point on
  the circle: the first virtual node at or after it, or the first one of all.
\<close>

definition members :: "Consistent \<Rightarrow> string set" where
  "members c = fset (fmdom (loadMap c))"

definition vnodes :: "hashfun \<Rightarrow> nat \<Rightarrow> string set \<Rightarrow> uint64 set" where
  "vnodes hash n H = (\<lambda>(h, i). hash (vnode h i)) ` (H \<times> {..<n})"

text \<open>What the ring needs of the hash: no two virtual nodes of the hosts at hand collide.\<close>

definition collision_free :: "hashfun \<Rightarrow> nat \<Rightarrow> string set \<Rightarrow> bool" where
  "collision_free hash n H \<longleftrightarrow> inj_on (\<lambda>(h, i). hash (vnode h i)) (H \<times> {..<n})"

definition ring_succ :: "uint64 set \<Rightarrow> uint64 \<Rightarrow> uint64" where
  "ring_succ V k = (if \<exists>v\<in>V. k \<le> v then Min {v \<in> V. k \<le> v} else Min V)"

definition owns :: "hashfun \<Rightarrow> nat \<Rightarrow> string set \<Rightarrow> string \<Rightarrow> string \<Rightarrow> bool" where
  "owns hash n H key h \<longleftrightarrow>
     h \<in> H \<and> (\<exists>i<n. hash (vnode h i) = ring_succ (vnodes hash n H) (hash key))"

abbreviation nreplicas :: "Consistent \<Rightarrow> nat" where
  "nreplicas c \<equiv> nat (replicas c)"

definition ring_wf :: "hashfun \<Rightarrow> Consistent \<Rightarrow> bool" where
  "ring_wf hash c \<longleftrightarrow>
     sorted (sortedSet c) \<and> distinct (sortedSet c) \<and>
     set (sortedSet c) = vnodes hash (nreplicas c) (members c) \<and>
     fmdom' (hosts c) = vnodes hash (nreplicas c) (members c) \<and>
     (\<forall>h\<in>members c. \<forall>i<nreplicas c. fmlookup (hosts c) (hash (vnode h i)) = Some h) \<and>
     (\<forall>h b. fmlookup (loadMap c) h = Some b \<longrightarrow> Name b = h)"

section \<open>How the operations change the fields\<close>

lemma fold_add_vnode [ring_simps]:
  "sortedSet (fold (add_vnode hash host) is c) = sortedSet c @ map (\<lambda>i. hash (vnode host i)) is"
  "fmlookup (hosts (fold (add_vnode hash host) is c)) v =
     (if v \<in> (\<lambda>i. hash (vnode host i)) ` set is then Some host else fmlookup (hosts c) v)"
  "loadMap (fold (add_vnode hash host) is c) = loadMap c"
  "totalLoad (fold (add_vnode hash host) is c) = totalLoad c"
  "replicas (fold (add_vnode hash host) is c) = replicas c"
  "defaultLoad (fold (add_vnode hash host) is c) = defaultLoad c"
  by (induction "is" arbitrary: c) (auto simp: add_vnode_def Let_def)

lemma Consistent_Add_fields [ring_simps]:
  assumes "fmlookup (loadMap c) host = None"
  shows "sortedSet (Consistent_Add hash host c) =
           sort (sortedSet c @ map (\<lambda>i. hash (vnode host i)) [0..<nreplicas c])"
    and "fmlookup (hosts (Consistent_Add hash host c)) v =
           (if v \<in> (\<lambda>i. hash (vnode host i)) ` {..<nreplicas c} then Some host
            else fmlookup (hosts c) v)"
    and "loadMap (Consistent_Add hash host c) =
           fmupd host \<lparr>Name = host, Load = 0\<rparr> (loadMap c)"
    and "totalLoad (Consistent_Add hash host c) = totalLoad c"
    and "replicas (Consistent_Add hash host c) = replicas c"
  using assms by (simp_all add: Consistent_Add_def Let_def ring_simps atLeast0LessThan)

lemma Consistent_Add_present:
  "fmlookup (loadMap c) host = Some b \<Longrightarrow> Consistent_Add hash host c = c"
  by (simp add: Consistent_Add_def)

lemma Consistent_Add_loads [ring_simps]:
  "loadMap (Consistent_Add hash h c) =
     (if fmlookup (loadMap c) h = None then fmupd h \<lparr>Name = h, Load = 0\<rparr> (loadMap c) else loadMap c)"
  "totalLoad (Consistent_Add hash h c) = totalLoad c"
  by (simp_all add: Consistent_Add_def Let_def fold_add_vnode)

subsection \<open>\<^verbatim>\<open>delSlice\<close>\<close>

lemma delSlice_search_found:
  assumes "0 \<le> l" and "r < int (length xs)"
  shows "delSlice_search xs val l r = -1 \<or>
    (0 \<le> delSlice_search xs val l r \<and> delSlice_search xs val l r < int (length xs) \<and>
     xs ! nat (delSlice_search xs val l r) = val)"
  using assms
proof (induction xs val l r rule: delSlice_search.induct)
  case (1 xs val l r)
  show ?case
  proof (cases "l \<le> r")
    case True
    let ?m = "(l + r) div 2"
    have m: "l \<le> ?m" "?m \<le> r" using True by auto
    consider "xs ! nat ?m = val" | "xs ! nat ?m < val"
      | "xs ! nat ?m \<noteq> val" "\<not> xs ! nat ?m < val" by auto
    then show ?thesis
    proof cases
      case 1
      with True m "1.prems" show ?thesis
        by (simp add: delSlice_search.simps [of xs val l r] Let_def)
    next
      case 2
      with True have "delSlice_search xs val l r = delSlice_search xs val (?m + 1) r"
        by (simp add: delSlice_search.simps [of xs val l r] Let_def less_imp_neq)
      with "1.IH"(1) [OF True refl _ 2] 2 m "1.prems" show ?thesis by auto
    next
      case 3
      with True have "delSlice_search xs val l r = delSlice_search xs val l (?m - 1)"
        by (simp add: delSlice_search.simps [of xs val l r] Let_def)
      with "1.IH"(2) [OF True refl 3] m "1.prems" show ?thesis by auto
    qed
  next
    case False
    then show ?thesis by (simp add: delSlice_search.simps [of xs val l r])
  qed
qed

lemma delSlice_search_complete:
  assumes "sorted xs" and "0 \<le> l" and "r < int (length xs)"
    and "l \<le> int k" and "int k \<le> r" and "xs ! k = val"
  shows "delSlice_search xs val l r \<noteq> -1"
  using assms
proof (induction xs val l r rule: delSlice_search.induct)
  case (1 xs val l r)
  let ?m = "(l + r) div 2"
  have lr: "l \<le> r" and m: "l \<le> ?m" "?m \<le> r" using "1.prems" by auto
  have k: "k < length xs" using "1.prems" by linarith
  have mono: "xs ! i \<le> xs ! j" if "i \<le> j" "j < length xs" for i j
    using "1.prems"(1) that by (rule sorted_nth_mono)
  consider "xs ! nat ?m = val" | "xs ! nat ?m < val" | "val < xs ! nat ?m" by fastforce
  then show ?case
  proof cases
    case 1
    with lr m "1.prems"(2) show ?thesis
      by (simp add: delSlice_search.simps [of xs val l r] Let_def)
  next
    case 2
    have "nat ?m < length xs" using m "1.prems" by linarith
    then have "\<not> k \<le> nat ?m" using mono [of k "nat ?m"] 2 "1.prems" by auto
    then have "?m + 1 \<le> int k" using m "1.prems"(2) by linarith
    moreover have "delSlice_search xs val l r = delSlice_search xs val (?m + 1) r"
      using 2 lr by (simp add: delSlice_search.simps [of xs val l r] Let_def less_imp_neq)
    ultimately show ?thesis using "1.IH"(1) [OF lr refl _ 2] 2 m "1.prems" by auto
  next
    case 3
    have "\<not> nat ?m \<le> k" using mono [of "nat ?m" k] 3 k "1.prems" by auto
    then have "int k \<le> ?m - 1" by linarith
    moreover from 3 have "xs ! nat ?m \<noteq> val" "\<not> xs ! nat ?m < val" by auto
    with lr have "delSlice_search xs val l r = delSlice_search xs val l (?m - 1)"
      by (simp add: delSlice_search.simps [of xs val l r] Let_def)
    ultimately show ?thesis using "1.IH"(2) [OF lr refl] 3 m "1.prems" by auto
  qed
qed

lemma remove1_sorted_at:
  assumes "sorted xs" and "i < length xs"
  shows "take i xs @ drop (Suc i) xs = remove1 (xs ! i) xs"
proof -
  let ?ys = "take i xs @ drop (Suc i) xs"
  have split: "xs = take i xs @ xs ! i # drop (Suc i) xs"
    using assms(2) by (rule id_take_nth_drop)
  have "mset xs = mset (take i xs @ xs ! i # drop (Suc i) xs)"
    by (simp flip: split)
  then have "mset ?ys = mset (remove1 (xs ! i) xs)" by simp
  moreover have "sorted (take i xs @ xs ! i # drop (Suc i) xs)"
    using assms(1) by (simp flip: split)
  then have "sorted ?ys" by (auto simp: sorted_append)
  ultimately have "sort (remove1 (xs ! i) xs) = ?ys" by (rule properties_for_sort)
  then show ?thesis using assms(1) by (simp add: sorted_remove1 sorted_sort_id)
qed

lemma delSlice_remove1 [ring_simps]:
  assumes "sorted (sortedSet c)"
  shows "delSlice val c = c\<lparr>sortedSet := remove1 val (sortedSet c)\<rparr>"
proof -
  let ?xs = "sortedSet c"
  let ?idx = "delSlice_search ?xs val 0 (int (length ?xs) - 1)"
  show ?thesis
  proof (cases "?idx = -1")
    case True
    have "val \<notin> set ?xs"
    proof
      assume "val \<in> set ?xs"
      then obtain k where "k < length ?xs" "?xs ! k = val" by (auto simp: in_set_conv_nth)
      then have "?idx \<noteq> -1"
        by (intro delSlice_search_complete [OF assms, where k = k]) auto
      with True show False by simp
    qed
    with True show ?thesis by (simp add: delSlice_def remove1_idem)
  next
    case False
    then have "0 \<le> ?idx" "nat ?idx < length ?xs" "?xs ! nat ?idx = val"
      using delSlice_search_found [of 0 "int (length ?xs) - 1" ?xs val] by auto
    with False remove1_sorted_at [OF assms, of "nat ?idx"] show ?thesis
      by (simp add: delSlice_def Let_def)
  qed
qed

lemma fold_del_vnode [ring_simps]:
  assumes "sorted (sortedSet c)"
  shows "sortedSet (fold (del_vnode hash host) is c) =
           fold (\<lambda>i. remove1 (hash (vnode host i))) is (sortedSet c)"
    and "hosts (fold (del_vnode hash host) is c) =
           fmdrop_set ((\<lambda>i. hash (vnode host i)) ` set is) (hosts c)"
    and "loadMap (fold (del_vnode hash host) is c) = loadMap c"
    and "totalLoad (fold (del_vnode hash host) is c) = totalLoad c"
    and "replicas (fold (del_vnode hash host) is c) = replicas c"
  using assms
proof (induction "is" arbitrary: c)
  case Nil
  {
    case 2
    show ?case by (simp add: fmap_ext)
  }
qed (auto simp: del_vnode_def Let_def delSlice_remove1 sorted_remove1 intro!: fmap_ext)

lemma fold_remove1_distinct:
  assumes "distinct xs"
  shows "set (fold (\<lambda>i. remove1 (f i)) is xs) = set xs - f ` set is"
    and "distinct (fold (\<lambda>i. remove1 (f i)) is xs)"
  using assms by (induction "is" arbitrary: xs) auto

lemma sorted_fold_remove1: "sorted xs \<Longrightarrow> sorted (fold (\<lambda>i. remove1 (f i)) is xs)"
  by (induction "is" arbitrary: xs) (auto simp: sorted_remove1)

lemma Consistent_Remove_fields [ring_simps]:
  assumes "sorted (sortedSet c)"
  shows "sortedSet (snd (Consistent_Remove hash host c)) =
           fold (\<lambda>i. remove1 (hash (vnode host i))) [0..<replicationFactor] (sortedSet c)"
    and "hosts (snd (Consistent_Remove hash host c)) =
           fmdrop_set ((\<lambda>i. hash (vnode host i)) ` {..<replicationFactor}) (hosts c)"
    and "loadMap (snd (Consistent_Remove hash host c)) = fmdrop host (loadMap c)"
    and "totalLoad (snd (Consistent_Remove hash host c)) = totalLoad c"
    and "replicas (snd (Consistent_Remove hash host c)) = replicas c"
  using assms by (simp_all add: Consistent_Remove_def Let_def ring_simps atLeast0LessThan)

lemma defaultLoad_frame [ring_simps]:
  "defaultLoad (Consistent_Add hash h c) = defaultLoad c"
  "defaultLoad (snd (Consistent_Remove hash h c)) = defaultLoad c"
proof -
  show "defaultLoad (Consistent_Add hash h c) = defaultLoad c"
    by (simp add: Consistent_Add_def Let_def fold_add_vnode)
  have "defaultLoad (fold (del_vnode hash h) is c) = defaultLoad c" for "is"
    by (induction "is" arbitrary: c) (auto simp: del_vnode_def delSlice_def Let_def)
  then show "defaultLoad (snd (Consistent_Remove hash h c)) = defaultLoad c"
    by (simp add: Consistent_Remove_def Let_def)
qed

section \<open>The ring invariant\<close>

lemma members_finite [simp, intro]: "finite (members c)"
  by (simp add: members_def)

lemma mem_members_iff: "h \<in> members c \<longleftrightarrow> (\<exists>b. fmlookup (loadMap c) h = Some b)"
  by (auto simp: members_def fmlookup_dom_iff)

lemma vnodes_finite [simp, intro]: "finite H \<Longrightarrow> finite (vnodes hash n H)"
  by (simp add: vnodes_def)

lemma vnodes_insert:
  "vnodes hash n (insert h H) = (\<lambda>i. hash (vnode h i)) ` {..<n} \<union> vnodes hash n H"
  by (auto simp: vnodes_def)

lemma vnodes_mono: "H \<subseteq> H' \<Longrightarrow> m \<le> n \<Longrightarrow> vnodes hash m H \<subseteq> vnodes hash n H'"
  unfolding vnodes_def by (rule image_mono) auto

lemma vnodes_empty_iff [simp]: "vnodes hash n H = {} \<longleftrightarrow> H = {} \<or> n = 0"
  by (auto simp: vnodes_def lessThan_empty_iff)

lemma vnodeI: "h \<in> H \<Longrightarrow> i < n \<Longrightarrow> hash (vnode h i) \<in> vnodes hash n H"
  by (force simp: vnodes_def)

lemma vnodeE:
  assumes "v \<in> vnodes hash n H"
  obtains h i where "h \<in> H" "i < n" "v = hash (vnode h i)"
  using assms by (auto simp: vnodes_def)

lemma collision_free_subset:
  "collision_free hash n H \<Longrightarrow> H' \<subseteq> H \<Longrightarrow> m \<le> n \<Longrightarrow> collision_free hash m H'"
  unfolding collision_free_def by (rule inj_on_subset) auto

lemma collision_freeD:
  assumes "collision_free hash n H" "hash (vnode h i) = hash (vnode h' j)"
    and "h \<in> H" "h' \<in> H" "i < n" "j < n"
  shows "h = h'" and "i = j"
  using inj_onD [OF assms(1) [unfolded collision_free_def], of "(h, i)" "(h', j)"] assms(2-)
  by auto

lemma collision_free_disjoint:
  assumes "collision_free hash n (insert h H)" "h \<notin> H" "m \<le> n" "k \<le> n"
  shows "(\<lambda>i. hash (vnode h i)) ` {..<m} \<inter> vnodes hash k H = {}"
proof (rule ccontr)
  assume "\<not> ?thesis"
  then obtain i h' j where "i < m" "h' \<in> H" "j < k" "hash (vnode h i) = hash (vnode h' j)"
    by (auto elim!: vnodeE) metis
  with assms have "h = h'" by (intro collision_freeD(1) [OF assms(1)]) auto
  with \<open>h' \<in> H\<close> assms(2) show False by simp
qed

lemma ring_wf_Add:
  assumes wf: "ring_wf hash c" and cf: "collision_free hash (nreplicas c) (insert host (members c))"
  shows "ring_wf hash (Consistent_Add hash host c)"
    and "members (Consistent_Add hash host c) = insert host (members c)"
    and "replicas (Consistent_Add hash host c) = replicas c"
proof -
  let ?c = "Consistent_Add hash host c" and ?n = "nreplicas c"
  let ?V = "(\<lambda>i. hash (vnode host i)) ` {..<?n}"
  show mem: "members ?c = insert host (members c)"
    by (cases "fmlookup (loadMap c) host")
       (auto simp: Consistent_Add_present members_def Consistent_Add_fields fmlookup_dom_iff)
  show rep: "replicas ?c = replicas c"
    by (cases "fmlookup (loadMap c) host")
       (auto simp: Consistent_Add_present Consistent_Add_fields)
  show "ring_wf hash ?c"
  proof (cases "fmlookup (loadMap c) host")
    case (Some b)
    with wf show ?thesis by (simp add: Consistent_Add_present)
  next
    case None
    note F = Consistent_Add_fields [OF None, of hash]
    have new: "host \<notin> members c" using None by (simp add: mem_members_iff)
    have disj: "?V \<inter> vnodes hash ?n (members c) = {}"
      using collision_free_disjoint [OF cf new] by simp
    have inj: "inj_on (\<lambda>i. hash (vnode host i)) {..<?n}"
      using collision_freeD(2) [OF cf] by (intro inj_onI) auto
    have dist: "distinct (sortedSet ?c)"
      using wf disj inj
      by (simp add: F ring_wf_def distinct_map atLeast0LessThan Int_commute)
    have set: "set (sortedSet ?c) = vnodes hash ?n (insert host (members c))"
      using wf by (auto simp: F ring_wf_def vnodes_insert atLeast0LessThan)
    have dom: "fmdom' (hosts ?c) = vnodes hash ?n (insert host (members c))"
      using wf by (auto simp: F ring_wf_def vnodes_insert fmlookup_dom'_iff set_eq_iff
                        split: if_splits)
    have look: "fmlookup (hosts ?c) (hash (vnode h i)) = Some h"
      if "h \<in> insert host (members c)" "i < ?n" for h i
    proof (cases "h = host")
      case True
      with that show ?thesis by (auto simp: F)
    next
      case False
      with that have "hash (vnode h i) \<in> vnodes hash ?n (members c)" by (intro vnodeI) auto
      with disj have "hash (vnode h i) \<notin> ?V" by auto
      with False that wf show ?thesis by (simp add: F ring_wf_def)
    qed
    from wf None dist set dom look mem rep show ?thesis
      unfolding ring_wf_def by (simp add: F)
  qed
qed

lemma ring_wf_Remove:
  assumes wf: "ring_wf hash c"
    and cf: "collision_free hash replicationFactor (insert host (members c))"
    and rep: "nreplicas c \<le> replicationFactor"
  shows "ring_wf hash (snd (Consistent_Remove hash host c))"
    and "members (snd (Consistent_Remove hash host c)) = members c - {host}"
    and "replicas (snd (Consistent_Remove hash host c)) = replicas c"
proof -
  let ?c = "snd (Consistent_Remove hash host c)" and ?n = "nreplicas c"
  let ?V = "(\<lambda>i. hash (vnode host i)) ` {..<replicationFactor}"
  have "sorted (sortedSet c)" using wf by (simp add: ring_wf_def)
  note F = Consistent_Remove_fields [OF this, of hash host]
  show mem: "members ?c = members c - {host}" by (auto simp: members_def F)
  show "replicas ?c = replicas c" by (simp add: F)
  have disj: "?V \<inter> vnodes hash ?n (members c - {host}) = {}"
    by (rule collision_free_disjoint [where n = replicationFactor])
       (use cf rep in \<open>auto intro: collision_free_subset\<close>)
  have "vnodes hash ?n (members c) \<subseteq> ?V \<union> vnodes hash ?n (members c - {host})"
    using rep by (auto simp: vnodes_def)
  moreover have "vnodes hash ?n (members c - {host}) \<subseteq> vnodes hash ?n (members c)"
    by (rule vnodes_mono) auto
  ultimately have minus: "vnodes hash ?n (members c) - ?V = vnodes hash ?n (members c - {host})"
    using disj by blast
  have set: "set (sortedSet ?c) = vnodes hash ?n (members c - {host})"
    using wf minus by (simp add: F ring_wf_def fold_remove1_distinct atLeast0LessThan)
  have dom: "fmdom' (hosts ?c) = vnodes hash ?n (members c - {host})"
    using wf minus by (simp add: F ring_wf_def)
  have look: "fmlookup (hosts ?c) (hash (vnode h i)) = Some h"
    if "h \<in> members c - {host}" "i < ?n" for h i
  proof -
    have "hash (vnode h i) \<notin> ?V" using vnodeI [OF that, of hash] disj by blast
    with that wf show ?thesis by (simp add: F ring_wf_def)
  qed
  from wf set dom look mem show "ring_wf hash ?c"
    unfolding ring_wf_def by (simp add: F fold_remove1_distinct sorted_fold_remove1)
qed

section \<open>Lookup finds the successor on the circle\<close>

lemma ring_succ_sorted:
  assumes "sorted xs" and "xs \<noteq> []"
  shows "ring_succ (set xs) k =
    (let i = sort_Search (length xs) (\<lambda>i. xs ! i \<ge> k) in xs ! (if i \<ge> length xs then 0 else i))"
proof -
  let ?i = "sort_Search (length xs) (\<lambda>i. xs ! i \<ge> k)"
  have mono: "xs ! j \<ge> k" if "i \<le> j" "j < length xs" "xs ! i \<ge> k" for i j
    using sorted_nth_mono [OF assms(1) that(1,2)] that(3) by simp
  have below: "\<not> k \<le> xs ! j" if "j < ?i" for j
    using that by (rule sort_Search_least(1) [rotated]) (rule mono)
  have found: "k \<le> xs ! ?i" if "?i < length xs"
    using that by (rule sort_Search_least(2) [rotated]) (rule mono)
  show ?thesis
  proof (cases "?i < length xs")
    case True
    with found have ge: "k \<le> xs ! ?i" by simp
    have "Min {v \<in> set xs. k \<le> v} = xs ! ?i"
    proof (rule Min_eqI)
      fix v assume "v \<in> {v \<in> set xs. k \<le> v}"
      then obtain j where j: "j < length xs" "xs ! j = v" "k \<le> xs ! j"
        by (auto simp: in_set_conv_nth)
      with below [of j] have "?i \<le> j" by fastforce
      with j assms(1) show "xs ! ?i \<le> v" by (auto dest: sorted_nth_mono)
    qed (use True ge in auto)
    with True ge show ?thesis by (auto simp: ring_succ_def Let_def intro: nth_mem)
  next
    case False
    have none: "\<not> (\<exists>v\<in>set xs. k \<le> v)"
    proof
      assume "\<exists>v\<in>set xs. k \<le> v"
      then obtain j where "j < length xs" "k \<le> xs ! j" by (auto simp: in_set_conv_nth)
      with below [of j] False show False by auto
    qed
    have "Min (set xs) = xs ! 0"
      using assms by (intro Min_eqI) (auto simp: in_set_conv_nth dest: sorted_nth_mono)
    with none False show ?thesis by (simp add: ring_succ_def Let_def)
  qed
qed

lemma ring_succ_in: "finite V \<Longrightarrow> V \<noteq> {} \<Longrightarrow> ring_succ V k \<in> V"
  using Min_in [of "{v \<in> V. k \<le> v}"] by (auto simp: ring_succ_def)

text \<open>
  The law behind consistent hashing: a smaller set of virtual nodes that still holds the
  successor of a point has the same successor.
\<close>

lemma ring_succ_subset:
  assumes "finite W" and "V \<subseteq> W" and "ring_succ W k \<in> V"
  shows "ring_succ V k = ring_succ W k"
proof (cases "\<exists>v\<in>W. k \<le> v")
  case True
  let ?W = "{v \<in> W. k \<le> v}"
  have W: "finite ?W" "?W \<noteq> {}" using True assms(1) by auto
  have eq: "ring_succ W k = Min ?W" using True by (simp add: ring_succ_def)
  with Min_in [OF W] assms(3) have in_V: "Min ?W \<in> V" "k \<le> Min ?W" by auto
  moreover have "Min {v \<in> V. k \<le> v} = Min ?W"
    by (rule Min_eqI) (use assms in_V W in \<open>auto intro: finite_subset Min_le\<close>)
  moreover have "ring_succ V k = Min {v \<in> V. k \<le> v}"
    using in_V by (auto simp: ring_succ_def)
  ultimately show ?thesis by (simp add: eq)
next
  case False
  with assms(2) have "\<not> (\<exists>v\<in>V. k \<le> v)" by blast
  moreover have "Min V = Min W"
    by (rule Min_eqI)
       (use assms False in \<open>auto simp: ring_succ_def intro: finite_subset Min_le\<close>)
  ultimately show ?thesis using False by (simp add: ring_succ_def)
qed

lemma ring_search_bound: "sortedSet c \<noteq> [] \<Longrightarrow> ring_search k c < length (sortedSet c)"
  by (simp add: ring_search_def Let_def)

lemma ring_search_succ:
  "sorted (sortedSet c) \<Longrightarrow> sortedSet c \<noteq> [] \<Longrightarrow>
   sortedSet c ! ring_search k c = ring_succ (set (sortedSet c)) k"
  by (simp add: ring_succ_sorted ring_search_def Let_def)

lemma maplen_eq_0_iff: "maplen m = 0 \<longleftrightarrow> fmdom' m = {}"
  by (metis fcard_0_eq fmdom'_alt_def fset_simps(1) fset_inject)

lemma ring_wf_empty_iff:
  "ring_wf hash c \<Longrightarrow> maplen (hosts c) = 0 \<longleftrightarrow> members c = {} \<or> nreplicas c = 0"
  "ring_wf hash c \<Longrightarrow> sortedSet c = [] \<longleftrightarrow> members c = {} \<or> nreplicas c = 0"
  unfolding maplen_eq_0_iff ring_wf_def
  by (metis vnodes_empty_iff) (metis vnodes_empty_iff set_empty)

lemma ring_wf_lookup:
  assumes "ring_wf hash c" and "v \<in> set (sortedSet c)"
  obtains h i where "h \<in> members c" "i < nreplicas c" "v = hash (vnode h i)"
    "fmlookup (hosts c) v = Some h"
  using assms by (auto simp: ring_wf_def elim!: vnodeE)

lemma owns_unique:
  assumes "ring_wf hash c" "owns hash (nreplicas c) (members c) key h"
    and "owns hash (nreplicas c) (members c) key h'"
  shows "h = h'"
  using assms unfolding owns_def ring_wf_def by (metis option.inject)

lemma Consistent_Get_owner:
  assumes wf: "ring_wf hash c" and ne: "members c \<noteq> {}" "0 < nreplicas c"
  shows "Consistent_Get hash key c = Inr h \<longleftrightarrow> owns hash (nreplicas c) (members c) key h"
proof -
  let ?V = "vnodes hash (nreplicas c) (members c)"
  have nz: "maplen (hosts c) \<noteq> 0" and sn: "sortedSet c \<noteq> []"
    using ring_wf_empty_iff [OF wf] ne by auto
  have V: "set (sortedSet c) = ?V" and srt: "sorted (sortedSet c)"
    using wf by (auto simp: ring_wf_def)
  define v where "v = ring_succ ?V (hash key)"
  have v: "sortedSet c ! ring_search (hash key) c = v"
    using ring_search_succ [OF srt sn] by (simp add: v_def V)
  have "v \<in> set (sortedSet c)"
    using ne by (auto simp: v_def V intro!: ring_succ_in)
  with wf obtain h0 i where h0: "h0 \<in> members c" "i < nreplicas c" "v = hash (vnode h0 i)"
    "fmlookup (hosts c) v = Some h0"
    by (rule ring_wf_lookup)
  have get: "Consistent_Get hash key c = Inr h0"
    using nz h0(4) v ring_search_bound [OF sn]
    by (simp add: Consistent_Get_def Let_def hosts_at_def)
  have "owns hash (nreplicas c) (members c) key h0"
    using h0 by (auto simp: owns_def v_def)
  with get owns_unique [OF wf] show ?thesis by auto
qed

lemma Consistent_Get_total:
  assumes "ring_wf hash c" "members c \<noteq> {}" "0 < nreplicas c"
  obtains h where "Consistent_Get hash key c = Inr h" "h \<in> members c"
    "owns hash (nreplicas c) (members c) key h"
proof -
  let ?V = "vnodes hash (nreplicas c) (members c)"
  have "ring_succ ?V (hash key) \<in> ?V" using assms by (intro ring_succ_in) auto
  then obtain h where "owns hash (nreplicas c) (members c) key h"
    by (elim vnodeE) (auto simp: owns_def)
  with that Consistent_Get_owner [OF assms] show thesis by (auto simp: owns_def)
qed

lemma owns_subset:
  assumes "owns hash n H key h" "h \<in> H'" "H' \<subseteq> H" "finite H"
  shows "owns hash n H' key h"
proof -
  from assms(1) obtain i where i: "i < n" "hash (vnode h i) = ring_succ (vnodes hash n H) (hash key)"
    by (auto simp: owns_def)
  have "ring_succ (vnodes hash n H) (hash key) \<in> vnodes hash n H'"
    using vnodeI [OF assms(2) i(1), of hash] i(2) by simp
  then have "ring_succ (vnodes hash n H') (hash key) = ring_succ (vnodes hash n H) (hash key)"
    by (intro ring_succ_subset vnodes_mono) (use assms in auto)
  with i assms(2) show ?thesis by (auto simp: owns_def)
qed

section \<open>The ring satisfies the contract of its clients\<close>

text \<open>
  The invariant for a universe of hosts whose virtual nodes do not collide, with a number of
  replicas that \<^verbatim>\<open>Remove\<close> can undo.
\<close>

definition ring_invar :: "hashfun \<Rightarrow> nat \<Rightarrow> string set \<Rightarrow> Consistent \<Rightarrow> bool" where
  "ring_invar hash n U c \<longleftrightarrow>
     collision_free hash replicationFactor U \<and> members c \<subseteq> U \<and> ring_wf hash c \<and>
     nreplicas c = n \<and> 0 < n \<and> n \<le> replicationFactor"

lemma ring_invar_Add:
  assumes "ring_invar hash n U c" "h \<in> U"
  shows "ring_invar hash n U (Consistent_Add hash h c)"
    and "members (Consistent_Add hash h c) = insert h (members c)"
proof -
  have "collision_free hash (nreplicas c) (insert h (members c))"
    using assms by (auto simp: ring_invar_def elim: collision_free_subset)
  note A = ring_wf_Add [OF _ this]
  show "ring_invar hash n U (Consistent_Add hash h c)"
    and "members (Consistent_Add hash h c) = insert h (members c)"
    using assms A by (auto simp: ring_invar_def)
qed

lemma ring_invar_Remove:
  assumes "ring_invar hash n U c" "h \<in> U"
  shows "ring_invar hash n U (snd (Consistent_Remove hash h c))"
    and "members (snd (Consistent_Remove hash h c)) = members c - {h}"
proof -
  have "collision_free hash replicationFactor (insert h (members c))"
    using assms by (auto simp: ring_invar_def elim: collision_free_subset)
  note R = ring_wf_Remove [OF _ this]
  show "ring_invar hash n U (snd (Consistent_Remove hash h c))"
    and "members (snd (Consistent_Remove hash h c)) = members c - {h}"
    using assms R by (auto simp: ring_invar_def)
qed

interpretation chr: host_ring "ring_invar hash n U" members U "Consistent_Add hash"
    "\<lambda>h c. snd (Consistent_Remove hash h c)" "Consistent_Get hash" "owns hash n"
  for hash n U
proof (unfold_locales, goal_cases)
  case 1 show ?case by simp
next
  case 2 then show ?case by (simp add: ring_invar_def)
next
  case 3 then show ?case by (rule ring_invar_Add)
next
  case 4 then show ?case by (rule ring_invar_Add)
next
  case 5 then show ?case by (rule ring_invar_Remove)
next
  case 6 then show ?case by (rule ring_invar_Remove)
next
  case (7 r k h)
  then show ?case using Consistent_Get_owner [of hash r k h] by (auto simp: ring_invar_def)
next
  case 8 then show ?case by (auto simp: ring_invar_def elim: Consistent_Get_total)
next
  case 9 then show ?case by (simp add: owns_def)
next
  case 10 then show ?case by (rule owns_subset)
qed

end
