(* ===== verification/RingLoad.thy ===== *)
theory RingLoad
  imports Ring
begin

text \<open>
  Consistent hashing with bounded loads: the load invariant, the argument that some host is
  always below its cap, and the two lookups that use it, \<^verbatim>\<open>GetLeast\<close> and
  \<^verbatim>\<open>GetLeastv2wip\<close>, with their termination.
\<close>

section \<open>Bounded loads\<close>

text \<open>
  The load of a host as a signed number, the sum over the ring, and the load invariant: no
  load is negative and the recorded total is at least the sum. (It is exactly the sum until
  a loaded host is removed.)
\<close>

definition load_of :: "Consistent \<Rightarrow> string \<Rightarrow> int" where
  "load_of c h = (case fmlookup (loadMap c) h of None \<Rightarrow> 0 | Some b \<Rightarrow> sint (Load b))"

definition load_sum :: "Consistent \<Rightarrow> int" where
  "load_sum c = (\<Sum>h\<in>members c. load_of c h)"

definition load_wf :: "Consistent \<Rightarrow> bool" where
  "load_wf c \<longleftrightarrow>
     (\<forall>h\<in>members c. 0 \<le> load_of c h) \<and> load_sum c \<le> sint (totalLoad c) \<and>
     sint (totalLoad c) < 2 ^ 50"

text \<open>The cap on one host's load for a given total and number of hosts.\<close>

definition load_cap :: "int \<Rightarrow> nat \<Rightarrow> int" where
  "load_cap t n = ceil_mul_1_25 (let a = f64 (t sdiv int n) in if a = 0 then 1 else a)"

lemma card_members: "card (members c) = maplen (loadMap c)"
  by (simp add: members_def fcard.rep_eq)

lemma load_of_nonneg: "load_wf c \<Longrightarrow> 0 \<le> load_of c h"
  by (cases "h \<in> members c") (auto simp: load_wf_def load_of_def mem_members_iff)

lemma load_of_le_total:
  assumes "load_wf c" shows "load_of c h \<le> sint (totalLoad c)"
proof (cases "h \<in> members c")
  case True
  with assms have "load_of c h \<le> load_sum c"
    unfolding load_sum_def by (intro member_le_sum) (auto simp: load_wf_def)
  with assms show ?thesis by (simp add: load_wf_def)
next
  case False
  then have "load_of c h = 0" by (auto simp: load_of_def mem_members_iff split: option.splits)
  moreover have "0 \<le> load_sum c"
    using assms by (auto simp: load_sum_def load_wf_def intro: sum_nonneg)
  ultimately show ?thesis using assms by (simp add: load_wf_def)
qed

lemma total_nonneg: "load_wf c \<Longrightarrow> 0 \<le> sint (totalLoad c)"
  using load_of_nonneg [of c undefined] load_of_le_total [of c undefined] by simp

lemma sint_plus_1: "sint (x :: int64) < 2 ^ 63 - 1 \<Longrightarrow> sint (x + 1) = sint x + 1"
  by (subst sint_word_ariths) (use sint_ge [of x] in \<open>simp add: signed_take_bit_int_eq_self\<close>)

lemma sint_minus_1: "- (2 ^ 63) < sint (x :: int64) \<Longrightarrow> sint (x - 1) = sint x - 1"
  by (subst sint_word_ariths) (use sint_lt [of x] in \<open>simp add: signed_take_bit_int_eq_self\<close>)

lemma sint_eq_0: "sint (x :: int64) = 0 \<Longrightarrow> x = 0"
  by (metis sint_0 signed_word_eqI)

lemma sdiv_nonneg: "0 \<le> a \<Longrightarrow> 0 \<le> b \<Longrightarrow> (a :: int) sdiv b = a div b"
  by (simp add: signed_divide_int_def sgn_if)

lemma load_cap_bounds:
  assumes "0 \<le> t" "t < 2 ^ 50 + 2" "0 < n"
  shows "load_cap t n = - ((- (5 * max 1 (t div int n))) div 4)"
proof -
  have "t div int n \<le> t" using zdiv_mono2 [of t 1 "int n"] assms by simp
  then have "t div int n < 2 ^ 50 + 2" using assms by linarith
  moreover have "0 \<le> t div int n" using assms by (simp add: pos_imp_zdiv_nonneg_iff)
  ultimately show ?thesis
    using assms by (auto simp: load_cap_def Let_def sdiv_nonneg max_def ceil_mul_1_25_exact)
qed

lemma loadOK_alt:
  assumes "h \<in> members c" and "0 \<le> sint (totalLoad c)"
  shows "loadOK h c = Inr (f64 (f64 (load_of c h) + 1)
           \<le> load_cap (sint (totalLoad c + 1)) (card (members c)), c)"
  using assms
  by (auto simp: loadOK_def Let_def load_cap_def card_members mem_members_iff load_of_def
           split: option.splits dest: fmdomI)

text \<open>Under the load invariant some host is always below its cap.\<close>

lemma loadOK_wf:
  assumes "load_wf c" "h \<in> members c"
  shows "loadOK h c =
    Inr (load_of c h + 1 \<le> load_cap (sint (totalLoad c) + 1) (card (members c)), c)"
proof -
  note T = total_nonneg [OF assms(1)] load_of_nonneg [OF assms(1), of h]
    load_of_le_total [OF assms(1), of h]
  have lt: "sint (totalLoad c) < 2 ^ 50" using assms(1) by (simp add: load_wf_def)
  have "f64 (f64 (load_of c h) + 1) = load_of c h + 1" using T lt by simp
  with lt show ?thesis using assms(2) T(1) by (simp add: loadOK_alt sint_plus_1)
qed

lemma exists_loadOK:
  assumes wf: "load_wf c" and ne: "members c \<noteq> {}"
  shows "\<exists>h\<in>members c. loadOK h c = Inr (True, c)"
proof (rule ccontr)
  assume none: "\<not> ?thesis"
  let ?t = "sint (totalLoad c)" and ?n = "card (members c)"
  let ?a = "max 1 ((?t + 1) div int ?n)"
  have t: "0 \<le> ?t" "?t < 2 ^ 50" using wf total_nonneg [OF wf] by (auto simp: load_wf_def)
  have n: "0 < ?n" using ne by (simp add: card_gt_0_iff)
  have cap: "?a + 1 \<le> load_cap (?t + 1) ?n"
    using load_cap_bounds [of "?t + 1" ?n] t n by linarith
  have big: "?a + 1 \<le> load_of c h" if "h \<in> members c" for h
  proof -
    have "\<not> load_of c h + 1 \<le> load_cap (?t + 1) ?n"
      using none that loadOK_wf [OF wf that] by auto
    with cap show ?thesis by linarith
  qed
  have "int ?n * (?a + 1) \<le> load_sum c"
    unfolding load_sum_def using sum_bounded_below [of "members c" "?a + 1" "load_of c"] big by simp
  also have "\<dots> \<le> ?t" using wf by (simp add: load_wf_def)
  finally have "int ?n * (?a + 1) \<le> ?t" .
  moreover have "?t + 1 < int ?n * (?a + 1)"
  proof -
    have "?t + 1 < int ?n * ((?t + 1) div int ?n + 1)"
      using n by (metis add.commute distrib_left mult.right_neutral of_nat_0_less_iff
          pos_mod_bound mult_div_mod_eq add_less_cancel_left)
    also have "\<dots> \<le> int ?n * (?a + 1)" by (intro mult_left_mono) auto
    finally show ?thesis .
  qed
  ultimately show False by simp
qed

subsection \<open>\<^verbatim>\<open>GetLeast\<close> scans the ring cyclically for the first acceptable host\<close>

text \<open>The host at a position of the ring, and whether it is acceptable.\<close>

definition host_at :: "Consistent \<Rightarrow> nat \<Rightarrow> string" where
  "host_at c i = hosts_at c (sortedSet c ! (i mod length (sortedSet c)))"

definition acceptable :: "Consistent \<Rightarrow> string \<Rightarrow> bool" where
  "acceptable c h \<longleftrightarrow> (\<exists>c'. loadOK h c = Inr (True, c'))"

lemma ring_wf_maplen_hosts: "ring_wf hash c \<Longrightarrow> maplen (hosts c) = length (sortedSet c)"
  unfolding ring_wf_def by (metis distinct_card fcard.rep_eq fmdom'_alt_def)

lemma ring_wf_host_at:
  assumes "ring_wf hash c" "sortedSet c \<noteq> []"
  shows "host_at c i \<in> members c"
    and "i < length (sortedSet c) \<Longrightarrow> fmlookup (hosts c) (sortedSet c ! i) = Some (host_at c i)"
proof -
  have "i mod length (sortedSet c) < length (sortedSet c)" using assms(2) by simp
  then have "sortedSet c ! (i mod length (sortedSet c)) \<in> set (sortedSet c)" by simp
  with assms(1) obtain h where "h \<in> members c"
    "fmlookup (hosts c) (sortedSet c ! (i mod length (sortedSet c))) = Some h"
    by (elim ring_wf_lookup) auto
  then show "host_at c i \<in> members c"
    and "i < length (sortedSet c) \<Longrightarrow> fmlookup (hosts c) (sortedSet c ! i) = Some (host_at c i)"
    by (auto simp: host_at_def hosts_at_def)
qed

lemma ring_wf_host_onto:
  assumes "ring_wf hash c" "h \<in> members c" "0 < nreplicas c"
  shows "\<exists>j<length (sortedSet c). host_at c j = h"
proof -
  have "hash (vnode h 0) \<in> set (sortedSet c)"
    using assms by (auto simp: ring_wf_def intro: vnodeI)
  then obtain j where "j < length (sortedSet c)" "sortedSet c ! j = hash (vnode h 0)"
    by (auto simp: in_set_conv_nth)
  with assms show ?thesis by (auto simp: host_at_def hosts_at_def ring_wf_def)
qed

lemma GetLeast_loop_step:
  assumes wf: "ring_wf hash c" and i: "i < length (sortedSet c)"
    and T: "0 \<le> sint (totalLoad c)"
  shows "GetLeast_loop i c =
    (if acceptable c (host_at c i) then Some (Inr (host_at c i), c)
     else GetLeast_loop (Suc i mod length (sortedSet c)) c)"
proof -
  have sn: "sortedSet c \<noteq> []" using i by auto
  note mem = ring_wf_host_at(1) [OF wf sn, of i] and look = ring_wf_host_at(2) [OF wf sn i]
  obtain ok where ok: "loadOK (host_at c i) c = Inr (ok, c)"
    using loadOK_alt [OF mem T] by simp
  then have "ok \<longleftrightarrow> acceptable c (host_at c i)" by (auto simp: acceptable_def)
  moreover have "(if Suc i \<ge> length (sortedSet c) then 0 else Suc i) = Suc i mod length (sortedSet c)"
    using i by (metis Suc_leI le_neq_implies_less mod_less mod_self not_le)
  ultimately show ?thesis
    using i look ok ring_wf_maplen_hosts [OF wf]
    by (subst GetLeast_loop.simps) auto
qed

lemma GetLeast_loop_first:
  assumes "ring_wf hash c" "0 \<le> sint (totalLoad c)" "i < length (sortedSet c)"
    and "acceptable c (host_at c (i + d))" "\<And>d'. d' < d \<Longrightarrow> \<not> acceptable c (host_at c (i + d'))"
  shows "GetLeast_loop i c = Some (Inr (host_at c (i + d)), c)"
  using assms(3-)
proof (induction d arbitrary: i)
  case 0
  with GetLeast_loop_step [OF assms(1) _ assms(2)] show ?case by simp
next
  case (Suc d)
  let ?N = "length (sortedSet c)" and ?j = "Suc i mod length (sortedSet c)"
  have shift: "host_at c (?j + e) = host_at c (i + Suc e)" for e
    by (simp add: host_at_def mod_add_left_eq)
  have "GetLeast_loop ?j c = Some (Inr (host_at c (?j + d)), c)"
  proof (rule Suc.IH)
    show "?j < ?N" using Suc.prems(1) by (auto intro: mod_less_divisor)
    show "acceptable c (host_at c (?j + d))" using Suc.prems(2) by (simp add: shift)
    show "\<not> acceptable c (host_at c (?j + e))" if "e < d" for e
      using Suc.prems(3) [of "Suc e"] that by (simp add: shift)
  qed
  moreover have "\<not> acceptable c (host_at c i)" using Suc.prems(3) [of 0] by simp
  ultimately show ?case
    using GetLeast_loop_step [OF assms(1) Suc.prems(1) assms(2)] by (simp add: shift)
qed

lemma GetLeast_finds:
  assumes wf: "ring_wf hash c" and T: "0 \<le> sint (totalLoad c)" and rep: "0 < nreplicas c"
    and ok: "h \<in> members c" "acceptable c h"
  obtains d where "GetLeast hash key c = Some (Inr (host_at c (ring_search (hash key) c + d)), c)"
    "acceptable c (host_at c (ring_search (hash key) c + d))"
    "\<And>d'. d' < d \<Longrightarrow> \<not> acceptable c (host_at c (ring_search (hash key) c + d'))"
proof -
  let ?i = "ring_search (hash key) c" and ?N = "length (sortedSet c)"
  have sn: "sortedSet c \<noteq> []" and nz: "maplen (hosts c) \<noteq> 0"
    using ring_wf_empty_iff [OF wf] ok rep by auto
  obtain j where j: "j < ?N" "host_at c j = h" using ring_wf_host_onto [OF wf ok(1) rep] by auto
  have i: "?i < ?N" using sn by (rule ring_search_bound)
  have "acceptable c (host_at c (?i + (?N + j - ?i)))"
    using i j ok(2) by (simp add: host_at_def)
  then have ex: "\<exists>d. acceptable c (host_at c (?i + d))" by blast
  define d where "d = (LEAST d. acceptable c (host_at c (?i + d)))"
  have d: "acceptable c (host_at c (?i + d))" unfolding d_def using ex by (rule LeastI_ex)
  have min: "\<not> acceptable c (host_at c (?i + d'))" if "d' < d" for d'
    using not_less_Least that unfolding d_def by auto
  show thesis
    using that d min nz GetLeast_loop_first [OF wf T i d min] by (simp add: GetLeast_def)
qed

subsection \<open>\<^verbatim>\<open>GetLeastv2wip\<close> always returns\<close>

text \<open>\<^verbatim>\<open>loadOK\<close> first resets a negative total; nothing else of the ring changes.\<close>

definition clamp_total :: "Consistent \<Rightarrow> Consistent" where
  "clamp_total c = (if sint (totalLoad c) < 0 then c\<lparr>totalLoad := 0\<rparr> else c)"

lemma clamp_total_fields [simp]:
  "hosts (clamp_total c) = hosts c" "sortedSet (clamp_total c) = sortedSet c"
  "loadMap (clamp_total c) = loadMap c" "replicas (clamp_total c) = replicas c"
  "clamp_total (clamp_total c) = clamp_total c"
  by (auto simp: clamp_total_def)

lemma clamp_total_derived [simp]:
  "members (clamp_total c) = members c" "ring_wf hash (clamp_total c) = ring_wf hash c"
  "load_of (clamp_total c) h = load_of c h" "loadOK h (clamp_total c) = loadOK h c"
  "host_at (clamp_total c) i = host_at c i" "acceptable (clamp_total c) h = acceptable c h"
proof -
  show mem: "members (clamp_total c) = members c" by (simp add: members_def)
  then show "ring_wf hash (clamp_total c) = ring_wf hash c" by (simp add: ring_wf_def)
  show "load_of (clamp_total c) h = load_of c h" by (simp add: load_of_def)
  show ok: "loadOK h (clamp_total c) = loadOK h c" by (auto simp: loadOK_def clamp_total_def)
  show "host_at (clamp_total c) i = host_at c i" by (simp add: host_at_def hosts_at_def)
  from ok show "acceptable (clamp_total c) h = acceptable c h" by (simp add: acceptable_def)
qed

lemma loadOK_member:
  assumes "h \<in> members c"
  shows "loadOK h c = Inr (acceptable c h, clamp_total c)"
proof -
  obtain ok where ok: "loadOK h c = Inr (ok, clamp_total c)"
  proof (cases "sint (totalLoad c) < 0")
    case True
    have "loadOK h (clamp_total c) = Inr (b, clamp_total c)"
      if "b = (f64 (f64 (load_of (clamp_total c) h) + 1)
           \<le> load_cap (sint (totalLoad (clamp_total c) + 1)) (card (members (clamp_total c))))" for b
      using True assms that by (subst loadOK_alt) (auto simp: clamp_total_def members_def)
    with that show thesis by simp
  next
    case False
    with loadOK_alt [OF assms] that show thesis by (simp add: clamp_total_def)
  qed
  then show ?thesis by (auto simp: acceptable_def)
qed

lemma GetLeastv2_loop_step:
  assumes wf: "ring_wf hash c" and sn: "sortedSet c \<noteq> []" and i: "i \<le> length (sortedSet c)"
    and S: "fcard S \<noteq> card (members c)"
  shows "GetLeastv2_loop i lh ll S c =
    (let j = Suc (i mod length (sortedSet c)); h = host_at c i in
     if h |\<in>| S then GetLeastv2_loop j lh ll S c
     else if acceptable c h then Some (Inr h, clamp_total c)
     else if load_of c h < sint ll
     then GetLeastv2_loop j h (Load (the (fmlookup (loadMap c) h))) (finsert h S) (clamp_total c)
     else GetLeastv2_loop j lh ll (finsert h S) (clamp_total c))"
proof -
  let ?N = "length (sortedSet c)"
  have wrap: "(if ?N \<le> i then 0 else i) = i mod ?N"
    using i sn by (cases "i = ?N") auto
  have bnd: "i mod ?N < ?N" using sn by simp
  have h: "host_at c (i mod ?N) = host_at c i" by (simp add: host_at_def)
  note mem = ring_wf_host_at(1) [OF wf sn, of i]
  note look = ring_wf_host_at(2) [OF wf sn bnd, unfolded h]
  from mem obtain b where b: "fmlookup (loadMap c) (host_at c i) = Some b"
    by (auto simp: mem_members_iff)
  show ?thesis
    unfolding GetLeastv2_loop.simps [of i] wrap
    using S bnd look loadOK_member [OF mem] b
    by (auto simp: card_members Let_def load_of_def)
qed

text \<open>The loop invariant: nothing considered so far is acceptable, and the least is recorded.\<close>

definition least_so_far :: "Consistent \<Rightarrow> string \<Rightarrow> int64 \<Rightarrow> string fset \<Rightarrow> bool" where
  "least_so_far c lh ll S \<longleftrightarrow>
     fset S \<subseteq> members c \<and> (\<forall>h\<in>fset S. \<not> acceptable c h) \<and>
     (if S = {||} then ll = max_int64
      else lh |\<in>| S \<and> load_of c lh = sint ll \<and> (\<forall>h\<in>fset S. sint ll \<le> load_of c h))"

lemma sint_max_int64: "sint max_int64 = 2 ^ 63 - 1"
  by (simp add: max_int64_def)

lemma least_so_far_clamp [simp]: "least_so_far (clamp_total c) lh ll S = least_so_far c lh ll S"
  by (simp add: least_so_far_def)

lemma least_so_far_extend:
  assumes inv: "least_so_far c lh ll S" and h: "h \<in> members c" "\<not> acceptable c h"
    and lt: "load_of c h < 2 ^ 63 - 1"
  shows "load_of c h < sint ll \<Longrightarrow>
      least_so_far c h (Load (the (fmlookup (loadMap c) h))) (finsert h S)"
    and "\<not> load_of c h < sint ll \<Longrightarrow> least_so_far c lh ll (finsert h S)"
proof -
  obtain b where b: "fmlookup (loadMap c) h = Some b" using h(1) by (auto simp: mem_members_iff)
  show "load_of c h < sint ll \<Longrightarrow>
      least_so_far c h (Load (the (fmlookup (loadMap c) h))) (finsert h S)"
    using inv h b by (force simp: least_so_far_def load_of_def split: if_splits)
  show "\<not> load_of c h < sint ll \<Longrightarrow> least_so_far c lh ll (finsert h S)"
    using inv h lt by (auto simp: least_so_far_def sint_max_int64 split: if_splits)
qed

definition v2_result :: "Consistent \<Rightarrow> string \<Rightarrow> bool" where
  "v2_result c h \<longleftrightarrow> h \<in> members c \<and>
     (acceptable c h \<or>
      (\<forall>x\<in>members c. \<not> acceptable c x) \<and> (\<forall>x\<in>members c. load_of c h \<le> load_of c x))"

lemma GetLeastv2_loop_scan:
  assumes wf: "ring_wf hash c" and sn: "sortedSet c \<noteq> []" and S: "fcard S \<noteq> card (members c)"
    and i: "i \<le> length (sortedSet c)"
    and d: "host_at c (i + d) |\<notin>| S" "\<And>d'. d' < d \<Longrightarrow> host_at c (i + d') |\<in>| S"
  shows "\<exists>j\<le>length (sortedSet c). host_at c j = host_at c (i + d) \<and>
    GetLeastv2_loop i lh ll S c = GetLeastv2_loop j lh ll S c"
  using i d
proof (induction d arbitrary: i)
  case 0
  then show ?case by auto
next
  case (Suc d)
  let ?N = "length (sortedSet c)" and ?j = "Suc (i mod length (sortedSet c))"
  have j: "?j \<le> ?N" using sn by (simp add: Suc_leI)
  have shift: "host_at c (Suc (i mod ?N + e)) = host_at c (Suc (i + e))" for e
    by (simp add: host_at_def) (metis mod_Suc_eq mod_add_left_eq)
  have "host_at c i |\<in>| S" using Suc.prems(3) [of 0] by simp
  with GetLeastv2_loop_step [OF wf sn Suc.prems(1) S]
  have "GetLeastv2_loop i lh ll S c = GetLeastv2_loop ?j lh ll S c" by (simp add: Let_def)
  moreover have "host_at c (?j + d) |\<notin>| S" using Suc.prems(2) by (simp add: shift)
  moreover have "host_at c (?j + e) |\<in>| S" if "e < d" for e
    using Suc.prems(3) [of "Suc e"] that by (simp add: shift)
  ultimately show ?case using Suc.IH [OF j] by (simp add: shift)
qed

lemma GetLeastv2_loop_returns:
  assumes "ring_wf hash c" "sortedSet c \<noteq> []" "0 < nreplicas c" "members c \<noteq> {}"
    and "\<And>h. h \<in> members c \<Longrightarrow> load_of c h < 2 ^ 63 - 1"
    and "least_so_far c lh ll S" "i \<le> length (sortedSet c)"
  shows "\<exists>h c'. GetLeastv2_loop i lh ll S c = Some (Inr h, c') \<and> v2_result c h"
  using assms
proof (induction "card (members c - fset S)" arbitrary: i lh ll S c)
  case 0
  have eq: "members c = fset S" using "0.hyps" "0.prems"(6) by (auto simp: least_so_far_def)
  then have "fcard S = maplen (loadMap c)" by (metis card_members fcard.rep_eq)
  moreover have "v2_result c lh"
    using "0.prems"(4,6) eq by (auto simp: v2_result_def least_so_far_def split: if_splits)
  ultimately show ?case by (subst GetLeastv2_loop.simps) simp
next
  case (Suc n)
  note wf = Suc.prems(1) and sn = Suc.prems(2)
  have sub: "fset S \<subseteq> members c" using Suc.prems(6) by (simp add: least_so_far_def)
  then obtain h0 where h0: "h0 \<in> members c" "h0 |\<notin>| S"
    using Suc.hyps(2) by (metis DiffE card.empty equals0I old.nat.distinct(2))
  then have S: "fcard S \<noteq> card (members c)"
    using sub by (metis card_subset_eq fcard.rep_eq members_finite)
  let ?N = "length (sortedSet c)"
  obtain k where "k < ?N" "host_at c k = h0" using ring_wf_host_onto [OF wf h0(1)] Suc.prems(3) by auto
  then have "host_at c (i + (?N + k - i)) |\<notin>| S" using Suc.prems(7) h0 by (simp add: host_at_def)
  then obtain d where d: "host_at c (i + d) |\<notin>| S" "\<And>d'. d' < d \<Longrightarrow> host_at c (i + d') |\<in>| S"
    using exists_least_iff [of "\<lambda>d. host_at c (i + d) |\<notin>| S"] by blast
  from GetLeastv2_loop_scan [OF wf sn S Suc.prems(7) d, of lh ll] obtain j
    where j: "j \<le> ?N" "host_at c j |\<notin>| S" "GetLeastv2_loop i lh ll S c = GetLeastv2_loop j lh ll S c"
    using d(1) by auto
  let ?h = "host_at c j"
  have h: "?h \<in> members c" using ring_wf_host_at(1) [OF wf sn] .
  show ?case
  proof (cases "acceptable c ?h")
    case True
    with j h show ?thesis
      using GetLeastv2_loop_step [OF wf sn j(1) S, of lh ll] by (auto simp: Let_def v2_result_def)
  next
    case False
    have n: "n = card (members c - fset (finsert ?h S))"
      using Suc.hyps(2) h j(2) by (simp add: card_Diff_insert Diff_insert [of _ _ "fset S"])
    have next_le: "Suc (j mod ?N) \<le> ?N" using sn by (simp add: Suc_leI)
    note ext = least_so_far_extend [OF Suc.prems(6) h False Suc.prems(5) [OF h]]
    have IH: "\<exists>h c'. GetLeastv2_loop (Suc (j mod ?N)) lh' ll' (finsert ?h S) (clamp_total c) =
        Some (Inr h, c') \<and> v2_result c h" if "least_so_far c lh' ll' (finsert ?h S)" for lh' ll'
      using Suc.hyps(1) [of "clamp_total c" "finsert ?h S" lh' ll' "Suc (j mod ?N)"] n next_le
        Suc.prems(1-5) that by (simp add: v2_result_def)
    show ?thesis
      using GetLeastv2_loop_step [OF wf sn j(1) S, of lh ll] False j(2,3) IH ext
      by (cases "load_of c ?h < sint ll") (auto simp: Let_def)
  qed
qed

section \<open>The operations on loads\<close>

lemma Inc_Done_fields [ring_simps]:
  "loadMap (Inc h c) =
     (case fmlookup (loadMap c) h of None \<Rightarrow> loadMap c | Some b \<Rightarrow> set_load h (Load b + 1) (loadMap c))"
  "totalLoad (Inc h c) = (if fmlookup (loadMap c) h = None then totalLoad c else totalLoad c + 1)"
  "loadMap (Done h c) =
     (case fmlookup (loadMap c) h of None \<Rightarrow> loadMap c | Some b \<Rightarrow> set_load h (Load b - 1) (loadMap c))"
  "totalLoad (Done h c) = (if fmlookup (loadMap c) h = None then totalLoad c else totalLoad c - 1)"
  by (auto simp: Inc_def Done_def split: option.splits)

subsection \<open>Frame: they leave the ring as it is\<close>

lemma fmlookup_set_load [simp]:
  "fmlookup (set_load h l m) x =
     (if x = h then map_option (\<lambda>b. b\<lparr>Load := l\<rparr>) (fmlookup m h) else fmlookup m x)"
  by (auto simp: set_load_def split: option.splits)

lemma fmdom_set_load [simp]: "fmdom (set_load h l m) = fmdom m"
  by (auto simp: set_load_def split: option.splits dest: fmdomI)

lemma ring_wf_frame:
  assumes "hosts c' = hosts c" "sortedSet c' = sortedSet c" "replicas c' = replicas c"
    and "\<And>h. map_option Name (fmlookup (loadMap c') h) = map_option Name (fmlookup (loadMap c) h)"
  shows "members c' = members c" and "ring_wf hash c' = ring_wf hash c"
proof -
  have dom: "(\<exists>b. fmlookup (loadMap c') h = Some b) \<longleftrightarrow> (\<exists>b. fmlookup (loadMap c) h = Some b)" for h
    using assms(4) [of h] by (cases "fmlookup (loadMap c') h"; cases "fmlookup (loadMap c) h") auto
  then show mem: "members c' = members c" by (auto simp: mem_members_iff)
  have "(\<forall>b. fmlookup (loadMap c') h = Some b \<longrightarrow> Name b = h) \<longleftrightarrow>
        (\<forall>b. fmlookup (loadMap c) h = Some b \<longrightarrow> Name b = h)" for h
    using assms(4) [of h] by (cases "fmlookup (loadMap c') h"; cases "fmlookup (loadMap c) h") auto
  with mem assms(1-3) show "ring_wf hash c' = ring_wf hash c" by (simp add: ring_wf_def)
qed

lemma load_ops_frame [simp]:
  "members (Inc h c) = members c" "ring_wf hash (Inc h c) = ring_wf hash c"
  "members (Done h c) = members c" "ring_wf hash (Done h c) = ring_wf hash c"
  "members (UpdateLoad h l c) = members c" "ring_wf hash (UpdateLoad h l c) = ring_wf hash c"
  "members (Consistent_ResetLoads c) = members c"
  "ring_wf hash (Consistent_ResetLoads c) = ring_wf hash c"
  by (rule ring_wf_frame;
      force simp: Inc_def Done_def UpdateLoad_def Consistent_ResetLoads_def Let_def
            option.map_comp comp_def split: option.splits)+

lemma load_ops_replicas [simp]:
  "replicas (Inc h c) = replicas c" "replicas (Done h c) = replicas c"
  "replicas (UpdateLoad h l c) = replicas c" "replicas (Consistent_ResetLoads c) = replicas c"
  by (auto simp: Inc_def Done_def UpdateLoad_def Consistent_ResetLoads_def Let_def
           split: option.splits)

lemma load_ops_ring_invar [simp]:
  "ring_invar hash n U (Inc h c) = ring_invar hash n U c"
  "ring_invar hash n U (Done h c) = ring_invar hash n U c"
  "ring_invar hash n U (UpdateLoad h l c) = ring_invar hash n U c"
  "ring_invar hash n U (Consistent_ResetLoads c) = ring_invar hash n U c"
  by (simp_all add: ring_invar_def)

subsection \<open>Loads after an operation\<close>

lemma sum_fun_upd:
  fixes f :: "'a \<Rightarrow> 'b :: ab_group_add"
  assumes "finite A" "h \<in> A"
  shows "(\<Sum>x\<in>A. if x = h then v else f x) = (\<Sum>x\<in>A. f x) - f h + v"
proof -
  have "(\<Sum>x\<in>A. if x = h then v else f x) = v + (\<Sum>x\<in>A - {h}. f x)"
    using assms by (subst sum.remove [of _ h]) (auto intro!: sum.cong)
  moreover have "(\<Sum>x\<in>A. f x) = f h + (\<Sum>x\<in>A - {h}. f x)"
    using assms by (rule sum.remove)
  ultimately show ?thesis by simp
qed

text \<open>The exact total: the sum of the loads as 64-bit words.\<close>

definition loads_total :: "Consistent \<Rightarrow> int64" where
  "loads_total c = (\<Sum>h\<in>members c. Load (the (fmlookup (loadMap c) h)))"

lemma set_load_sums:
  assumes c': "loadMap c' = set_load h l (loadMap c)" and h: "fmlookup (loadMap c) h = Some b"
  shows "load_of c' x = (if x = h then sint l else load_of c x)"
    and "load_sum c' = load_sum c - load_of c h + sint l"
    and "loads_total c' = loads_total c - Load b + l"
proof -
  have mem: "members c' = members c" "h \<in> members c"
    using h by (auto simp: c' members_def mem_members_iff intro: fmdomI)
  have lo: "load_of c' x = (if x = h then sint l else load_of c x)" for x
    using h by (auto simp: load_of_def c' split: option.splits)
  then show "load_of c' x = (if x = h then sint l else load_of c x)" .
  show "load_sum c' = load_sum c - load_of c h + sint l"
    using mem by (simp add: load_sum_def lo sum_fun_upd)
  have "loads_total c' =
      (\<Sum>x\<in>members c. if x = h then l else Load (the (fmlookup (loadMap c) x)))"
    unfolding loads_total_def mem(1) by (rule sum.cong) (use h in \<open>auto simp: c'\<close>)
  also have "\<dots> = loads_total c - Load b + l"
    using mem(2) h by (subst sum_fun_upd) (auto simp: loads_total_def)
  finally show "loads_total c' = loads_total c - Load b + l" .
qed

lemma Inc_sums:
  assumes "fmlookup (loadMap c) h = Some b"
  shows "load_of (Inc h c) x = (if x = h then sint (Load b + 1) else load_of c x)"
    and "load_sum (Inc h c) = load_sum c - load_of c h + sint (Load b + 1)"
    and "loads_total (Inc h c) = loads_total c + 1"
    and "totalLoad (Inc h c) = totalLoad c + 1"
  using set_load_sums [of "Inc h c" h "Load b + 1" c b] assms by (simp_all add: Inc_def)

lemma Done_sums:
  assumes "fmlookup (loadMap c) h = Some b"
  shows "load_of (Done h c) x = (if x = h then sint (Load b - 1) else load_of c x)"
    and "load_sum (Done h c) = load_sum c - load_of c h + sint (Load b - 1)"
    and "loads_total (Done h c) = loads_total c - 1"
    and "totalLoad (Done h c) = totalLoad c - 1"
  using set_load_sums [of "Done h c" h "Load b - 1" c b] assms by (simp_all add: Done_def)

lemma UpdateLoad_sums:
  assumes "fmlookup (loadMap c) h = Some b"
  shows "load_of (UpdateLoad h l c) x = (if x = h then sint l else load_of c x)"
    and "load_sum (UpdateLoad h l c) = load_sum c - load_of c h + sint l"
    and "loads_total (UpdateLoad h l c) = loads_total c - Load b + l"
    and "totalLoad (UpdateLoad h l c) = totalLoad c - Load b + l"
  using set_load_sums [of "UpdateLoad h l c" h l c b] assms
  by (simp_all add: UpdateLoad_def Let_def)

lemma load_ops_absent:
  assumes "fmlookup (loadMap c) h = None"
  shows "Inc h c = c" and "Done h c = c" and "UpdateLoad h l c = c"
  using assms by (simp_all add: Inc_def Done_def UpdateLoad_def)

lemma ResetLoads_sums:
  "load_of (Consistent_ResetLoads c) x = 0" "load_sum (Consistent_ResetLoads c) = 0"
  "loads_total (Consistent_ResetLoads c) = 0" "totalLoad (Consistent_ResetLoads c) = 0"
proof -
  show lo: "load_of (Consistent_ResetLoads c) x = 0" for x
    by (auto simp: load_of_def Consistent_ResetLoads_def split: option.splits)
  then show "load_sum (Consistent_ResetLoads c) = 0" by (simp add: load_sum_def)
  show "loads_total (Consistent_ResetLoads c) = 0"
    unfolding loads_total_def
    by (rule sum.neutral) (auto simp: Consistent_ResetLoads_def mem_members_iff)
  show "totalLoad (Consistent_ResetLoads c) = 0" by (simp add: Consistent_ResetLoads_def)
qed

lemma Add_sums:
  assumes "fmlookup (loadMap c) h = None"
  shows "load_of (Consistent_Add hash h c) x = load_of c x"
    and "load_sum (Consistent_Add hash h c) = load_sum c"
    and "loads_total (Consistent_Add hash h c) = loads_total c"
proof -
  note F = Consistent_Add_fields(3) [OF assms, of hash]
  have new: "h \<notin> members c" using assms by (simp add: mem_members_iff)
  have mem: "members (Consistent_Add hash h c) = insert h (members c)" by (simp add: members_def F)
  have lo: "load_of (Consistent_Add hash h c) x = load_of c x" for x
    using assms by (auto simp: load_of_def F)
  then show "load_of (Consistent_Add hash h c) x = load_of c x" .
  show "load_sum (Consistent_Add hash h c) = load_sum c"
    using new assms by (simp add: load_sum_def mem lo) (simp add: load_of_def)
  have "(\<Sum>x\<in>members c. Load (the (fmlookup (loadMap (Consistent_Add hash h c)) x))) = loads_total c"
    unfolding loads_total_def by (rule sum.cong) (use new in \<open>auto simp: F\<close>)
  with new show "loads_total (Consistent_Add hash h c) = loads_total c"
    unfolding loads_total_def mem by (simp add: F)
qed

lemma Remove_sums:
  assumes "sorted (sortedSet c)" "fmlookup (loadMap c) h = Some b"
  shows "load_sum (snd (Consistent_Remove hash h c)) = load_sum c - load_of c h"
    and "loads_total (snd (Consistent_Remove hash h c)) = loads_total c - Load b"
    and "x \<noteq> h \<Longrightarrow> load_of (snd (Consistent_Remove hash h c)) x = load_of c x"
proof -
  let ?c = "snd (Consistent_Remove hash h c)"
  note F = Consistent_Remove_fields(3) [OF assms(1), of hash h]
  have h: "h \<in> members c" using assms(2) by (auto simp: mem_members_iff)
  have mem: "members ?c = members c - {h}" by (simp add: members_def F)
  show lo: "load_of ?c x = load_of c x" if "x \<noteq> h" for x
    using that by (simp add: load_of_def F)
  have "load_sum ?c = (\<Sum>x\<in>members c - {h}. load_of c x)"
    unfolding load_sum_def mem by (rule sum.cong) (auto simp: lo)
  with h show "load_sum ?c = load_sum c - load_of c h"
    by (simp add: load_sum_def sum.remove [of "members c" h])
  have "loads_total ?c = (\<Sum>x\<in>members c - {h}. Load (the (fmlookup (loadMap c) x)))"
    unfolding loads_total_def mem by (rule sum.cong) (auto simp: F)
  with h assms(2) show "loads_total ?c = loads_total c - Load b"
    by (simp add: loads_total_def sum.remove [of "members c" h])
qed

subsection \<open>The load invariant is kept\<close>

lemma load_wf_Inc:
  assumes wf: "load_wf c" and lt: "sint (totalLoad c) + 1 < 2 ^ 50"
  shows "load_wf (Inc h c)"
    and "load_of (Inc h c) x = load_of c x + (if x = h \<and> h \<in> members c then 1 else 0)"
    and "sint (totalLoad (Inc h c)) = sint (totalLoad c) + (if h \<in> members c then 1 else 0)"
proof -
  have *: "load_wf (Inc h c) \<and>
    load_of (Inc h c) x = load_of c x + (if x = h \<and> h \<in> members c then 1 else 0) \<and>
    sint (totalLoad (Inc h c)) = sint (totalLoad c) + (if h \<in> members c then 1 else 0)"
  proof (cases "fmlookup (loadMap c) h")
    case None
    with wf show ?thesis by (simp add: load_ops_absent mem_members_iff)
  next
    case (Some b)
    have b: "load_of c h = sint (Load b)" using Some by (simp add: load_of_def)
    have "sint (Load b + 1) = sint (Load b) + 1" "sint (totalLoad c + 1) = sint (totalLoad c) + 1"
      using load_of_le_total [OF wf, of h] lt b by (auto intro!: sint_plus_1)
    then show ?thesis
      using wf lt Some b load_of_nonneg [OF wf, of h]
      by (auto simp: load_wf_def Inc_sums mem_members_iff)
  qed
  then show "load_wf (Inc h c)"
    and "load_of (Inc h c) x = load_of c x + (if x = h \<and> h \<in> members c then 1 else 0)"
    and "sint (totalLoad (Inc h c)) = sint (totalLoad c) + (if h \<in> members c then 1 else 0)"
    by auto
qed

lemma load_wf_Done:
  assumes wf: "load_wf c" and pos: "h \<in> members c \<Longrightarrow> 0 < load_of c h"
  shows "load_wf (Done h c)"
proof (cases "fmlookup (loadMap c) h")
  case None
  with wf show ?thesis by (simp add: load_ops_absent)
next
  case (Some b)
  have b: "load_of c h = sint (Load b)" "0 < sint (Load b)"
    using Some pos by (auto simp: load_of_def mem_members_iff)
  then have "sint (Load b - 1) = sint (Load b) - 1" "sint (totalLoad c - 1) = sint (totalLoad c) - 1"
    using load_of_le_total [OF wf, of h] by (auto intro!: sint_minus_1)
  then show ?thesis
    using wf Some b load_of_nonneg [OF wf, of h]
    by (auto simp: load_wf_def Done_sums mem_members_iff)
qed

lemma load_wf_UpdateLoad:
  assumes wf: "load_wf c" and l: "0 \<le> sint l" "sint (totalLoad c) - load_of c h + sint l < 2 ^ 50"
  shows "load_wf (UpdateLoad h l c)"
proof (cases "fmlookup (loadMap c) h")
  case None
  with wf show ?thesis by (simp add: load_ops_absent)
next
  case (Some b)
  have b: "load_of c h = sint (Load b)" using Some by (simp add: load_of_def)
  have "sint (totalLoad c - Load b) = sint (totalLoad c) - sint (Load b)"
    using load_of_le_total [OF wf, of h] load_of_nonneg [OF wf, of h] wf b
    by (subst sint_word_ariths) (simp add: signed_take_bit_int_eq_self load_wf_def)
  then have "sint (totalLoad c - Load b + l) = sint (totalLoad c) - sint (Load b) + sint l"
    using load_of_le_total [OF wf, of h] l b
    by (subst sint_word_ariths) (simp add: signed_take_bit_int_eq_self)
  then show ?thesis
    using wf l Some b by (auto simp: load_wf_def UpdateLoad_sums mem_members_iff)
qed

lemma load_wf_Add: "load_wf c \<Longrightarrow> load_wf (Consistent_Add hash h c)"
  by (cases "fmlookup (loadMap c) h")
     (auto simp: load_wf_def Add_sums Consistent_Add_present mem_members_iff
                 Consistent_Add_fields load_of_def split: if_splits)

lemma load_wf_Remove:
  assumes wf: "load_wf c" and srt: "sorted (sortedSet c)"
  shows "load_wf (snd (Consistent_Remove hash h c))"
proof (cases "fmlookup (loadMap c) h")
  case None
  then have "loadMap (snd (Consistent_Remove hash h c)) = loadMap c"
    using srt by (simp add: Consistent_Remove_fields fmdrop_idle' fmlookup_dom'_iff)
  with wf srt show ?thesis
    by (simp add: load_wf_def load_sum_def load_of_def members_def Consistent_Remove_fields)
next
  case (Some b)
  with wf srt load_of_nonneg [OF wf, of h] show ?thesis
    by (auto simp: load_wf_def Remove_sums Consistent_Remove_fields members_def)
qed

lemma load_wf_ResetLoads: "load_wf (Consistent_ResetLoads c)"
  by (simp add: load_wf_def ResetLoads_sums)

section \<open>Dispatching keys\<close>

text \<open>
  A client of the ring picks a host with \<^verbatim>\<open>GetLeast\<close> for each key and counts the request
  with \<^verbatim>\<open>Inc\<close>, as the tests of the package and \<^verbatim>\<open>NodePool.IsEligible\<close> do.
\<close>

fun dispatch :: "hashfun \<Rightarrow> string list \<Rightarrow> Consistent \<Rightarrow> Consistent option" where
  "dispatch hash [] c = Some c"
| "dispatch hash (key # keys) c =
     (case GetLeast hash key c of
        Some (Inr h, c') \<Rightarrow> dispatch hash keys (Inc h c')
      | _ \<Rightarrow> None)"

definition load_bounded :: "Consistent \<Rightarrow> bool" where
  "load_bounded c \<longleftrightarrow>
     (\<forall>h\<in>members c. load_of c h \<le> load_cap (sint (totalLoad c)) (card (members c)))"

lemma load_cap_mono:
  assumes "0 \<le> s" "s \<le> t" "t < 2 ^ 50 + 2" "0 < n"
  shows "load_cap s n \<le> load_cap t n"
proof -
  have "s div int n \<le> t div int n" using assms by (intro zdiv_mono1) auto
  then have "- (5 * max 1 (t div int n)) div 4 \<le> - (5 * max 1 (s div int n)) div 4"
    by (intro zdiv_mono1) auto
  then show ?thesis using assms by (simp add: load_cap_bounds)
qed

lemma MaxLoad_wf:
  assumes wf: "load_wf c" and ne: "members c \<noteq> {}"
  shows "\<exists>m c'. MaxLoad c = Inr (m, c') \<and> sint m = load_cap (sint (totalLoad c)) (card (members c))"
proof -
  let ?T = "sint (totalLoad c)" and ?n = "card (members c)"
  have t: "0 \<le> ?T" "?T < 2 ^ 50" using wf total_nonneg [OF wf] by (auto simp: load_wf_def)
  have n: "0 < ?n" using ne by (simp add: card_gt_0_iff)
  define c1 where "c1 = (if totalLoad c = 0 then c\<lparr>totalLoad := 1\<rparr> else c)"
  have c1: "loadMap c1 = loadMap c" "sint (totalLoad c1) = max 1 ?T"
    using t sint_eq_0 by (auto simp: c1_def max_def)
  have "max 1 (max 1 ?T div int ?n) = max 1 (?T div int ?n)"
    using t n zdiv_mono2 [of 1 1 "int ?n"] by (cases "?T = 0") (auto simp: max_def)
  then have eq: "load_cap (max 1 ?T) ?n = load_cap ?T ?n"
    using t n by (simp add: load_cap_bounds)
  have "?T div int ?n \<le> ?T" using zdiv_mono2 [of ?T 1 "int ?n"] t n by simp
  then have rng: "0 \<le> load_cap ?T ?n" "load_cap ?T ?n < 2 ^ 62"
    using t n by (simp_all add: load_cap_bounds)
  have "fmdom (loadMap c) \<noteq> {||}" using ne by (auto simp: members_def)
  then have "MaxLoad c = Inr (int64_of_f64 (load_cap (max 1 ?T) ?n), c1)"
    by (simp add: MaxLoad_def Let_def load_cap_def card_members c1 flip: c1_def)
  moreover have "sint (int64_of_f64 (load_cap ?T ?n)) = load_cap ?T ?n"
    using rng by (simp add: int64_of_f64_def signed_of_int signed_take_bit_int_eq_self)
  ultimately show ?thesis by (simp add: eq)
qed

lemma GetLeast_Inc_step:
  assumes ring: "ring_wf hash c" "0 < nreplicas c" "members c \<noteq> {}"
    and wf: "load_wf c" and bnd: "load_bounded c" and lt: "sint (totalLoad c) + 1 < 2 ^ 50"
  obtains h where "GetLeast hash key c = Some (Inr h, c)" "h \<in> members c"
    "load_wf (Inc h c)" "load_bounded (Inc h c)"
proof -
  obtain h0 where "h0 \<in> members c" "loadOK h0 c = Inr (True, c)"
    using exists_loadOK [OF wf ring(3)] by blast
  then have h0: "h0 \<in> members c" "acceptable c h0" by (auto simp: acceptable_def)
  obtain d where d: "GetLeast hash key c = Some (Inr (host_at c (ring_search (hash key) c + d)), c)"
      "acceptable c (host_at c (ring_search (hash key) c + d))"
    using GetLeast_finds [OF ring(1) total_nonneg [OF wf] ring(2) h0] by metis
  define h where "h = host_at c (ring_search (hash key) c + d)"
  have "sortedSet c \<noteq> []" using ring_wf_empty_iff(2) [OF ring(1)] ring(2,3) by simp
  then have h: "h \<in> members c" using ring_wf_host_at(1) [OF ring(1)] by (simp add: h_def)
  let ?T = "sint (totalLoad c)" and ?n = "card (members c)"
  have ok: "load_of c h + 1 \<le> load_cap (?T + 1) ?n"
    using d(2) loadOK_wf [OF wf h] by (auto simp: acceptable_def simp flip: h_def)
  have n: "0 < ?n" using ring(3) by (simp add: card_gt_0_iff)
  have mono: "load_cap ?T ?n \<le> load_cap (?T + 1) ?n"
    using total_nonneg [OF wf] lt n by (intro load_cap_mono) auto
  have "load_bounded (Inc h c)"
    unfolding load_bounded_def
  proof
    fix x assume "x \<in> members (Inc h c)"
    then have x: "x \<in> members c" by simp
    then have "load_of c x \<le> load_cap ?T ?n" using bnd by (simp add: load_bounded_def)
    with ok mono x h show "load_of (Inc h c) x
        \<le> load_cap (sint (totalLoad (Inc h c))) (card (members (Inc h c)))"
      by (auto simp: load_wf_Inc(2,3) [OF wf lt])
  qed
  with that d(1) h load_wf_Inc(1) [OF wf lt] show thesis by (simp add: h_def)
qed

lemma dispatch_bounded:
  assumes "ring_wf hash c" "0 < nreplicas c" "members c \<noteq> {}" "load_wf c" "load_bounded c"
    and "sint (totalLoad c) + int (length keys) < 2 ^ 50"
  shows "\<exists>c'. dispatch hash keys c = Some c' \<and> members c' = members c \<and> load_wf c' \<and>
    load_bounded c' \<and> sint (totalLoad c') = sint (totalLoad c) + int (length keys) \<and>
    load_sum c' = load_sum c + int (length keys)"
  using assms
proof (induction keys arbitrary: c)
  case Nil
  then show ?case by simp
next
  case (Cons key keys)
  have lt: "sint (totalLoad c) + 1 < 2 ^ 50" using Cons.prems(6) by simp
  obtain h where h: "GetLeast hash key c = Some (Inr h, c)" "h \<in> members c"
      "load_wf (Inc h c)" "load_bounded (Inc h c)"
    using GetLeast_Inc_step [OF Cons.prems(1-5) lt] by metis
  note I = load_wf_Inc(2,3) [OF Cons.prems(4) lt, of h]
  have sum: "load_sum (Inc h c) = load_sum c + 1"
  proof -
    have "load_sum (Inc h c) = (\<Sum>x\<in>members c. if x = h then load_of c h + 1 else load_of c x)"
      unfolding load_sum_def using h(2) by (auto simp: I intro!: sum.cong)
    also have "\<dots> = load_sum c + 1"
      unfolding load_sum_def using h(2) by (subst sum_fun_upd) auto
    finally show ?thesis .
  qed
  have "\<exists>c'. dispatch hash keys (Inc h c) = Some c' \<and> members c' = members (Inc h c) \<and> load_wf c' \<and>
    load_bounded c' \<and> sint (totalLoad c') = sint (totalLoad (Inc h c)) + int (length keys) \<and>
    load_sum c' = load_sum (Inc h c) + int (length keys)"
    by (rule Cons.IH) (use Cons.prems h I in auto)
  with h sum I show ?case by auto
qed

end
