(* ===== verification/PoolUpdate.thy ===== *)
theory PoolUpdate
  imports NodePool RingLoad
begin

text \<open>
  The node pool as a client of the ring contract: what \<^verbatim>\<open>diffNodes\<close> computes, the invariant
  that ties the ring to the last listing of the nodes, and how each operation of the pool
  keeps it.
\<close>

section \<open>\<^verbatim>\<open>diffNodes\<close>\<close>

lemma count_at_bump [pool_simps]:
  "count_at (bump d x m) y = count_at m y + (if x = y then d else 0)"
  by (auto simp: count_at_def bump_def)

lemma count_at_fold [pool_simps]:
  "count_at (fold (bump d) xs m) x = count_at m x + d * int (count_list xs x)"
  by (induction xs arbitrary: m) (auto simp: pool_simps algebra_simps)

lemma fmdom_fold_bump [pool_simps]:
  "fset (fmdom (fold (bump d) xs m)) = fset (fmdom m) \<union> set xs"
  by (induction xs arbitrary: m) (auto simp: bump_def)

lemma fold_diff_step:
  "fold (diff_step m) ks (a, r) =
     (a @ filter (\<lambda>k. count_at m k > 0) ks, r @ filter (\<lambda>k. count_at m k < 0) ks)"
  by (induction ks arbitrary: a r) (auto simp: diff_step_def)

lemma diffNodes_multisets:
  assumes "ranges order" "diffNodes order cur new = (added, removed)"
  shows "distinct added" "distinct removed"
    and "set added = {x. count_list cur x < count_list new x}"
    and "set removed = {x. count_list new x < count_list cur x}"
proof -
  let ?m = "fold (bump (-1)) cur (fold (bump 1) new fmempty)"
  have eq: "added = filter (\<lambda>k. count_at ?m k > 0) (order ?m)"
    "removed = filter (\<lambda>k. count_at ?m k < 0) (order ?m)"
    using assms(2) by (simp_all add: diffNodes_def fold_diff_step Let_def)
  have cnt: "count_at ?m x = int (count_list new x) - int (count_list cur x)" for x
    by (simp add: pool_simps) (simp add: count_at_def)
  have ord: "distinct (order ?m)" "set (order ?m) = set cur \<union> set new"
    using assms(1) by (auto simp: ranges_def pool_simps)
  show "distinct added" "distinct removed" using ord(1) by (simp_all add: eq)
  have pos: "x \<in> set xs" if "n < count_list xs x" for n x and xs :: "string list"
    using that by (metis count_notin not_less_zero)
  show "set added = {x. count_list cur x < count_list new x}"
    "set removed = {x. count_list new x < count_list cur x}"
    by (auto simp: eq cnt ord(2) dest: pos)
qed

lemma diffNodes_distinct:
  assumes "ranges order" "diffNodes order cur new = (added, removed)" "distinct cur" "distinct new"
  shows "set added = set new - set cur" "set removed = set cur - set new"
proof -
  have "count_list xs x = (if x \<in> set xs then 1 else 0)" if "distinct xs" for x and xs :: "string list"
    using that by (induction xs) auto
  then show "set added = set new - set cur" "set removed = set cur - set new"
    using diffNodes_multisets(3,4) [OF assms(1,2)] assms(3,4) by auto
qed

lemma diffNodes_unchanged:
  assumes "ranges order" "mset cur = mset new"
  shows "diffNodes order cur new = ([], [])"
proof -
  obtain added removed where d: "diffNodes order cur new = (added, removed)" by fastforce
  have "count_list cur x = count_list new x" for x
    using assms(2) by (metis count_mset)
  then have "set added = {}" "set removed = {}"
    using diffNodes_multisets(3,4) [OF assms(1) d] by auto
  with d show ?thesis by simp
qed

section \<open>The pool invariant\<close>

definition fresh_ring :: "'d NodePool \<Rightarrow> Consistent" where
  "fresh_ring np = Consistent_New [WithReplicas (hashReplicas np), WithDefaultLoad (hashLoad np)]"

definition ring_of :: "'d NodePool \<Rightarrow> Consistent" where
  "ring_of np = (case Nodes np of None \<Rightarrow> fresh_ring np | Some c \<Rightarrow> c)"

abbreviation steady :: "'d NodePool \<Rightarrow> bool" where
  "steady np \<equiv> state np = Some NodePoolStateSteady"

text \<open>
  Over a universe \<open>U\<close> of node names whose virtual nodes do not collide: the ring is well
  formed and has no other members than the universe's.
\<close>

definition pool_ring_ok :: "hashfun \<Rightarrow> string set \<Rightarrow> 'd NodePool \<Rightarrow> bool" where
  "pool_ring_ok hash U np \<longleftrightarrow>
     0 < hashReplicas np \<and> collision_free hash replicationFactor U \<and>
     set (preNodes np) \<subseteq> U \<and> distinct (preNodes np) \<and>
     ring_invar hash (nat (hashReplicas np)) U (ring_of np)"

text \<open>And the members of the ring are exactly the nodes of the last listing.\<close>

definition pool_inv :: "hashfun \<Rightarrow> string set \<Rightarrow> 'd NodePool \<Rightarrow> bool" where
  "pool_inv hash U np \<longleftrightarrow> pool_ring_ok hash U np \<and> members (ring_of np) = set (preNodes np)"

lemma fresh_ring_fields [pool_simps]:
  "sortedSet (fresh_ring np) = []" "hosts (fresh_ring np) = fmempty"
  "loadMap (fresh_ring np) = fmempty" "totalLoad (fresh_ring np) = 0"
  "replicas (fresh_ring np) = hashReplicas np"
  by (simp_all add: fresh_ring_def Consistent_New_def WithReplicas_def WithDefaultLoad_def)

lemma fresh_ring_invar:
  assumes "0 < hashReplicas np" "hashReplicas np \<le> int replicationFactor"
    and "collision_free hash replicationFactor U"
  shows "ring_invar hash (nat (hashReplicas np)) U (fresh_ring np)" and "members (fresh_ring np) = {}"
  using assms by (auto simp: ring_invar_def ring_wf_def members_def pool_simps vnodes_def)

lemma updateHashRing_alt:
  "updateHashRing hash order now nodes np =
     (let (added, removed) = diffNodes order (preNodes np) (sort nodes) in
      if added = [] \<and> removed = []
      then np\<lparr>Nodes := Some (ring_of np), state := Some NodePoolStateSteady\<rparr>
      else np\<lparr>Nodes := Some (fold (Consistent_Add hash) added
                 (fold (\<lambda>h c. snd (Consistent_Remove hash h c)) removed (ring_of np))),
              preNodes := sort nodes, lastUpdateNodesTime := Some now,
              state := Some NodePoolStateUpgrade\<rparr>)"
  by (auto simp: updateHashRing_def ring_of_def fresh_ring_def Let_def split: prod.splits option.splits)

lemma updateHashRing_frame [pool_simps]:
  "hashReplicas (updateHashRing hash order now nodes np) = hashReplicas np"
  "hashLoad (updateHashRing hash order now nodes np) = hashLoad np"
  "capacityLoad (updateHashRing hash order now nodes np) = capacityLoad np"
  "nodeID (updateHashRing hash order now nodes np) = nodeID np"
  "Driver (updateHashRing hash order now nodes np) = Driver np"
  "stopChan (updateHashRing hash order now nodes np) = stopChan np"
  "Nodes (updateHashRing hash order now nodes np) \<noteq> None"
  by (simp_all add: updateHashRing_alt Let_def split: prod.splits)

lemma ring_of_Some [pool_simps]: "ring_of (np\<lparr>Nodes := Some c\<rparr>) = c"
  by (simp add: ring_of_def)

text \<open>
  The ring after an update, whatever its members were: the nodes that left the listing are
  gone, the new ones are in. The state is steady exactly when the listing is unchanged, and
  then the ring is untouched.
\<close>

lemma updateHashRing_members:
  assumes ok: "pool_ring_ok hash U np" and ord: "ranges order"
    and nodes: "distinct nodes" "set nodes \<subseteq> U"
    and np': "np' = updateHashRing hash order now nodes np"
  shows "pool_ring_ok hash U np'"
    and "members (ring_of np') = (members (ring_of np) - (set (preNodes np) - set nodes))
                                   \<union> (set nodes - set (preNodes np))"
    and "set (preNodes np') = set nodes"
    and "state np' = Some (if set nodes = set (preNodes np) then NodePoolStateSteady else NodePoolStateUpgrade)"
    and "set nodes = set (preNodes np) \<Longrightarrow> ring_of np' = ring_of np"
proof -
  obtain added removed where d: "diffNodes order (preNodes np) (sort nodes) = (added, removed)" by fastforce
  have pre: "distinct (preNodes np)" "set (preNodes np) \<subseteq> U" and r: "0 < hashReplicas np"
    and cf: "collision_free hash replicationFactor U"
    and ring: "ring_invar hash (nat (hashReplicas np)) U (ring_of np)"
    using ok by (auto simp: pool_ring_ok_def)
  have A: "set added = set nodes - set (preNodes np)" and R: "set removed = set (preNodes np) - set nodes"
    using diffNodes_distinct [OF ord d pre(1)] nodes by simp_all
  have sub: "set added \<subseteq> U" "set removed \<subseteq> U" using A R pre nodes by auto
  note upd = chr.update_hosts [OF ring sub(2,1)]
  have same: "added = [] \<and> removed = [] \<longleftrightarrow> set nodes = set (preNodes np)"
    using A R by (metis Diff_eq_empty_iff set_empty subset_antisym subset_refl)
  note alt = updateHashRing_alt [of hash order now nodes np, unfolded d, simplified, folded np']
  show "pool_ring_ok hash U np'"
    using upd pre nodes r cf ring by (simp add: alt pool_ring_ok_def ring_of_def)
  show "members (ring_of np') = (members (ring_of np) - (set (preNodes np) - set nodes))
      \<union> (set nodes - set (preNodes np))"
    using upd(2) same A R by (auto simp: alt ring_of_def)
  show "set (preNodes np') = set nodes" using same by (simp add: alt)
  show "state np' = Some (if set nodes = set (preNodes np) then NodePoolStateSteady else NodePoolStateUpgrade)"
    using same by (simp add: alt)
  show "set nodes = set (preNodes np) \<Longrightarrow> ring_of np' = ring_of np"
    using same by (simp add: alt ring_of_def)
qed

lemma updateHashRing_inv:
  assumes "pool_inv hash U np" "ranges order" "distinct nodes" "set nodes \<subseteq> U"
  shows "pool_inv hash U (updateHashRing hash order now nodes np)"
    and "members (ring_of (updateHashRing hash order now nodes np)) = set nodes"
  using updateHashRing_members [OF _ assms(2-4) refl, of hash np now] assms(1) by (auto simp: pool_inv_def)

section \<open>The other operations\<close>

text \<open>The bounded-load lookup may only reset a negative total.\<close>

lemma loadOK_clamps: "loadOK h c = Inr (ok, c') \<Longrightarrow> c' = clamp_total c"
  by (auto simp: loadOK_def clamp_total_def Let_def split: if_splits option.splits)

lemma GetLeast_loop_frame:
  assumes "GetLeast_loop i c = Some rc"
  shows "snd rc = c \<or> snd rc = clamp_total c"
proof (rule GetLeast_loop.raw_induct [where P = "\<lambda>i c rc. snd rc = c \<or> snd rc = clamp_total c", OF _ assms])
  fix f i c rc
  assume IH: "\<And>i c rc. f i c = Some rc \<Longrightarrow> snd rc = c \<or> snd rc = clamp_total c"
    and eq: "(case index_at (sortedSet c) i of
        Inl e \<Rightarrow> Some (Inl e, c)
      | Inr v \<Rightarrow>
          (case fmlookup (hosts c) v of
             None \<Rightarrow> Some (Inl ErrNoHosts, c)
           | Some host \<Rightarrow>
               (case loadOK host c of
                  Inl e \<Rightarrow> Some (Inl e, c)
                | Inr (ok, c') \<Rightarrow>
                    if ok then Some (Inr host, c')
                    else f (if i + 1 \<ge> maplen (hosts c') then 0 else i + 1) c'))) = Some rc"
  have IH': "snd rc = clamp_total c" if "f j (clamp_total c) = Some rc" for j
    using IH [OF that] by auto
  from eq show "snd rc = c \<or> snd rc = clamp_total c"
    by (auto dest!: loadOK_clamps dest: IH' split: option.splits sum.splits prod.splits if_splits)
qed

lemma GetLeast_frame:
  "GetLeast hash key c = Some (r, c') \<Longrightarrow> c' = c \<or> c' = clamp_total c"
  by (auto simp: GetLeast_def split: if_splits dest: GetLeast_loop_frame)

lemma clamp_total_ring_invar [simp]: "ring_invar hash n U (clamp_total c) = ring_invar hash n U c"
  by (simp add: ring_invar_def)

lemma pool_inv_ring:
  assumes "ring_invar hash (nat (hashReplicas np)) U c' = ring_invar hash (nat (hashReplicas np)) U (ring_of np)"
    and "members c' = members (ring_of np)"
  shows "pool_inv hash U (np\<lparr>Nodes := Some c'\<rparr>) = pool_inv hash U np"
  using assms by (simp add: pool_inv_def pool_ring_ok_def pool_simps)

lemma GetHost_cases:
  assumes "GetHost hash key np = Some (r, np')"
  obtains "np' = np" | c c' where "Nodes np = Some c" "c' = clamp_total c" "np' = np\<lparr>Nodes := Some c'\<rparr>"
proof -
  have "np' = np \<or> (\<exists>c. Nodes np = Some c \<and> np' = np\<lparr>Nodes := Some (clamp_total c)\<rparr>)"
    using assms
    by (auto simp: GetHost_def split: option.splits if_splits prod.splits dest!: GetLeast_frame)
  with that show thesis by blast
qed

lemma GetHost_inv:
  assumes "GetHost hash key np = Some (r, np')"
  shows "pool_inv hash U np' = pool_inv hash U np"
  using assms
proof (cases rule: GetHost_cases)
  case (2 c c')
  then show ?thesis by (simp add: pool_inv_ring ring_of_def)
qed simp

lemma IsEligible_inv:
  assumes "IsEligible hash key np = Some (r, np')"
  shows "pool_inv hash U np' = pool_inv hash U np"
  using assms GetHost_inv [of hash key np]
  by (auto simp: IsEligible_def pool_inv_ring ring_of_def
           split: option.splits prod.splits sum.splits if_splits)

lemma DecreaseLoadByKey_inv:
  assumes "DecreaseLoadByKey hash key np = Some (r, np')"
  shows "pool_inv hash U np' = pool_inv hash U np"
  using assms GetHost_inv [of hash key np]
  by (auto simp: DecreaseLoadByKey_def pool_inv_ring ring_of_def
           split: option.splits prod.splits sum.splits if_splits)

lemma ResetLoads_inv:
  "ResetLoads np = (r, np') \<Longrightarrow> pool_inv hash U np' = pool_inv hash U np"
  by (auto simp: ResetLoads_def pool_inv_ring ring_of_def split: option.splits)

lemma pool_inv_other [simp]:
  "pool_inv hash U (np\<lparr>Driver := d\<rparr>) = pool_inv hash U np"
  "pool_inv hash U (np\<lparr>nodeID := i\<rparr>) = pool_inv hash U np"
  "pool_inv hash U (np\<lparr>state := st\<rparr>) = pool_inv hash U np"
  "pool_inv hash U (np\<lparr>stopChan := k\<rparr>) = pool_inv hash U np"
  by (simp_all add: pool_inv_def pool_ring_ok_def ring_of_def fresh_ring_def split: option.splits)

text \<open>What the pool needs of a driver: a listing names each node of the universe at most once.\<close>

definition lists_nodes :: "'d DriverV2 \<Rightarrow> string set \<Rightarrow> bool" where
  "lists_nodes drv U \<longleftrightarrow>
     (\<forall>d ns d'. Driver_GetNodes drv d = (Inr ns, d') \<longrightarrow> distinct ns \<and> set ns \<subseteq> U)"

lemma tick_inv:
  assumes "pool_inv hash U np" "lists_nodes drv U" "ranges order"
  shows "pool_inv hash U (waitingForHashRing_tick drv hash order now np)"
  using assms by (auto simp: waitingForHashRing_tick_def lists_nodes_def
                       split: prod.splits sum.splits intro!: updateHashRing_inv)

lemma Start_init_inv:
  assumes "pool_inv hash U np" "lists_nodes drv U" "ranges order"
    and "Start_init drv hash order now np = (r, np')"
  shows "pool_inv hash U np'"
  using assms by (auto simp: Start_init_def lists_nodes_def Let_def
                       split: prod.splits sum.splits option.splits intro!: updateHashRing_inv)

lemma pool_step_inv:
  assumes "pool_step drv hash env s l s'" "l \<noteq> CallStop" "lists_nodes drv U" "pool_inv hash U (pool s)"
  shows "pool_inv hash U (pool s')"
  using assms
  by (cases rule: pool_step.cases)
     (auto simp: tick_inv Start_init_inv IsEligible_inv DecreaseLoadByKey_inv ResetLoads_inv)

lemma pool_run_inv:
  assumes "pool_run drv hash env s ls s'" "CallStop \<notin> set ls" "lists_nodes drv U" "pool_inv hash U (pool s)"
  shows "pool_inv hash U (pool s')"
  using assms by (induction rule: pool_run.induct) (auto intro: pool_step_inv)

end
