(* ===== verification/RingProps.thy ===== *)
theory RingProps
  imports RingLoad
begin

text \<open>
  The properties of package consistenthash, each with a witness on a small ring: what
  \<^verbatim>\<open>Get\<close>, \<^verbatim>\<open>Add\<close> and \<^verbatim>\<open>Remove\<close> promise, the bounded-load guarantee, and the
  situations in which the code does not keep its promise.
\<close>

section \<open>A concrete ring\<close>

text \<open>
  A hash for the witnesses: the first byte times a thousand plus the decimal number behind
  it, which does not collide on one-letter hosts.
\<close>

definition demo_hash :: hashfun where
  "demo_hash s =
     (case s of [] \<Rightarrow> 0 | c # cs \<Rightarrow> of_nat (1000 * of_char c + decimal_value cs))"

definition demo_ring :: Consistent where
  "demo_ring = Consistent_Add demo_hash ''b'' (Consistent_Add demo_hash ''a''
     (Consistent_New [WithReplicas 2]))"

lemma demo_hash_vnode: "demo_hash (vnode [c] i) = of_nat (1000 * of_char c + i)"
  by (simp add: demo_hash_def vnode_def decimal_value_itoa del: decimal_value.simps)

lemma demo_hash_inj:
  assumes "demo_hash (vnode [c] i) = demo_hash (vnode [d] j)" "i < 1000" "j < 1000"
  shows "c = d \<and> i = j"
proof -
  have "unat (demo_hash (vnode [x] k)) = 1000 * of_char x + k" if "k < 1000" for x k
  proof -
    have "1000 * of_char x + k < (300000 :: nat)"
      using that nat_of_char_less_256 [of x] by linarith
    then show ?thesis unfolding demo_hash_vnode unat_of_nat by (intro mod_less) simp
  qed
  then have "1000 * of_char c + i = 1000 * of_char d + (j :: nat)"
    using assms by metis
  then have "(1000 * of_char c + i) div 1000 = (1000 * of_char d + j :: nat) div 1000"
    "(1000 * of_char c + i) mod 1000 = (1000 * of_char d + j :: nat) mod 1000" by simp_all
  then have "of_char c = (of_char d :: nat) \<and> i = j" using assms(2,3) by simp
  then show ?thesis by simp
qed

lemma demo_collision_free: "n \<le> 1000 \<Longrightarrow> collision_free demo_hash n (range (\<lambda>c. [c]))"
  by (auto simp: collision_free_def inj_on_def dest: demo_hash_inj)

lemma New_WithReplicas:
  "Consistent_New [WithReplicas n] =
     \<lparr>hosts = fmempty, sortedSet = [], loadMap = fmempty, totalLoad = 0, replicas = n,
      defaultLoad = 0\<rparr>"
  by (simp add: Consistent_New_def WithReplicas_def)

lemma ring_invar_New:
  assumes "collision_free hash replicationFactor U" "0 < n" "n \<le> int replicationFactor"
  shows "ring_invar hash (nat n) U (Consistent_New [WithReplicas n])"
  using assms by (simp add: New_WithReplicas ring_invar_def ring_wf_def members_def vnodes_def)

lemma members_New [simp]: "members (Consistent_New [WithReplicas n]) = {}"
  by (simp add: New_WithReplicas members_def)

lemma demo_universe: "collision_free demo_hash replicationFactor {''a'', ''b''}"
  by (rule collision_free_subset [OF demo_collision_free [of replicationFactor]])
     (auto simp: replicationFactor_def)

lemma demo_ring_invar:
  "ring_invar demo_hash 2 {''a'', ''b''} demo_ring" "members demo_ring = {''a'', ''b''}"
proof -
  have "ring_invar demo_hash 2 {''a'', ''b''} (Consistent_New [WithReplicas 2])"
    using ring_invar_New [OF demo_universe, of 2] by (simp add: replicationFactor_def)
  from chr.fold_add [OF this, of "[''a'', ''b'']"]
  show "ring_invar demo_hash 2 {''a'', ''b''} demo_ring" "members demo_ring = {''a'', ''b''}"
    by (auto simp: demo_ring_def)
qed

lemma demo_ring_wf: "ring_wf demo_hash demo_ring" "nreplicas demo_ring = 2"
  using demo_ring_invar(1) by (auto simp: ring_invar_def)

section \<open>Routing\<close>

text \<open>
  (C11) \<^verbatim>\<open>Get\<close> on a well-formed, non-empty ring returns a host of the ring one of whose
  virtual nodes is the successor of the key's hash on the circle: the first virtual node at
  or after it, wrapping around to the first one of all.
\<close>

theorem Get_successor:
  assumes "ring_wf hash c" "members c \<noteq> {}" "0 < nreplicas c"
  shows "\<exists>h\<in>members c. \<exists>i<nreplicas c. Consistent_Get hash key c = Inr h \<and>
    hash (vnode h i) = ring_succ (vnodes hash (nreplicas c) (members c)) (hash key)"
  by (rule Consistent_Get_total [OF assms, of key]) (auto simp: owns_def)

theorem Get_successor_witness:
  "ring_wf demo_hash demo_ring \<and>
   (\<exists>h\<in>{''a'', ''b''}. \<exists>i<2. Consistent_Get demo_hash ''a1'' demo_ring = Inr h \<and>
    demo_hash (vnode h i) = ring_succ (vnodes demo_hash 2 {''a'', ''b''}) (demo_hash ''a1''))"
  using Get_successor [OF demo_ring_wf(1), of "''a1''"] demo_ring_wf demo_ring_invar(2) by simp

text \<open>
  (C13) Adding a host moves keys only to it: whatever \<^verbatim>\<open>Get\<close> answered before, afterwards it
  answers the same host or the new one.
\<close>

theorem Add_moves_keys_to_new_host:
  assumes "ring_invar hash n U c" "members c \<noteq> {}" "x \<in> U"
    and "Consistent_Get hash key c = Inr h"
  shows "Consistent_Get hash key (Consistent_Add hash x c) \<in> {Inr h, Inr x}"
proof -
  have inv: "ring_invar hash n U (Consistent_Add hash x c)"
    and mem: "members (Consistent_Add hash x c) \<noteq> {}"
    using ring_invar_Add [OF assms(1,3)] by auto
  obtain h' where h': "Consistent_Get hash key (Consistent_Add hash x c) = Inr h'"
    using chr.route_total [OF inv mem] by metis
  with chr.route_add_stable [OF assms(1,2,3) h' assms(4)] show ?thesis by auto
qed

theorem Add_moves_keys_to_new_host_witness:
  "\<exists>h. Consistent_Get demo_hash ''b7'' (Consistent_Add demo_hash ''a'' (Consistent_New [WithReplicas 2])) = Inr h \<and>
    Consistent_Get demo_hash ''b7'' demo_ring \<in> {Inr h, Inr ''b''}"
proof -
  let ?c = "Consistent_Add demo_hash ''a'' (Consistent_New [WithReplicas 2])"
  have new: "ring_invar demo_hash 2 {''a'', ''b''} (Consistent_New [WithReplicas 2])"
    using ring_invar_New [OF demo_universe, of 2] by (simp add: replicationFactor_def)
  have c: "ring_invar demo_hash 2 {''a'', ''b''} ?c" "members ?c = {''a''}"
    using ring_invar_Add [OF new, of "''a''"] by auto
  obtain h where h: "Consistent_Get demo_hash ''b7'' ?c = Inr h"
    using chr.route_total [OF c(1)] c(2) by auto
  from Add_moves_keys_to_new_host [OF c(1) _ _ h, of "''b''"] c(2) h show ?thesis
    by (auto simp: demo_ring_def)
qed

text \<open>
  (C14) Removing a host moves only the keys it owned: every key that \<^verbatim>\<open>Get\<close> sent to another
  host is still sent there, and the removed host is answered for no key any more.
\<close>

theorem Remove_moves_only_owned_keys:
  assumes "ring_invar hash n U c" "x \<in> U" "Consistent_Get hash key c = Inr h" "members c \<noteq> {}"
  shows "(h \<noteq> x \<longrightarrow> Consistent_Get hash key (snd (Consistent_Remove hash x c)) = Inr h) \<and>
    Consistent_Get hash key' (snd (Consistent_Remove hash x c)) \<noteq> Inr x"
proof -
  let ?c = "snd (Consistent_Remove hash x c)"
  note R = ring_invar_Remove [OF assms(1,2)]
  have "Consistent_Get hash key' ?c \<noteq> Inr x"
  proof (cases "members ?c = {}")
    case True
    then have "maplen (hosts ?c) = 0"
      using R(1) ring_wf_empty_iff(1) [of hash ?c] by (simp add: ring_invar_def)
    then show ?thesis by (simp add: Consistent_Get_def)
  next
    case False
    from chr.route_total [OF R(1) False] show ?thesis
      by (metis R(2) DiffE insertI1 sum.inject(2))
  qed
  then show ?thesis using chr.route_remove_stable [OF assms(1,2,3,4)] by simp
qed

theorem Remove_moves_only_owned_keys_witness:
  "\<exists>h\<in>{''a'', ''b''}. Consistent_Get demo_hash ''a1'' demo_ring = Inr h \<and>
    (h \<noteq> ''b'' \<longrightarrow>
      Consistent_Get demo_hash ''a1'' (snd (Consistent_Remove demo_hash ''b'' demo_ring)) = Inr h) \<and>
    Consistent_Get demo_hash ''b0'' (snd (Consistent_Remove demo_hash ''b'' demo_ring)) \<noteq> Inr ''b''"
proof -
  obtain h where h: "Consistent_Get demo_hash ''a1'' demo_ring = Inr h" "h \<in> members demo_ring"
    using chr.route_total [OF demo_ring_invar(1)] demo_ring_invar(2) by auto
  from Remove_moves_only_owned_keys [OF demo_ring_invar(1) _ h(1), of "''b''" "''b0''"]
  show ?thesis using demo_ring_invar(2) h by auto
qed

text \<open>
  (C12) Agreement: two rings with the same hosts and the same number of replicas, whatever
  the order in which their hosts came and went, answer every key alike.
\<close>

theorem Get_depends_on_members_only:
  assumes "ring_invar hash n U c" "ring_invar hash n U c'" "members c = members c'"
    and "members c \<noteq> {}"
  shows "Consistent_Get hash key c = Consistent_Get hash key c'"
  using assms by (rule chr.route_agree)

theorem Get_depends_on_members_only_witness:
  "Consistent_Get demo_hash ''job'' demo_ring =
   Consistent_Get demo_hash ''job'' (Consistent_Add demo_hash ''a'' (Consistent_Add demo_hash ''b''
     (snd (Consistent_Remove demo_hash ''a'' demo_ring))))"
proof -
  let ?U = "{''a'', ''b''}"
  note R = ring_invar_Remove [OF demo_ring_invar(1), of "''a''"]
  have B: "ring_invar demo_hash 2 ?U (Consistent_Add demo_hash ''b'' (snd (Consistent_Remove demo_hash ''a'' demo_ring)))"
    "members (Consistent_Add demo_hash ''b'' (snd (Consistent_Remove demo_hash ''a'' demo_ring))) = {''b''}"
    using ring_invar_Add [OF R(1), of "''b''"] R(2) demo_ring_invar(2) by auto
  show ?thesis
    using Get_depends_on_members_only [OF demo_ring_invar(1) ring_invar_Add(1) [OF B(1), of "''a''"]]
      ring_invar_Add(2) [OF B(1), of "''a''"] B(2) demo_ring_invar(2) by auto
qed

section \<open>Every history keeps the ring well formed\<close>

datatype ring_op =
    RAdd string
  | RRemove string
  | RInc string
  | RDone string
  | RUpdateLoad string int64
  | RResetLoads

fun ring_step :: "hashfun \<Rightarrow> ring_op \<Rightarrow> Consistent \<Rightarrow> Consistent" where
  "ring_step hash (RAdd h) c = Consistent_Add hash h c"
| "ring_step hash (RRemove h) c = snd (Consistent_Remove hash h c)"
| "ring_step hash (RInc h) c = Inc h c"
| "ring_step hash (RDone h) c = Done h c"
| "ring_step hash (RUpdateLoad h l) c = UpdateLoad h l c"
| "ring_step hash RResetLoads c = Consistent_ResetLoads c"

fun spec_members :: "ring_op list \<Rightarrow> string set \<Rightarrow> string set" where
  "spec_members [] H = H"
| "spec_members (RAdd h # ops) H = spec_members ops (insert h H)"
| "spec_members (RRemove h # ops) H = spec_members ops (H - {h})"
| "spec_members (_ # ops) H = spec_members ops H"

fun op_hosts :: "ring_op \<Rightarrow> string set" where
  "op_hosts (RAdd h) = {h}"
| "op_hosts (RRemove h) = {h}"
| "op_hosts _ = {}"

lemma ring_step_invar:
  assumes "ring_invar hash n U c" "op_hosts p \<subseteq> U"
  shows "ring_invar hash n U (ring_step hash p c)"
  using assms by (cases p) (auto simp: ring_invar_Add ring_invar_Remove)

lemma ring_ops_invar:
  assumes "ring_invar hash n U c" "\<Union> (op_hosts ` set ops) \<subseteq> U"
  shows "ring_invar hash n U (fold (ring_step hash) ops c) \<and>
    members (fold (ring_step hash) ops c) = spec_members ops (members c)"
  using assms
proof (induction ops arbitrary: c)
  case (Cons p ops)
  have "members (ring_step hash p c) = spec_members [p] (members c)"
    using Cons.prems by (cases p) (auto simp: ring_invar_Add ring_invar_Remove)
  moreover have "spec_members (p # ops) H = spec_members ops (spec_members [p] H)" for H
    by (cases p) auto
  ultimately show ?case
    using Cons.IH [OF ring_step_invar [OF Cons.prems(1)]] Cons.prems(2) by simp
qed simp

text \<open>
  (C10) From a new ring, any sequence of \<^verbatim>\<open>Add\<close>, \<^verbatim>\<open>Remove\<close>, \<^verbatim>\<open>Inc\<close>, \<^verbatim>\<open>Done\<close>,
  \<^verbatim>\<open>UpdateLoad\<close> and \<^verbatim>\<open>ResetLoads\<close> over hosts whose virtual nodes do not collide leaves a
  well-formed ring: sorted and duplicate-free, with exactly the virtual nodes of the hosts
  added and not removed since, each mapped to its host; it is empty exactly when there is no
  such host. The number of replicas is at most the 50 that \<^verbatim>\<open>Remove\<close> deletes.
\<close>

theorem ring_history_wf:
  assumes "collision_free hash replicationFactor U" "0 < n" "n \<le> int replicationFactor"
    and "\<Union> (op_hosts ` set ops) \<subseteq> U"
    and "c = fold (ring_step hash) ops (Consistent_New [WithReplicas n])"
  shows "ring_wf hash c \<and> members c = spec_members ops {} \<and>
    (Consistent_IsEmpty c \<longleftrightarrow> spec_members ops {} = {})"
proof -
  have "ring_invar hash (nat n) U c \<and> members c = spec_members ops {}"
    using ring_ops_invar [OF ring_invar_New [OF assms(1,2,3)] assms(4)] by (simp add: assms(5))
  then show ?thesis
    using ring_wf_empty_iff(1) [of hash c] by (simp add: ring_invar_def Consistent_IsEmpty_def)
qed

theorem ring_history_wf_witness:
  "ring_wf demo_hash (fold (ring_step demo_hash) [RAdd ''a'', RAdd ''b'', RInc ''a'', RRemove ''a'']
     (Consistent_New [WithReplicas 3])) \<and>
   members (fold (ring_step demo_hash) [RAdd ''a'', RAdd ''b'', RInc ''a'', RRemove ''a'']
     (Consistent_New [WithReplicas 3])) = {''b''}"
  using ring_history_wf [OF demo_universe, of 3 "[RAdd ''a'', RAdd ''b'', RInc ''a'', RRemove ''a'']"]
  by (auto simp: replicationFactor_def)

text \<open>
  Removing the host just added restores the ring exactly, field by field.
\<close>

theorem Add_Remove_roundtrip:
  assumes "ring_invar hash n U c" "h \<in> U" "h \<notin> members c"
  shows "Consistent_Remove hash h (Consistent_Add hash h c) = (True, c)"
proof -
  let ?a = "Consistent_Add hash h c"
  let ?r = "snd (Consistent_Remove hash h ?a)"
  have new: "fmlookup (loadMap c) h = None" using assms(3) by (simp add: mem_members_iff option.exhaust_sel)
  note A = ring_invar_Add [OF assms(1,2)]
  note R = ring_invar_Remove [OF A(1) assms(2)]
  have srt: "sorted (sortedSet ?a)" using A(1) by (simp add: ring_invar_def ring_wf_def)
  note F = Consistent_Add_fields [OF new, of hash] and G = Consistent_Remove_fields [OF srt, of hash h]
  have mem: "members ?r = members c" using R(2) A(2) assms(3) by simp
  have wf: "ring_wf hash c" "ring_wf hash ?r" and rep: "nreplicas ?r = nreplicas c"
    using assms(1) R(1) by (auto simp: ring_invar_def)
  have "sortedSet ?r = sortedSet c"
    using wf mem rep by (intro sorted_distinct_set_unique) (auto simp: ring_wf_def)
  moreover have "hosts ?r = hosts c"
  proof (rule fmap_ext)
    fix v
    show "fmlookup (hosts ?r) v = fmlookup (hosts c) v"
    proof (cases "v \<in> vnodes hash (nreplicas c) (members c)")
      case True
      then obtain x i where "x \<in> members c" "i < nreplicas c" "v = hash (vnode x i)" by (rule vnodeE)
      with wf mem rep show ?thesis by (simp add: ring_wf_def)
    next
      case False
      then have "v \<notin> fmdom' (hosts ?r)" "v \<notin> fmdom' (hosts c)"
        using wf mem rep by (simp_all add: ring_wf_def)
      then show ?thesis by (metis fmdom'_notD)
    qed
  qed
  moreover have "loadMap ?r = loadMap c"
    using new by (intro fmap_ext) (auto simp: G F)
  moreover have "totalLoad ?r = totalLoad c" "replicas ?r = replicas c" by (simp_all add: G F)
  moreover have "defaultLoad ?r = defaultLoad c" by (simp add: defaultLoad_frame)
  ultimately have "?r = c" by simp
  then show ?thesis by (simp add: Consistent_Remove_def Let_def)
qed

theorem Add_Remove_roundtrip_witness:
  "Consistent_Remove demo_hash ''a'' (Consistent_Add demo_hash ''a''
     (Consistent_New [WithReplicas 2])) = (True, Consistent_New [WithReplicas 2])"
proof -
  have "ring_invar demo_hash 2 {''a'', ''b''} (Consistent_New [WithReplicas 2])"
    using ring_invar_New [OF demo_universe, of 2] by (simp add: replicationFactor_def)
  from Add_Remove_roundtrip [OF this, of "''a''"] show ?thesis by simp
qed

text \<open>
  (C29) The hand-written binary search of \<^verbatim>\<open>delSlice\<close> deletes one occurrence of the value from
  a sorted slice and leaves a slice without it unchanged, like the linear reference
  \<^const>\<open>remove1\<close>.
\<close>

theorem delSlice_is_remove1:
  assumes "sorted (sortedSet c)"
  shows "delSlice val c = c\<lparr>sortedSet := remove1 val (sortedSet c)\<rparr>"
  using assms by (rule delSlice_remove1)

theorem delSlice_is_remove1_witness:
  "sortedSet (delSlice 25 \<lparr>hosts = fmempty, sortedSet = [0, 1, 22, 25, 25, 1009], loadMap = fmempty,
     totalLoad = 0, replicas = 1, defaultLoad = 0\<rparr>) = [0, 1, 22, 25, 1009]"
  using delSlice_is_remove1 [of "\<lparr>hosts = fmempty, sortedSet = [0, 1, 22, 25, 25, 1009],
    loadMap = fmempty, totalLoad = 0, replicas = 1, defaultLoad = 0\<rparr>" 25] by simp

section \<open>Load accounting\<close>





lemma demo_load_wf: "load_wf demo_ring" "load_bounded demo_ring" "totalLoad demo_ring = 0"
proof -
  have *: "load_of demo_ring h = 0" "totalLoad demo_ring = 0" for h
    by (auto simp: demo_ring_def New_WithReplicas Consistent_Add_loads load_of_def)
  then show "load_wf demo_ring" "totalLoad demo_ring = 0" by (simp_all add: load_wf_def load_sum_def)
  show "load_bounded demo_ring"
    unfolding load_bounded_def demo_ring_invar(2) * by (simp add: load_cap_bounds)
qed


text \<open>
  (C26) Bounded loads: dispatch any list of keys with \<^verbatim>\<open>GetLeast\<close> and \<^verbatim>\<open>Inc\<close> on a
  non-empty ring without load. Every lookup returns, each key is counted once, and at the
  end no host carries more than \<^verbatim>\<open>MaxLoad()\<close>.
\<close>

theorem dispatch_within_MaxLoad:
  assumes "ring_wf hash c" "0 < nreplicas c" "members c \<noteq> {}"
    and "\<And>h. load_of c h = 0" "totalLoad c = 0" "length keys < 2 ^ 50"
  shows "\<exists>c' m c''. dispatch hash keys c = Some c' \<and> MaxLoad c' = Inr (m, c'') \<and>
    load_sum c' = int (length keys) \<and> (\<forall>h\<in>members c. 0 \<le> load_of c' h \<and> load_of c' h \<le> sint m)"
proof -
  have wf: "load_wf c" using assms(4,5) by (simp add: load_wf_def load_sum_def)
  have n: "0 < card (members c)" using assms(3) by (simp add: card_gt_0_iff)
  have bnd: "load_bounded c"
    using load_cap_bounds [of 0 "card (members c)"] n by (simp add: load_bounded_def assms(4,5))
  obtain c' where c': "dispatch hash keys c = Some c'" "members c' = members c" "load_wf c'"
      "load_bounded c'" "load_sum c' = int (length keys)"
    using dispatch_bounded [OF assms(1-3) wf bnd, of keys] assms(4-6)
    by (auto simp: load_sum_def)
  obtain m c'' where m: "MaxLoad c' = Inr (m, c'')"
      "sint m = load_cap (sint (totalLoad c')) (card (members c'))"
    using MaxLoad_wf [OF c'(3)] c'(2) assms(3) by auto
  have "0 \<le> load_of c' h \<and> load_of c' h \<le> sint m" if "h \<in> members c" for h
    using that c'(2,4) m(2) load_of_nonneg [OF c'(3)] by (simp add: load_bounded_def)
  with c' m(1) show ?thesis by blast
qed

theorem dispatch_within_MaxLoad_witness:
  "\<exists>c' m c''. dispatch demo_hash [''a1'', ''a1'', ''b0''] demo_ring = Some c' \<and>
    MaxLoad c' = Inr (m, c'') \<and> load_sum c' = 3 \<and>
    0 \<le> load_of c' ''a'' \<and> load_of c' ''a'' \<le> sint m"
proof -
  have "load_of demo_ring h = 0" for h
    by (auto simp: demo_ring_def New_WithReplicas Consistent_Add_loads load_of_def)
  from dispatch_within_MaxLoad [OF demo_ring_wf(1) _ _ this demo_load_wf(3), of "[''a1'', ''a1'', ''b0'']"]
  show ?thesis using demo_ring_wf(2) demo_ring_invar(2) by fastforce
qed

text \<open>
  \<^verbatim>\<open>GetLeastv2wip\<close> returns on every well-formed non-empty ring, whatever the loads: with a
  host within its cap, or, when there is none, with a least loaded host.
\<close>

theorem GetLeastv2wip_returns:
  assumes "ring_wf hash c" "members c \<noteq> {}" "0 < nreplicas c"
    and "\<And>h. h \<in> members c \<Longrightarrow> load_of c h < 2 ^ 63 - 1"
  shows "\<exists>h\<in>members c. \<exists>c'. GetLeastv2wip hash key c = Some (Inr h, c') \<and>
    (acceptable c h \<or>
     (\<forall>x\<in>members c. \<not> acceptable c x) \<and> (\<forall>x\<in>members c. load_of c h \<le> load_of c x))"
proof -
  have sn: "sortedSet c \<noteq> []" "maplen (hosts c) \<noteq> 0" using ring_wf_empty_iff [OF assms(1)] assms(2,3) by auto
  have init: "least_so_far c [] max_int64 {||}" by (simp add: least_so_far_def)
  have "ring_search (hash key) c \<le> length (sortedSet c)" using ring_search_bound [OF sn(1)] by (rule less_imp_le)
  from GetLeastv2_loop_returns [OF assms(1) sn(1) assms(3,2,4) init this] show ?thesis
    using sn(2) by (auto simp: GetLeastv2wip_def v2_result_def)
qed

theorem GetLeastv2wip_returns_witness:
  "\<exists>h\<in>{''a'', ''b''}. \<exists>c'. GetLeastv2wip demo_hash ''zz'' (UpdateLoad ''a'' 9 demo_ring) = Some (Inr h, c')"
proof -
  let ?c = "UpdateLoad ''a'' 9 demo_ring"
  obtain b where "fmlookup (loadMap demo_ring) ''a'' = Some b"
    using demo_ring_invar(2) mem_members_iff [of "''a''" demo_ring] by auto
  then have "load_of ?c h < 2 ^ 63 - 1" for h
    using load_of_le_total [OF demo_load_wf(1), of h] demo_load_wf(3)
    by (simp add: UpdateLoad_sums(1))
  then show ?thesis
    using GetLeastv2wip_returns [of demo_hash ?c "''zz''"] demo_ring_wf demo_ring_invar(2) by auto
qed

section \<open>Where the ring does not keep its promises\<close>

lemma GetLeast_loop_stuck:
  assumes wf: "ring_wf hash c" and T: "0 \<le> sint (totalLoad c)"
    and none: "\<And>h. h \<in> members c \<Longrightarrow> \<not> acceptable c h"
  shows "i < length (sortedSet c) \<Longrightarrow> GetLeast_loop i c \<noteq> Some r"
proof
  assume i: "i < length (sortedSet c)" and ret: "GetLeast_loop i c = Some r"
  have "\<not> (i < length (sortedSet c) \<and> c = c)"
  proof (rule GetLeast_loop.raw_induct [where P = "\<lambda>i c' r. \<not> (i < length (sortedSet c) \<and> c' = c)", OF _ ret])
    fix f i c' r
    assume IH: "\<And>i c' r. f i c' = Some r \<Longrightarrow> \<not> (i < length (sortedSet c) \<and> c' = c)"
      and eq: "(case index_at (sortedSet c') i of
        Inl e \<Rightarrow> Some (Inl e, c')
      | Inr v \<Rightarrow>
          (case fmlookup (hosts c') v of
             None \<Rightarrow> Some (Inl ErrNoHosts, c')
           | Some host \<Rightarrow>
               (case loadOK host c' of
                  Inl e \<Rightarrow> Some (Inl e, c')
                | Inr (ok, c'') \<Rightarrow>
                    if ok then Some (Inr host, c'')
                    else f (if i + 1 \<ge> maplen (hosts c'') then 0 else i + 1) c''))) = Some r"
    show "\<not> (i < length (sortedSet c) \<and> c' = c)"
    proof
      assume a: "i < length (sortedSet c) \<and> c' = c"
      then have sn: "sortedSet c \<noteq> []" by auto
      note mem = ring_wf_host_at(1) [OF wf sn, of i]
      have ok: "loadOK (host_at c i) c = Inr (False, c)"
        using loadOK_member [OF mem] none [OF mem] T by (simp add: clamp_total_def)
      have look: "fmlookup (hosts c) (sortedSet c ! i) = Some (host_at c i)"
        using ring_wf_host_at(2) [OF wf sn] a by blast
      let ?j = "if i + 1 \<ge> maplen (hosts c) then 0 else i + 1"
      have "f ?j c = Some r" using eq a ok look by simp
      moreover have "?j < length (sortedSet c)" using a ring_wf_maplen_hosts [OF wf] by auto
      ultimately show False using IH by blast
    qed
  qed
  with i show False by simp
qed

text \<open>
  (C32) \<^verbatim>\<open>GetLeast\<close> does not return when no host is within its cap: its loop has no other
  exit. Such a ring is reachable: two surplus \<^verbatim>\<open>Done\<close> calls on one host, two \<^verbatim>\<open>Inc\<close>
  calls on the other, and the removal of the first leave a total of 0 and a load of 2.
\<close>

theorem GetLeast_diverges:
  assumes "ring_wf hash c" "members c \<noteq> {}" "0 < nreplicas c" "0 \<le> sint (totalLoad c)"
    and "\<And>h. h \<in> members c \<Longrightarrow> loadOK h c = Inr (False, c)"
  shows "GetLeast hash key c = None"
proof -
  have none: "\<not> acceptable c h" if "h \<in> members c" for h using assms(5) [OF that] by (simp add: acceptable_def)
  have sn: "sortedSet c \<noteq> []" "maplen (hosts c) \<noteq> 0" using ring_wf_empty_iff [OF assms(1)] assms(2,3) by auto
  have "GetLeast_loop (ring_search (hash key) c) c \<noteq> Some r" for r
    using GetLeast_loop_stuck [OF assms(1,4) none ring_search_bound [OF sn(1)]] .
  with sn(2) show ?thesis by (cases "GetLeast_loop (ring_search (hash key) c) c") (auto simp: GetLeast_def)
qed

definition stuck_ops :: "ring_op list" where
  "stuck_ops =
     [RAdd ''a'', RAdd ''b'', RDone ''a'', RDone ''a'', RInc ''b'', RInc ''b'', RRemove ''a'']"

definition stuck_ring :: Consistent where
  "stuck_ring = fold (ring_step demo_hash) stuck_ops (Consistent_New [WithReplicas 1])"

lemma stuck_ring_facts:
  "ring_invar demo_hash 1 {''a'', ''b''} stuck_ring" "members stuck_ring = {''b''}"
  "totalLoad stuck_ring = 0" "load_of stuck_ring ''b'' = 2"
proof -
  let ?c0 = "fold (ring_step demo_hash) (butlast stuck_ops) (Consistent_New [WithReplicas 1])"
  have inv: "ring_invar demo_hash 1 {''a'', ''b''} (Consistent_New [WithReplicas 1])"
    using ring_invar_New [OF demo_universe, of 1] by (simp add: replicationFactor_def)
  from ring_ops_invar [OF inv, of stuck_ops]
  show "ring_invar demo_hash 1 {''a'', ''b''} stuck_ring" "members stuck_ring = {''b''}"
    by (auto simp: stuck_ring_def stuck_ops_def)
  have "ring_invar demo_hash 1 {''a'', ''b''} ?c0"
    using ring_ops_invar [OF inv, of "butlast stuck_ops"] by (auto simp: stuck_ops_def)
  then have srt: "sorted (sortedSet ?c0)" by (simp add: ring_invar_def ring_wf_def)
  have m0: "fmlookup (loadMap ?c0) ''b'' = Some \<lparr>Name = ''b'', Load = 2\<rparr>" "totalLoad ?c0 = 0"
    by (simp_all add: stuck_ops_def New_WithReplicas Consistent_Add_loads Inc_Done_fields)
  have "stuck_ring = snd (Consistent_Remove demo_hash ''a'' ?c0)"
    by (simp add: stuck_ring_def stuck_ops_def)
  with Consistent_Remove_fields(3,4) [OF srt, of demo_hash "''a''"] m0
  show "totalLoad stuck_ring = 0" "load_of stuck_ring ''b'' = 2" by (simp_all add: load_of_def)
qed

theorem GetLeast_diverges_witness:
  "GetLeast demo_hash ''k'' stuck_ring = None"
proof -
  have "loadOK ''b'' stuck_ring = Inr (False, stuck_ring)"
    using loadOK_alt [of "''b''" stuck_ring] by (simp add: stuck_ring_facts load_cap_bounds)
  then show ?thesis
    using stuck_ring_facts(1) by (intro GetLeast_diverges) (simp_all add: stuck_ring_facts ring_invar_def)
qed

lemma Get_stored:
  assumes "sorted (sortedSet c)" "hash key \<in> set (sortedSet c)" "maplen (hosts c) \<noteq> 0"
  shows "Consistent_Get hash key c = Inr (hosts_at c (hash key))"
proof -
  have ne: "sortedSet c \<noteq> []" using assms(2) by auto
  have "Min {v \<in> set (sortedSet c). hash key \<le> v} = hash key"
    by (rule Min_eqI) (use assms(2) in auto)
  then have "ring_succ (set (sortedSet c)) (hash key) = hash key"
    using assms(2) by (auto simp: ring_succ_def)
  then have "sortedSet c ! ring_search (hash key) c = hash key"
    using ring_succ_sorted [OF assms(1) ne, of "hash key"] by (simp add: ring_search_def Let_def)
  with assms(3) ring_search_bound [OF ne, of "hash key"] show ?thesis
    by (simp add: Consistent_Get_def)
qed

lemma maplen_nonzero: "fmlookup m k = Some v \<Longrightarrow> maplen m \<noteq> 0"
  using fmdomI [of m k v] by auto

lemma mset_fold_remove1:
  "mset (fold (\<lambda>i. remove1 (f i)) is xs) = mset xs - mset (map f is)"
  by (induction "is" arbitrary: xs) simp_all



text \<open>
  Virtual nodes are named by the host followed by their number, so a host whose name
  continues another one by a digit shares names with it: removing \<^verbatim>\<open>a\<close> takes entries of
  \<^verbatim>\<open>a1\<close> out of the map while their hashes stay on the ring, and a lookup that lands there
  answers the empty host name, with no error.
\<close>

theorem Remove_breaks_prefix_host:
  assumes "hash ''a149'' \<notin> (\<lambda>i. hash (vnode ''a'' i)) ` {..<replicationFactor}"
    and "c = snd (Consistent_Remove hash ''a''
               (Consistent_Add hash ''a1'' (Consistent_Add hash ''a'' (Consistent_New []))))"
  shows "members c = {''a1''} \<and> Consistent_Get hash ''a10'' c = Inr []"
proof -
  let ?A = "\<lambda>i. hash (vnode ''a'' i)" and ?B = "\<lambda>i. hash (vnode ''a1'' i)"
  let ?a = "Consistent_Add hash ''a'' (Consistent_New [])"
  let ?b = "Consistent_Add hash ''a1'' ?a"
  have n: "nreplicas (Consistent_New []) = replicationFactor" "loadMap (Consistent_New []) = fmempty"
    "sortedSet (Consistent_New []) = []" "hosts (Consistent_New []) = fmempty"
    by (simp_all add: Consistent_New_def)
  have b: "sortedSet ?b = sort (sort (map ?A [0..<replicationFactor]) @ map ?B [0..<replicationFactor])"
    "\<And>v. fmlookup (hosts ?b) v = (if v \<in> ?B ` {..<replicationFactor} then Some ''a1''
      else if v \<in> ?A ` {..<replicationFactor} then Some ''a'' else None)"
    "loadMap ?b = fmupd ''a1'' \<lparr>Name = ''a1'', Load = 0\<rparr> (fmupd ''a'' \<lparr>Name = ''a'', Load = 0\<rparr> fmempty)"
    by (simp_all add: Consistent_Add_fields n)
  note R = Consistent_Remove_fields [of ?b hash "''a''", folded assms(2)]
  have srt: "sorted (sortedSet c)" by (simp add: R b sorted_fold_remove1)
  have "mset (sortedSet c) = mset (map ?B [0..<replicationFactor])"
    by (simp add: R b mset_fold_remove1)
  then have set: "set (sortedSet c) = ?B ` {..<replicationFactor}"
    by (metis atLeast0LessThan set_map set_mset_mset set_upt)
  have name: "''a10'' = vnode ''a1'' 0" "''a10'' = vnode ''a'' 10" "''a149'' = vnode ''a1'' 49"
    by (simp_all add: vnode_def itoa.simps digit_char_def char_of_def bit_Suc_0_iff)
  have "hash ''a10'' \<in> set (sortedSet c)"
    unfolding set name(1) by (rule imageI) (simp add: replicationFactor_def)
  moreover have "fmlookup (hosts c) (?B 49) = Some ''a1''"
    using assms(1) unfolding name(3) by (simp add: R b replicationFactor_def)
  then have "maplen (hosts c) \<noteq> 0" by (rule maplen_nonzero)
  ultimately have "Consistent_Get hash ''a10'' c = Inr (hosts_at c (hash ''a10''))"
    using srt by (intro Get_stored)
  moreover have "hash ''a10'' \<in> ?A ` {..<replicationFactor}"
    unfolding name(2) by (rule imageI) (simp add: replicationFactor_def)
  then have "fmlookup (hosts c) (hash ''a10'') = None" by (simp add: R b)
  moreover have "members c = {''a1''}" by (auto simp: members_def R b)
  ultimately show ?thesis by (simp add: hosts_at_def)
qed

theorem Remove_breaks_prefix_host_witness:
  "Consistent_Get demo_hash ''a10''
     (snd (Consistent_Remove demo_hash ''a''
       (Consistent_Add demo_hash ''a1'' (Consistent_Add demo_hash ''a'' (Consistent_New []))))) = Inr []"
proof -
  have eq: "demo_hash ''a149'' = demo_hash (vnode ''a'' 149)"
    by (simp add: vnode_def itoa.simps digit_char_def char_of_def bit_Suc_0_iff)
  have "demo_hash (vnode ''a'' 149) \<noteq> demo_hash (vnode ''a'' i)" if "i < 50" for i
    using demo_hash_inj [of "CHR ''a''" 149 "CHR ''a''" i] that by auto
  then have "demo_hash ''a149'' \<notin> (\<lambda>i. demo_hash (vnode ''a'' i)) ` {..<replicationFactor}"
    unfolding eq replicationFactor_def by auto
  from Remove_breaks_prefix_host [OF this refl] show ?thesis by simp
qed

text \<open>
  \<^verbatim>\<open>WithDefaultLoad\<close> stores what it is given, below 1 included, and the bounded-load
  arithmetic never reads it: the cap is the constant 1.25 whatever the option says.
\<close>

theorem WithDefaultLoad_has_no_effect:
  "defaultLoad (WithDefaultLoad l c) = l \<and>
   map_sum id fst (loadOK h (WithDefaultLoad l c)) = map_sum id fst (loadOK h c) \<and>
   map_sum id fst (MaxLoad (WithDefaultLoad l c)) = map_sum id fst (MaxLoad c)"
  by (simp add: WithDefaultLoad_def loadOK_def MaxLoad_def Let_def split: option.splits)

end
