(* ===== verification/PoolProps.thy ===== *)
theory PoolProps
  imports PoolUpdate RingProps
begin

text \<open>
  The properties of the node pool, and the concrete pool on which their hypotheses are seen
  to hold.
\<close>

section \<open>A concrete pool\<close>

definition demo_driver :: "string \<Rightarrow> string list DriverV2" where
  "demo_driver me = \<lparr>Driver_Init = (\<lambda>_ _ d. d), Driver_NodeID = (\<lambda>_. me),
     Driver_GetNodes = (\<lambda>d. (Inr d, d)), Driver_Start = (\<lambda>d. (None, d)),
     Driver_Stop = (\<lambda>d. (None, d))\<rparr>"

definition key_order :: range_order where
  "key_order m = sorted_list_of_fset (fmdom m)"

definition demo_pool :: "string \<Rightarrow> string list \<Rightarrow> string list NodePool" where
  "demo_pool me ns = (NewNodePool (demo_driver me) ''svc'' ns 1 2 [])\<lparr>nodeID := me\<rparr>"

lemma ranges_key_order: "ranges key_order"
  by (simp add: ranges_def key_order_def sorted_list_of_fset.rep_eq)

lemma demo_pool_fields [simp]:
  "Nodes (demo_pool me ns) = None" "preNodes (demo_pool me ns) = []" "nodeID (demo_pool me ns) = me"
  "hashReplicas (demo_pool me ns) = 2" "capacityLoad (demo_pool me ns) = False"
  "Driver (demo_pool me ns) = ns" "state (demo_pool me ns) = None" "stopChan (demo_pool me ns) = 0"
  by (simp_all add: demo_pool_def NewNodePool_def demo_driver_def)

lemma demo_pool_inv: "pool_inv demo_hash {''a'', ''b''} (demo_pool me ns)"
proof -
  have cf: "collision_free demo_hash replicationFactor {''a'', ''b''}" by (rule demo_universe)
  from fresh_ring_invar [of "demo_pool me ns", OF _ _ cf] cf show ?thesis
    by (simp add: pool_inv_def pool_ring_ok_def ring_of_def replicationFactor_def)
qed

section \<open>Membership changes\<close>

text \<open>
  \<^verbatim>\<open>diffNodes\<close> counts occurrences: whatever order the map is ranged over in, a node is
  added iff it occurs more often in the new listing than in the current one, removed iff less
  often, and each node is named once. With no repeated nodes these are the set differences.
\<close>

theorem diffNodes_spec:
  assumes "ranges order" "diffNodes order cur new = (added, removed)"
  shows "distinct added \<and> distinct removed \<and>
    set added = {x. count_list cur x < count_list new x} \<and>
    set removed = {x. count_list new x < count_list cur x} \<and>
    (distinct cur \<and> distinct new \<longrightarrow> set added = set new - set cur \<and> set removed = set cur - set new)"
  using diffNodes_multisets [OF assms] diffNodes_distinct [OF assms] by simp

theorem diffNodes_spec_witness:
  "set (fst (diffNodes key_order [''a'', ''b''] [''b'', ''c''])) = {''c''} \<and>
   set (snd (diffNodes key_order [''a'', ''b''] [''b'', ''c''])) = {''a''}"
  using diffNodes_spec [OF ranges_key_order, of "[''a'', ''b'']" "[''b'', ''c'']"]
  by (cases "diffNodes key_order [''a'', ''b''] [''b'', ''c'']") auto

text \<open>
  (C9) An update of the ring refines the abstract step \<open>members := listing\<close>: afterwards the
  ring holds exactly the listed nodes and is well formed; the pool is steady iff the listing
  is the previous one, and then the ring is untouched, otherwise it is upgrading and the time
  of the change is recorded.
\<close>

theorem updateHashRing_refines:
  assumes "pool_inv hash U np" "ranges order" "distinct nodes" "set nodes \<subseteq> U"
    and "np' = updateHashRing hash order now nodes np"
  shows "pool_inv hash U np' \<and> members (ring_of np') = set nodes \<and>
    (if set nodes = set (preNodes np)
     then steady np' \<and> ring_of np' = ring_of np \<and> lastUpdateNodesTime np' = lastUpdateNodesTime np
     else state np' = Some NodePoolStateUpgrade \<and> GetLastNodesUpdateTime np' = Inr now)"
proof -
  have ok: "pool_ring_ok hash U np" using assms(1) by (simp add: pool_inv_def)
  note m = updateHashRing_members [OF ok assms(2-5)]
  obtain added removed where d: "diffNodes order (preNodes np) (sort nodes) = (added, removed)" by fastforce
  have AR: "set added = set nodes - set (preNodes np)" "set removed = set (preNodes np) - set nodes"
    using diffNodes_distinct [OF assms(2) d] ok assms(3) by (simp_all add: pool_ring_ok_def)
  have "added = [] \<and> removed = [] \<longleftrightarrow> set nodes = set (preNodes np)"
    using AR by (metis Diff_eq_empty_iff set_empty subset_antisym subset_refl)
  then have "lastUpdateNodesTime np' =
      (if set nodes = set (preNodes np) then lastUpdateNodesTime np else Some now)"
    by (simp add: assms(5) updateHashRing_alt d)
  with m(4,5) updateHashRing_inv [OF assms(1-4), of now] show ?thesis
    unfolding assms(5) by (simp add: GetLastNodesUpdateTime_def)
qed

theorem updateHashRing_refines_witness:
  "members (ring_of (updateHashRing demo_hash key_order 7 [''b'', ''a''] (demo_pool ''a'' []))) = {''a'', ''b''} \<and>
   GetLastNodesUpdateTime (updateHashRing demo_hash key_order 7 [''b'', ''a''] (demo_pool ''a'' [])) = Inr 7"
  using updateHashRing_refines [OF demo_pool_inv [of "''a''" "[]"] ranges_key_order _ _ refl, of "[''b'', ''a'']" 7]
  by auto

text \<open>
  (C8) In every run of the pool with its background loop in which \<^verbatim>\<open>Stop\<close> is not called,
  whatever the interleaving of calls, ticks and changes at the remote server, the ring stays
  well formed and its members are exactly the nodes of the last listing the pool took.
\<close>

theorem pool_run_ring_is_listing:
  assumes "pool_run drv hash env s ls s'" "CallStop \<notin> set ls" "lists_nodes drv U"
    and "pool_inv hash U (pool s)"
  shows "ring_wf hash (ring_of (pool s')) \<and> members (ring_of (pool s')) = set (preNodes (pool s'))"
  using pool_run_inv [OF assms] by (simp add: pool_inv_def pool_ring_ok_def ring_invar_def)

definition demo_driver_ab :: "string \<Rightarrow> string list DriverV2" where
  "demo_driver_ab me = (demo_driver me)\<lparr>Driver_GetNodes := (\<lambda>d. (Inr [''b'', ''a''], d))\<rparr>"

definition demo_sys :: "string \<Rightarrow> string list pool_sys" where
  "demo_sys me = \<lparr>pool = demo_pool me [], loops = 1, waiting = 1\<rparr>"

definition demo_tick :: "string list NodePool \<Rightarrow> string list NodePool" where
  "demo_tick = waitingForHashRing_tick (demo_driver_ab ''a'') demo_hash key_order 7"

lemma demo_tick_step:
  assumes "loops s > 0"
  shows "pool_step (demo_driver_ab ''a'') demo_hash env s Tick (s\<lparr>pool := demo_tick (pool s)\<rparr>)"
  unfolding demo_tick_def using assms ranges_key_order by (rule pool_step.tick)

lemma demo_tick_alt:
  "demo_tick np = updateHashRing demo_hash key_order 7 [''b'', ''a''] np"
  by (simp add: demo_tick_def waitingForHashRing_tick_def demo_driver_ab_def)

theorem pool_run_ring_is_listing_witness:
  "\<exists>s'. pool_run (demo_driver_ab ''a'') demo_hash (=) (demo_sys ''a'') [Tick] s' \<and>
     ring_wf demo_hash (ring_of (pool s')) \<and> members (ring_of (pool s')) = {''a'', ''b''}"
proof -
  let ?s = "demo_sys ''a''"
  let ?s' = "?s\<lparr>pool := demo_tick (pool ?s)\<rparr>"
  have run: "pool_run (demo_driver_ab ''a'') demo_hash (=) ?s ([] @ [Tick]) ?s'"
    by (rule run_step [OF run_refl demo_tick_step]) (simp add: demo_sys_def)
  have U: "lists_nodes (demo_driver_ab ''a'') {''a'', ''b''}"
    by (simp add: lists_nodes_def demo_driver_ab_def)
  have inv: "pool_inv demo_hash {''a'', ''b''} (pool ?s)" by (simp add: demo_sys_def demo_pool_inv)
  have "set (preNodes (pool ?s')) = {''a'', ''b''}"
    using updateHashRing_inv [OF inv ranges_key_order, of "[''b'', ''a'']" 7]
    by (auto simp: demo_tick_alt pool_inv_def)
  with pool_run_ring_is_listing [OF run _ U inv]
  have "ring_wf demo_hash (ring_of (pool ?s'))" "members (ring_of (pool ?s')) = {''a'', ''b''}" by simp_all
  with run show ?thesis unfolding append_Nil by blast
qed

section \<open>The steady state\<close>

lemma diffNodes_empty_iff:
  assumes "ranges order"
  shows "diffNodes order cur new = ([], []) \<longleftrightarrow> mset cur = mset new"
proof
  assume "diffNodes order cur new = ([], [])"
  from diffNodes_multisets(3,4) [OF assms this]
  have "\<not> count_list cur x < count_list new x" "\<not> count_list new x < count_list cur x" for x by simp_all
  then have "count_list cur x = count_list new x" for x using linorder_neqE_nat by blast
  then show "mset cur = mset new" by (simp add: multiset_eq_iff count_mset)
qed (rule diffNodes_unchanged [OF assms])

lemma updateHashRing_state:
  assumes "ranges order" "np' = updateHashRing hash order now nodes np"
  shows "steady np' \<longleftrightarrow> mset (preNodes np) = mset nodes"
    and "mset (preNodes np') = mset nodes"
  using diffNodes_empty_iff [OF assms(1), of "preNodes np" "sort nodes"]
  by (auto simp: assms(2) updateHashRing_alt NodePoolStateSteady_def NodePoolStateUpgrade_def
           split: prod.splits)

inductive_cases TickE: "pool_step drv hash env s Tick s'"

text \<open>
  (C20) The background loop settles: when two listings in a row name the same nodes, in any
  order, the pool is steady after the second one, and a \<^verbatim>\<open>Start\<close> that waits can return.
  Nothing is assumed of the state before, nor that a listing names a node only once.
\<close>

theorem equal_listings_make_steady:
  assumes "pool_step drv hash env s Tick s1" "pool_step drv hash env s1 Tick s2"
    and "Driver_GetNodes drv (Driver (pool s)) = (Inr ns, d1)"
    and "Driver_GetNodes drv d1 = (Inr ns', d2)" "mset ns' = mset ns"
  shows "steady (pool s2) \<and> (waiting s > 0 \<longrightarrow> (\<exists>s3. pool_step drv hash env s2 StartReturns s3))"
proof -
  from assms(1) obtain order now where s1: "ranges order"
    "s1 = s\<lparr>pool := waitingForHashRing_tick drv hash order now (pool s)\<rparr>" by (rule TickE) blast
  from assms(2) obtain order' now' where s2: "ranges order'"
    "s2 = s1\<lparr>pool := waitingForHashRing_tick drv hash order' now' (pool s1)\<rparr>" by (rule TickE) blast
  have p1: "pool s1 = updateHashRing hash order now ns (pool s\<lparr>Driver := d1\<rparr>)"
    using assms(3) by (simp add: s1 waitingForHashRing_tick_def)
  then have d: "Driver (pool s1) = d1" "mset (preNodes (pool s1)) = mset ns"
    using updateHashRing_state(2) [OF s1(1) p1] by (simp_all add: pool_simps)
  have p2: "pool s2 = updateHashRing hash order' now' ns' (pool s1\<lparr>Driver := d2\<rparr>)"
    using assms(4) d(1) by (simp add: s2 waitingForHashRing_tick_def)
  have st: "steady (pool s2)" using updateHashRing_state(1) [OF s2(1) p2] d(2) assms(5) by simp
  moreover have "\<exists>s3. pool_step drv hash env s2 StartReturns s3" if "waiting s > 0"
    by (rule exI, rule pool_step.start_returns) (use that st s1 s2 in \<open>simp_all add: GetState_def\<close>)
  ultimately show ?thesis by blast
qed

theorem equal_listings_make_steady_witness:
  "\<exists>s3. pool_step (demo_driver_ab ''a'') demo_hash (=)
     (demo_sys ''a''\<lparr>pool := demo_tick (demo_tick (pool (demo_sys ''a'')))\<rparr>) StartReturns s3"
proof -
  let ?s = "demo_sys ''a''"
  let ?s1 = "?s\<lparr>pool := demo_tick (pool ?s)\<rparr>"
  have 1: "pool_step (demo_driver_ab ''a'') demo_hash (=) ?s Tick ?s1"
    by (rule demo_tick_step) (simp add: demo_sys_def)
  have "pool_step (demo_driver_ab ''a'') demo_hash (=) ?s1 Tick (?s1\<lparr>pool := demo_tick (pool ?s1)\<rparr>)"
    by (rule demo_tick_step) (simp add: demo_sys_def)
  from equal_listings_make_steady [OF 1 this, of "[''b'', ''a'']" _ "[''b'', ''a'']"] show ?thesis
    by (simp add: demo_driver_ab_def demo_sys_def)
qed

section \<open>Eligibility\<close>

text \<open>
  While the pool is upgrading no key is eligible: the call fails with the upgrading
  error, whatever the key, and no load changes; so does the release of a load.
\<close>

theorem upgrading_pool_refuses:
  assumes "Nodes np = Some c" "\<not> Consistent_IsEmpty c" "state np = Some NodePoolStateUpgrade"
  shows "IsEligible hash key np = Some (Inl ErrNodePoolIsUpgrading, np) \<and>
    DecreaseLoadByKey hash key np =
      Some (if capacityLoad np then Some ErrNodePoolIsUpgrading else None, np)"
  using assms
  by (simp add: IsEligible_def DecreaseLoadByKey_def GetHost_def NodePoolStateSteady_def NodePoolStateUpgrade_def)

theorem upgrading_pool_refuses_witness:
  "IsEligible demo_hash ''k'' ((demo_pool ''a'' [])\<lparr>Nodes := Some demo_ring, state := Some NodePoolStateUpgrade\<rparr>) =
     Some (Inl ErrNodePoolIsUpgrading,
       (demo_pool ''a'' [])\<lparr>Nodes := Some demo_ring, state := Some NodePoolStateUpgrade\<rparr>)"
proof -
  have "\<not> Consistent_IsEmpty demo_ring"
    using ring_wf_empty_iff(1) [OF demo_ring_wf(1)] demo_ring_invar(2) demo_ring_wf(2)
    by (simp add: Consistent_IsEmpty_def)
  then show ?thesis
    using upgrading_pool_refuses [of "(demo_pool ''a'' [])\<lparr>Nodes := Some demo_ring, state := Some NodePoolStateUpgrade\<rparr>" demo_ring]
    by simp
qed

lemma GetHost_steady:
  assumes "pool_inv hash U np" "steady np" "\<not> capacityLoad np" "Nodes np = Some c" "preNodes np \<noteq> []"
  shows "GetHost hash key np = Some (Consistent_Get hash key c, np)"
    and "ring_invar hash (nat (hashReplicas np)) U c" "members c = set (preNodes np)" "\<not> Consistent_IsEmpty c"
proof -
  show inv: "ring_invar hash (nat (hashReplicas np)) U c" "members c = set (preNodes np)"
    using assms by (simp_all add: pool_inv_def pool_ring_ok_def ring_of_def)
  then show "\<not> Consistent_IsEmpty c"
    using assms(5) ring_wf_empty_iff(1) [of hash c] by (simp add: Consistent_IsEmpty_def ring_invar_def)
  with assms show "GetHost hash key np = Some (Consistent_Get hash key c, np)" by (simp add: GetHost_def)
qed

lemma one_owner:
  assumes "\<And>np. np \<in> set nps \<Longrightarrow> pool_inv hash U np \<and> steady np \<and> \<not> capacityLoad np \<and>
      Nodes np \<noteq> None \<and> hashReplicas np = r \<and> set (preNodes np) = N"
    and "nodeID ` set nps = N" "nps \<noteq> []"
  obtains h where "h \<in> N" "\<And>np. np \<in> set nps \<Longrightarrow> IsEligible hash key np = Some (Inr (nodeID np = h), np)"
proof -
  have N: "preNodes np \<noteq> []" if "np \<in> set nps" for np
    using assms(1) [OF that] assms(2,3) that by (metis empty_iff image_eqI list.set(1))
  have host: "\<exists>c. GetHost hash key np = Some (Consistent_Get hash key c, np) \<and>
      ring_invar hash (nat r) U c \<and> members c = N" if "np \<in> set nps" for np
  proof -
    from assms(1) [OF that] obtain c where c: "Nodes np = Some c" by blast
    from GetHost_steady [OF _ _ _ c N [OF that], of hash U] assms(1) [OF that] show ?thesis by blast
  qed
  obtain np0 where np0: "np0 \<in> set nps" using assms(3) by (meson last_in_set)
  from host [OF this] obtain c0 where c0: "ring_invar hash (nat r) U c0" "members c0 = N" by blast
  have ne: "N \<noteq> {}" using assms(2) np0 by auto
  from chr.route_total [OF c0(1), where k = key] c0(2) ne obtain h
    where h: "Consistent_Get hash key c0 = Inr h" "h \<in> N" by auto
  have "GetHost hash key np = Some (Inr h, np)" if "np \<in> set nps" for np
    using host [OF that] chr.route_agree [OF c0(1), where k = key] c0(2) ne h(1) by metis
  then have "IsEligible hash key np = Some (Inr (nodeID np = h), np)" if "np \<in> set nps" for np
    using that assms(1) by (simp add: IsEligible_def)
  with h(2) show thesis by (rule that)
qed

text \<open>
  Mutual exclusion and coverage of the cluster: when the pools of a service are steady on
  the same listing, with the same number of replicas and without capacity loads, then for every
  key exactly one of them answers that the key is its own. So a job runs on exactly one node.
\<close>

theorem exactly_one_node_eligible:
  assumes "\<And>np. np \<in> set nps \<Longrightarrow> pool_inv hash U np \<and> steady np \<and> \<not> capacityLoad np \<and>
      Nodes np \<noteq> None \<and> hashReplicas np = r \<and> set (preNodes np) = N"
    and "distinct (map nodeID nps)" "nodeID ` set nps = N" "nps \<noteq> []"
  shows "\<exists>!np. np \<in> set nps \<and> IsEligible hash key np = Some (Inr True, np)"
proof -
  obtain h where h: "h \<in> N" and elig: "\<And>np. np \<in> set nps \<Longrightarrow> IsEligible hash key np = Some (Inr (nodeID np = h), np)"
    using one_owner [OF assms(1,3,4), where key = key] by blast
  obtain np1 where np1: "np1 \<in> set nps" "nodeID np1 = h" using h assms(3) by auto
  show ?thesis
  proof (rule ex1I [of _ np1])
    show "np1 \<in> set nps \<and> IsEligible hash key np1 = Some (Inr True, np1)" using elig np1 by simp
    fix np assume a: "np \<in> set nps \<and> IsEligible hash key np = Some (Inr True, np)"
    then have "nodeID np = nodeID np1" using elig [of np] np1(2) by auto
    with a np1(1) assms(2) show "np = np1" by (simp add: distinct_map inj_on_def)
  qed
qed

definition demo_steady :: "string \<Rightarrow> string list NodePool" where
  "demo_steady me = demo_tick (demo_tick (demo_pool me []))"

lemma demo_steady_facts:
  "pool_inv demo_hash {''a'', ''b''} (demo_steady me)" "steady (demo_steady me)"
  "\<not> capacityLoad (demo_steady me)" "Nodes (demo_steady me) \<noteq> None"
  "hashReplicas (demo_steady me) = 2" "set (preNodes (demo_steady me)) = {''a'', ''b''}"
  "nodeID (demo_steady me) = me"
proof -
  let ?p = "demo_tick (demo_pool me [])" and ?ns = "[''b'', ''a'']"
  have inv: "pool_inv demo_hash {''a'', ''b''} ?p"
    using updateHashRing_inv(1) [OF demo_pool_inv [of me "[]"] ranges_key_order, of ?ns 7]
    by (simp add: demo_tick_alt)
  show "pool_inv demo_hash {''a'', ''b''} (demo_steady me)"
    using updateHashRing_inv(1) [OF inv ranges_key_order, of ?ns 7]
    by (simp add: demo_steady_def demo_tick_alt)
  have pre: "mset (preNodes ?p) = mset ?ns"
    using updateHashRing_state(2) [OF ranges_key_order refl, of demo_hash 7 ?ns "demo_pool me []"]
    by (simp add: demo_tick_alt)
  then show "steady (demo_steady me)"
    using updateHashRing_state(1) [OF ranges_key_order refl, of demo_hash 7 ?ns ?p]
    by (simp add: demo_steady_def demo_tick_alt)
  have "mset (preNodes (demo_steady me)) = mset ?ns"
    using updateHashRing_state(2) [OF ranges_key_order refl, of demo_hash 7 ?ns ?p]
    by (simp add: demo_steady_def demo_tick_alt)
  from arg_cong [OF this, of set_mset] show "set (preNodes (demo_steady me)) = {''a'', ''b''}" by auto
qed (simp_all add: demo_steady_def demo_tick_alt pool_simps)

theorem exactly_one_node_eligible_witness:
  "\<exists>!np. np \<in> {demo_steady ''a'', demo_steady ''b''} \<and> IsEligible demo_hash ''job'' np = Some (Inr True, np)"
  using exactly_one_node_eligible [of "[demo_steady ''a'', demo_steady ''b'']" demo_hash "{''a'', ''b''}" 2 "{''a'', ''b''}" "''job''"]
    demo_steady_facts [of "''a''"] demo_steady_facts [of "''b''"]
  by auto

section \<open>Where the pool does not keep its promises\<close>

text \<open>
  Before \<^verbatim>\<open>Start\<close> the node id and the answer of the lookup are both the empty string,
  so a pool without capacity loads claims every key.
\<close>

theorem unstarted_pool_claims_every_key:
  "IsEligible hash key (NewNodePool drv name d duration n (map WithHashLoad ls)) =
     Some (Inr True, NewNodePool drv name d duration n (map WithHashLoad ls))"
proof -
  have frame: "capacityLoad (fold (\<lambda>opt np. opt np) (map WithHashLoad ls) np) = capacityLoad np \<and>
      nodeID (fold (\<lambda>opt np. opt np) (map WithHashLoad ls) np) = nodeID np \<and>
      Nodes (fold (\<lambda>opt np. opt np) (map WithHashLoad ls) np) = Nodes np" for np :: "'a NodePool"
    by (induction ls arbitrary: np) (simp_all add: WithHashLoad_def)
  show ?thesis by (simp add: IsEligible_def GetHost_def NewNodePool_def frame)
qed

lemma distinct_singleton: "distinct xs \<Longrightarrow> set xs = {x} \<Longrightarrow> xs = [x]"
  by (metis distinct_card card.empty card_insert_disjoint empty_iff finite.emptyI length_0_conv length_Suc_conv
      list.set_intros(1) singletonD)

lemma diffNodes_repeat:
  assumes "ranges order"
  shows "diffNodes order [] [x, x] = ([x], [])" "diffNodes order [x, x] [x] = ([], [x])"
    "diffNodes order [x] [x] = ([], [])"
proof -
  note d = diffNodes_multisets [OF assms surjective_pairing]
  have "fst (diffNodes order [] [x, x]) = [x]"
    by (rule distinct_singleton) (use d [of "[]" "[x, x]"] in \<open>auto split: if_splits\<close>)
  moreover have "snd (diffNodes order [] [x, x]) = []" using d(4) [of "[]" "[x, x]"] by simp
  ultimately show "diffNodes order [] [x, x] = ([x], [])" by (metis prod.collapse)
  have "snd (diffNodes order [x, x] [x]) = [x]"
    by (rule distinct_singleton) (use d [of "[x, x]" "[x]"] in \<open>auto split: if_splits\<close>)
  moreover have "fst (diffNodes order [x, x] [x]) = []" using d(3) [of "[x, x]" "[x]"] by (auto split: if_splits)
  ultimately show "diffNodes order [x, x] [x] = ([], [x])" by (metis prod.collapse)
  show "diffNodes order [x] [x] = ([], [])" by (rule diffNodes_unchanged [OF assms]) simp
qed

text \<open>
  (C34) A listing that names a node twice, as a Redis scan may, makes the next one that names
  it once remove the node: its count went down. The pool is steady again one listing later,
  with an empty ring, although every listing named the node.
\<close>

theorem repeated_node_empties_ring:
  assumes "pool_inv hash U np" "preNodes np = []" "x \<in> U" "ranges order"
    and "np' = updateHashRing hash order t3 [x] (updateHashRing hash order t2 [x]
                 (updateHashRing hash order t1 [x, x] np))"
  shows "steady np' \<and> preNodes np' = [x] \<and> members (ring_of np') = {} \<and>
    GetHost hash key np' = Some (Inr [], np')"
proof -
  note d = diffNodes_repeat [OF assms(4), of x]
  let ?c = "snd (Consistent_Remove hash x (Consistent_Add hash x (ring_of np)))"
  have np': "np' = np\<lparr>Nodes := Some ?c, preNodes := [x], lastUpdateNodesTime := Some t2,
      state := Some NodePoolStateSteady\<rparr>"
    by (simp add: assms(2,5) updateHashRing_alt d ring_of_def)
  have inv: "ring_invar hash (nat (hashReplicas np)) U (ring_of np)" "members (ring_of np) = {}"
    using assms(1,2) by (simp_all add: pool_inv_def pool_ring_ok_def)
  note add = ring_invar_Add [OF inv(1) assms(3)]
  have c: "ring_wf hash ?c" "members ?c = {}"
    using ring_invar_Remove [OF add(1) assms(3)] add(2) inv(2) by (simp_all add: ring_invar_def)
  then have "Consistent_IsEmpty ?c" using ring_wf_empty_iff(1) [OF c(1)] by (simp add: Consistent_IsEmpty_def)
  with c(2) show ?thesis by (simp add: np' ring_of_def GetHost_def)
qed

theorem repeated_node_empties_ring_witness:
  "members (ring_of (updateHashRing demo_hash key_order 3 [''a''] (updateHashRing demo_hash key_order 2 [''a'']
     (updateHashRing demo_hash key_order 1 [''a'', ''a''] (demo_pool ''a'' []))))) = {}"
  using repeated_node_empties_ring [OF demo_pool_inv [of "''a''" "[]"] _ _ ranges_key_order refl, of "''a''" 3 2 1]
  by simp



end
