(* ===== verification/GoStrings.thy ===== *)
theory GoStrings
  imports Prelude
begin

text \<open>
  What the program uses of Go's packages strings and strconv, on byte strings:
  \<^verbatim>\<open>HasPrefix\<close>, \<^verbatim>\<open>HasSuffix\<close>, \<^verbatim>\<open>Index\<close>, \<^verbatim>\<open>Split\<close> and \<^verbatim>\<open>FieldsFunc\<close> at a one-byte
  separator, \<^verbatim>\<open>Fields\<close> and \<^verbatim>\<open>TrimSpace\<close> on Unicode white space, \<^verbatim>\<open>ToLower\<close> up to its
  ASCII part, slicing with its bounds check, and \<^verbatim>\<open>Atoi\<close>.
\<close>

section \<open>Prefixes, positions, slices\<close>

definition HasPrefix :: "string \<Rightarrow> string \<Rightarrow> bool" where
  "HasPrefix s p \<longleftrightarrow> take (length p) s = p"

definition HasSuffix :: "string \<Rightarrow> string \<Rightarrow> bool" where
  "HasSuffix s p \<longleftrightarrow> length p \<le> length s \<and> drop (length s - length p) s = p"

definition strings_Index :: "string \<Rightarrow> char \<Rightarrow> int" where
  "strings_Index s c =
     (let n = length (takeWhile (\<lambda>x. x \<noteq> c) s) in if n < length s then int n else -1)"

definition go_slice :: "string \<Rightarrow> int \<Rightarrow> int \<Rightarrow> go_panic + string" where
  "go_slice s a b =
     (if 0 \<le> a \<and> a \<le> b \<and> b \<le> int (length s)
      then Inr (take (nat (b - a)) (drop (nat a) s))
      else Inl SliceBoundsOutOfRange)"

section \<open>Splitting\<close>

fun strings_Split :: "char \<Rightarrow> string \<Rightarrow> string list" where
  "strings_Split sep [] = [[]]"
| "strings_Split sep (c # cs) =
     (if c = sep then [] # strings_Split sep cs
      else case strings_Split sep cs of [] \<Rightarrow> [[c]] | w # ws \<Rightarrow> (c # w) # ws)"

definition FieldsFunc :: "char \<Rightarrow> string \<Rightarrow> string list" where
  "FieldsFunc sep s = filter (\<lambda>w. w \<noteq> []) (strings_Split sep s)"

text \<open>
  The encodings of the white space of \<^verbatim>\<open>unicode.IsSpace\<close>. UTF-8 is self-synchronising: no
  encoding occurs inside that of another character, so looking for one at every byte finds
  exactly the white space runes, in invalid strings too.
\<close>

definition space_seqs :: "string list" where
  "space_seqs =
     [[CHR 0x09], [CHR 0x0A], [CHR 0x0B], [CHR 0x0C], [CHR 0x0D], [CHR 0x20],
      [CHR 0xC2, CHR 0x85], [CHR 0xC2, CHR 0xA0], [CHR 0xE1, CHR 0x9A, CHR 0x80],
      [CHR 0xE2, CHR 0x80, CHR 0x80], [CHR 0xE2, CHR 0x80, CHR 0x81], [CHR 0xE2, CHR 0x80, CHR 0x82],
      [CHR 0xE2, CHR 0x80, CHR 0x83], [CHR 0xE2, CHR 0x80, CHR 0x84], [CHR 0xE2, CHR 0x80, CHR 0x85],
      [CHR 0xE2, CHR 0x80, CHR 0x86], [CHR 0xE2, CHR 0x80, CHR 0x87], [CHR 0xE2, CHR 0x80, CHR 0x88],
      [CHR 0xE2, CHR 0x80, CHR 0x89], [CHR 0xE2, CHR 0x80, CHR 0x8A], [CHR 0xE2, CHR 0x80, CHR 0xA8],
      [CHR 0xE2, CHR 0x80, CHR 0xA9], [CHR 0xE2, CHR 0x80, CHR 0xAF], [CHR 0xE2, CHR 0x81, CHR 0x9F],
      [CHR 0xE3, CHR 0x80, CHR 0x80]]"

definition space_width :: "string \<Rightarrow> nat" where
  "space_width s = (case find (HasPrefix s) space_seqs of None \<Rightarrow> 0 | Some w \<Rightarrow> length w)"

definition space_width_end :: "string \<Rightarrow> nat" where
  "space_width_end s = (case find (HasSuffix s) space_seqs of None \<Rightarrow> 0 | Some w \<Rightarrow> length w)"

lemma space_width_le: "space_width s \<le> length s"
proof (cases "find (HasPrefix s) space_seqs")
  case (Some w)
  then have "take (length w) s = w" by (auto simp: find_Some_iff HasPrefix_def)
  then have "length w \<le> length s" by (metis length_take min.bounded_iff order_refl)
  with Some show ?thesis by (simp add: space_width_def)
qed (simp add: space_width_def)

lemma space_width_end_le: "space_width_end s \<le> length s"
  by (auto simp: space_width_end_def HasSuffix_def find_Some_iff split: option.splits)

function TrimLeft_space :: "string \<Rightarrow> string" where
  "TrimLeft_space s =
     (if space_width s = 0 then s else TrimLeft_space (drop (space_width s) s))"
  by pat_completeness auto
termination
proof (relation "measure length")
  fix s assume "space_width s \<noteq> 0"
  then show "(drop (space_width s) s, s) \<in> measure length"
    using space_width_le [of s] by (cases s) auto
qed simp

function TrimRight_space :: "string \<Rightarrow> string" where
  "TrimRight_space s =
     (if space_width_end s = 0 then s
      else TrimRight_space (take (length s - space_width_end s) s))"
  by pat_completeness auto
termination
proof (relation "measure length")
  fix s assume "space_width_end s \<noteq> 0"
  then show "(take (length s - space_width_end s) s, s) \<in> measure length"
    using space_width_end_le [of s] by auto
qed simp

definition TrimSpace :: "string \<Rightarrow> string" where
  "TrimSpace s = TrimRight_space (TrimLeft_space s)"

text \<open>\<^verbatim>\<open>Fields\<close>, with the word read so far as an accumulator.\<close>

definition emit :: "string \<Rightarrow> string list" where
  "emit w = (if w = [] then [] else [w])"

function Fields_from :: "string \<Rightarrow> string \<Rightarrow> string list" where
  "Fields_from w [] = emit w"
| "Fields_from w (c # cs) =
     (if space_width (c # cs) = 0 then Fields_from (w @ [c]) cs
      else emit w @ Fields_from [] (drop (space_width (c # cs)) (c # cs)))"
  by pat_completeness auto
termination
  by (relation "measure (\<lambda>(w, s). length s)") auto

definition Fields :: "string \<Rightarrow> string list" where
  "Fields s = Fields_from [] s"

declare TrimLeft_space.simps [simp del] TrimRight_space.simps [simp del]

section \<open>\<^verbatim>\<open>ToLower\<close>\<close>

text \<open>
  The ASCII letters, and the two characters beyond ASCII whose lower case is ASCII: the dotted
  capital I and the Kelvin sign. Every other byte is kept, so the result has the ASCII
  characters of the real one at their places, which is all a comparison with an ASCII name sees.
\<close>

definition lower :: "char \<Rightarrow> char" where
  "lower c = (if 65 \<le> (of_char c :: nat) \<and> of_char c \<le> (90 :: nat) then char_of (of_char c + 32 :: nat) else c)"

fun ToLower :: "string \<Rightarrow> string" where
  "ToLower [] = []"
| "ToLower [c] = [lower c]"
| "ToLower (c # d # cs) =
     (if c = CHR 0xC4 \<and> d = CHR 0xB0 then CHR ''i'' # ToLower cs
      else if c = CHR 0xE2 \<and> d = CHR 0x84 \<and> take 1 cs = [CHR 0xAA] then CHR ''k'' # ToLower (tl cs)
      else lower c # ToLower (d # cs))"

section \<open>\<^verbatim>\<open>Atoi\<close>\<close>

datatype num_error = ErrSyntax | ErrRange

definition is_digit :: "char \<Rightarrow> bool" where
  "is_digit c \<longleftrightarrow> 48 \<le> (of_char c :: nat) \<and> of_char c \<le> (57 :: nat)"

definition Atoi :: "string \<Rightarrow> num_error + int" where
  "Atoi s =
     (let neg = (take 1 s = ''-'');
          ds = (if take 1 s = ''-'' \<or> take 1 s = ''+'' then drop 1 s else s)
      in if ds = [] \<or> \<not> list_all is_digit ds then Inl ErrSyntax
         else
           let n = int (decimal_value ds); n = (if neg then - n else n)
           in if n < - (2 ^ 63) \<or> 2 ^ 63 \<le> n then Inl ErrRange else Inr n)"

section \<open>Lemmas\<close>

lemma HasPrefix_append [simp]: "HasPrefix (p @ s) p"
  by (simp add: HasPrefix_def)

lemma strings_Split_nonempty [simp]: "strings_Split sep s \<noteq> []"
  by (cases s) (auto split: list.splits)

lemma strings_Split_none [simp]: "sep \<notin> set s \<Longrightarrow> strings_Split sep s = [s]"
  by (induction s) auto

lemma strings_Split_append:
  "sep \<notin> set s \<Longrightarrow> strings_Split sep (s @ sep # t) = s # strings_Split sep t"
  by (induction s) auto

text \<open>Splitting undoes joining.\<close>

fun joined :: "char \<Rightarrow> string list \<Rightarrow> string" where
  "joined sep [] = []"
| "joined sep [w] = w"
| "joined sep (w # v # ws) = w @ sep # joined sep (v # ws)"

lemma strings_Split_joined:
  assumes "ws \<noteq> []" "\<And>w. w \<in> set ws \<Longrightarrow> sep \<notin> set w"
  shows "strings_Split sep (joined sep ws) = ws"
  using assms by (induction sep ws rule: joined.induct) (simp_all add: strings_Split_append)

lemma FieldsFunc_joined:
  assumes "\<And>w. w \<in> set ws \<Longrightarrow> sep \<notin> set w \<and> w \<noteq> []"
  shows "FieldsFunc sep (joined sep ws) = ws"
proof (cases "ws = []")
  case False
  with assms have "strings_Split sep (joined sep ws) = ws" by (intro strings_Split_joined) auto
  with assms show ?thesis by (simp add: FieldsFunc_def)
qed (simp add: FieldsFunc_def)

lemma strings_Split_FieldsFunc_sub: "w \<in> set (FieldsFunc sep s) \<Longrightarrow> w \<noteq> []"
  by (simp add: FieldsFunc_def)

text \<open>Graphic ASCII characters are no white space.\<close>

definition graphic :: "char \<Rightarrow> bool" where
  "graphic c \<longleftrightarrow> 33 \<le> (of_char c :: nat) \<and> of_char c < (127 :: nat)"

lemma space_seqs_heads: "w \<in> set space_seqs \<Longrightarrow> w \<noteq> [] \<and> \<not> graphic (hd w)"
proof -
  have "list_all (\<lambda>w. w \<noteq> [] \<and> \<not> graphic (hd w)) space_seqs"
    by (simp add: space_seqs_def graphic_def)
  then show "w \<in> set space_seqs \<Longrightarrow> w \<noteq> [] \<and> \<not> graphic (hd w)" by (simp add: list_all_iff)
qed

lemma space_width_graphic [simp]: "graphic c \<Longrightarrow> space_width (c # cs) = 0"
proof -
  assume c: "graphic c"
  have "\<not> HasPrefix (c # cs) w" if "w \<in> set space_seqs" for w
    using space_seqs_heads [OF that] c by (cases w) (auto simp: HasPrefix_def)
  then have "find (HasPrefix (c # cs)) space_seqs = None" by (auto simp: find_None_iff)
  then show ?thesis by (simp add: space_width_def)
qed

lemma space_width_space [simp]: "space_width (CHR '' '' # cs) = 1"
  by (simp add: space_width_def space_seqs_def HasPrefix_def)

lemma Fields_from_graphic:
  "list_all graphic s \<Longrightarrow> Fields_from w (s @ t) = Fields_from (w @ s) t"
  by (induction s arbitrary: w) simp_all

lemma Fields_joined:
  assumes "\<And>w. w \<in> set ws \<Longrightarrow> w \<noteq> [] \<and> list_all graphic w"
  shows "Fields (joined CHR '' '' ws) = ws"
  using assms
proof (induction "CHR '' ''" ws rule: joined.induct)
  case 1
  show ?case by (simp add: Fields_def emit_def)
next
  case (2 w)
  then show ?case using Fields_from_graphic [of w "[]" "[]"] by (simp add: Fields_def emit_def)
next
  case (3 w v ws)
  have "Fields_from [] (w @ CHR '' '' # joined CHR '' '' (v # ws)) =
      w # Fields (joined CHR '' '' (v # ws))"
    using "3.prems" by (simp add: Fields_from_graphic emit_def Fields_def)
  moreover have "Fields (joined CHR '' '' (v # ws)) = v # ws" using "3.prems" by (intro "3.hyps") auto
  ultimately show ?case by (simp add: Fields_def)
qed

lemma digit_char_facts [simp]:
  "d < 10 \<Longrightarrow> is_digit (digit_char d)" "d < 10 \<Longrightarrow> graphic (digit_char d)"
  by (simp_all add: is_digit_def graphic_def of_char_digit)

lemma itoa_digits: "list_all is_digit (itoa n)"
  by (induction n rule: itoa.induct) (subst itoa.simps, simp)

lemma itoa_graphic: "list_all graphic (itoa n)"
  by (induction n rule: itoa.induct) (subst itoa.simps, simp)

lemma itoa_nonempty [simp]: "itoa n \<noteq> []"
  by (subst itoa.simps) simp

lemma itoa_no_char: "\<not> is_digit c \<Longrightarrow> c \<notin> set (itoa n)"
  using itoa_digits [of n] by (auto simp: list_all_iff)

lemma not_digit [simp]:
  "\<not> is_digit CHR ''-''" "\<not> is_digit CHR ''+''" "\<not> is_digit CHR ''/''" "\<not> is_digit CHR '',''"
  "\<not> is_digit CHR ''*''" "\<not> is_digit CHR ''?''" "\<not> is_digit CHR '' ''"
  by (simp_all add: is_digit_def)

lemma graphic_chars [simp]:
  "graphic CHR ''-''" "graphic CHR ''/''" "graphic CHR '',''" "graphic CHR ''*''" "graphic CHR ''?''"
  by (simp_all add: graphic_def)

lemma Atoi_itoa: "int n < 2 ^ 63 \<Longrightarrow> Atoi (itoa n) = Inr (int n)"
proof -
  assume n: "int n < 2 ^ 63"
  have "hd (itoa n) \<in> set (itoa n)" by simp
  then have d: "is_digit (hd (itoa n))" using itoa_digits [of n] by (simp add: list_all_iff)
  have "take 1 (itoa n) = [hd (itoa n)]" by (cases "itoa n") auto
  with d have "take 1 (itoa n) \<noteq> ''-''" "take 1 (itoa n) \<noteq> ''+''" by auto
  with n show ?thesis
    by (simp add: Atoi_def itoa_digits decimal_value_itoa del: decimal_value.simps)
qed

lemma Atoi_range: "Atoi s = Inr n \<Longrightarrow> - (2 ^ 63) \<le> n \<and> n < 2 ^ 63"
  by (auto simp: Atoi_def Let_def split: if_splits)

end
