(* ===== verification/GoDuration.thy ===== *)
theory GoDuration
  imports GoStrings
begin

text \<open>
  \<^verbatim>\<open>time.Duration\<close> and \<^verbatim>\<open>time.ParseDuration\<close> of Go's package time. A duration is a count
  of nanoseconds, read as a signed 64-bit number.
\<close>

type_synonym duration = int

definition Nanosecond :: duration where "Nanosecond = 1"
definition Second_d :: duration where "Second_d = 1000000000"
definition Minute_d :: duration where "Minute_d = 60 * Second_d"
definition Hour_d :: duration where "Hour_d = 60 * Minute_d"

section \<open>Rounding to \<^verbatim>\<open>float64\<close>\<close>

text \<open>
  The nearest number with a 53-bit significand, ties to even, of a positive rational far
  from the ends of the exponent range.
\<close>

definition round_half_even :: "rat \<Rightarrow> int" where
  "round_half_even x =
     (let q = \<lfloor>x\<rfloor>; r = x - of_int q in
      if r < 1 / 2 then q else if 1 / 2 < r then q + 1 else if even q then q else q + 1)"

definition pow2 :: "int \<Rightarrow> rat" where
  "pow2 e = (if 0 \<le> e then 2 ^ nat e else 1 / 2 ^ nat (- e))"

definition f64_rat :: "rat \<Rightarrow> rat" where
  "f64_rat x =
     (if x \<le> 0 then 0
      else
        let (n, d) = quotient_of x;
            e = int (bit_length (nat n)) - int (bit_length (nat d)) - 53;
            e = (if x / pow2 e < 2 ^ 53 then e else e + 1)
        in of_int (round_half_even (x / pow2 e)) * pow2 e)"

section \<open>\<^verbatim>\<open>ParseDuration\<close>\<close>

datatype duration_error = InvalidDuration | MissingUnit | UnknownUnit string

text \<open>
  \<^verbatim>\<open>leadingInt\<close>: the value of the leading digits, or an error when it exceeds \<open>2 ^ 63\<close>.
\<close>

fun leadingInt :: "nat \<Rightarrow> string \<Rightarrow> (nat \<times> string) option" where
  "leadingInt x [] = Some (x, [])"
| "leadingInt x (c # cs) =
     (if \<not> is_digit c then Some (x, c # cs)
      else if x > 2 ^ 63 div 10 then None
      else
        let x = x * 10 + (of_char c - 48) in
        if x > 2 ^ 63 then None else leadingInt x cs)"

text \<open>
  \<^verbatim>\<open>leadingFraction\<close>: the digits after the point and their scale; digits past the
  precision of 63 bits are skipped.
\<close>

fun leadingFraction :: "nat \<Rightarrow> nat \<Rightarrow> bool \<Rightarrow> string \<Rightarrow> nat \<times> nat \<times> string" where
  "leadingFraction x scale overflow [] = (x, scale, [])"
| "leadingFraction x scale overflow (c # cs) =
     (if \<not> is_digit c then (x, scale, c # cs)
      else if overflow then leadingFraction x scale overflow cs
      else if x > (2 ^ 63 - 1) div 10 then leadingFraction x scale True cs
      else
        let y = x * 10 + (of_char c - 48) in
        if y > 2 ^ 63 then leadingFraction x scale True cs
        else leadingFraction y (scale * 10) overflow cs)"

definition unitMap :: "string \<Rightarrow> nat option" where
  "unitMap u =
     (if u = ''ns'' then Some 1
      else if u = ''us'' \<or> u = [CHR 0xC2, CHR 0xB5, CHR ''s''] \<or> u = [CHR 0xCE, CHR 0xBC, CHR ''s'']
        then Some (10 ^ 3)
      else if u = ''ms'' then Some (10 ^ 6)
      else if u = ''s'' then Some (10 ^ 9)
      else if u = ''m'' then Some (60 * 10 ^ 9)
      else if u = ''h'' then Some (3600 * 10 ^ 9)
      else None)"

definition unit_char :: "char \<Rightarrow> bool" where
  "unit_char c \<longleftrightarrow> c \<noteq> CHR ''.'' \<and> \<not> is_digit c"

text \<open>One turn of the loop: a number with its unit, and what remains of the string.\<close>

definition duration_term :: "string \<Rightarrow> duration_error + nat \<times> string" where
  "duration_term s =
     (if unit_char (hd s) then Inl InvalidDuration
      else case leadingInt 0 s of
        None \<Rightarrow> Inl InvalidDuration
      | Some (v, s1) \<Rightarrow>
          let pre = (length s1 \<noteq> length s);
              (f, scale, s2) =
                (if take 1 s1 = ''.'' then leadingFraction 0 1 False (drop 1 s1) else (0, 1, s1));
              post = (take 1 s1 = ''.'' \<and> length s2 \<noteq> length (drop 1 s1))
          in if \<not> pre \<and> \<not> post then Inl InvalidDuration
             else
               let u = takeWhile unit_char s2; s3 = dropWhile unit_char s2 in
               if u = [] then Inl MissingUnit
               else case unitMap u of
                 None \<Rightarrow> Inl (UnknownUnit u)
               | Some unit \<Rightarrow>
                   if v > 2 ^ 63 div unit then Inl InvalidDuration
                   else
                     let v = v * unit;
                         v' = (if f > 0
                               then v + nat \<lfloor>f64_rat (f64_rat (of_nat f) * f64_rat (of_nat unit / of_nat scale))\<rfloor>
                               else v)
                     in if f > 0 \<and> v' > 2 ^ 63 then Inl InvalidDuration else Inr (v', s3))"

lemma leadingInt_rest: "leadingInt x s = Some (v, s') \<Longrightarrow> length s' \<le> length s"
  by (induction x s rule: leadingInt.induct) (auto simp: Let_def split: if_splits)

lemma leadingFraction_rest: "leadingFraction x sc ov s = (f, sc', s') \<Longrightarrow> length s' \<le> length s"
  by (induction s arbitrary: x sc ov) (force simp: Let_def split: if_splits)+

lemma takeWhile_dropWhile_shorter: "takeWhile P s \<noteq> [] \<Longrightarrow> length (dropWhile P s) < length s"
  by (cases s) (auto simp: length_dropWhile_le le_imp_less_Suc split: if_splits)

lemma duration_term_rest:
  assumes "duration_term s = Inr (v, s')"
  shows "length s' < length s"
proof -
  obtain v0 s1 where l: "leadingInt 0 s = Some (v0, s1)"
    using assms by (auto simp: duration_term_def split: if_splits option.splits)
  define s2 where "s2 = (if take 1 s1 = ''.'' then snd (snd (leadingFraction 0 1 False (drop 1 s1))) else s1)"
  have "length s2 \<le> length s1"
    using leadingFraction_rest [of 0 1 False "drop 1 s1"]
    by (cases "leadingFraction 0 1 False (drop 1 s1)") (auto simp: s2_def)
  moreover have "takeWhile unit_char s2 \<noteq> [] \<and> s' = dropWhile unit_char s2"
    using assms l
    by (auto simp: duration_term_def s2_def Let_def split: if_splits option.splits prod.splits)
  ultimately show ?thesis
    using takeWhile_dropWhile_shorter [of unit_char s2] leadingInt_rest [OF l] by simp
qed

function ParseDuration_loop :: "nat \<Rightarrow> string \<Rightarrow> duration_error + nat" where
  "ParseDuration_loop d s =
     (if s = [] then Inr d
      else case duration_term s of
        Inl e \<Rightarrow> Inl e
      | Inr (v, s') \<Rightarrow>
          let d = (d + v) mod 2 ^ 64 in
          if d > 2 ^ 63 then Inl InvalidDuration else ParseDuration_loop d s')"
  by pat_completeness auto
termination
  by (relation "measure (\<lambda>(d, s). length s)") (auto simp: duration_term_rest)

declare ParseDuration_loop.simps [simp del]

definition ParseDuration :: "string \<Rightarrow> duration_error + duration" where
  "ParseDuration s =
     (let neg = (take 1 s = ''-'');
          s = (if take 1 s = ''-'' \<or> take 1 s = ''+'' then drop 1 s else s)
      in if s = ''0'' then Inr 0
         else if s = [] then Inl InvalidDuration
         else case ParseDuration_loop 0 s of
           Inl e \<Rightarrow> Inl e
         | Inr d \<Rightarrow>
             if neg then Inr (- int d)
             else if d > 2 ^ 63 - 1 then Inl InvalidDuration
             else Inr (int d))"

section \<open>Lemmas\<close>

text \<open>Whole numbers of a unit are read exactly.\<close>

lemma digits_value_mono: "foldl (\<lambda>a c. 10 * a + (of_char c - 48 :: nat)) x ds \<ge> x"
proof (induction ds arbitrary: x)
  case (Cons c ds)
  have "x \<le> 10 * x + (of_char c - 48)" by simp
  also have "\<dots> \<le> foldl (\<lambda>a c. 10 * a + (of_char c - 48)) (10 * x + (of_char c - 48)) ds" by (rule Cons)
  finally show ?case by simp
qed simp

lemma leadingInt_digits:
  assumes "list_all is_digit ds" "rest = [] \<or> \<not> is_digit (hd rest)"
    and "foldl (\<lambda>a c. 10 * a + (of_char c - 48)) x ds \<le> 2 ^ 63"
  shows "leadingInt x (ds @ rest) = Some (foldl (\<lambda>a c. 10 * a + (of_char c - 48)) x ds, rest)"
  using assms
proof (induction ds arbitrary: x)
  case Nil
  then show ?case by (cases rest) auto
next
  case (Cons c ds)
  let ?y = "10 * x + (of_char c - 48 :: nat)"
  have y: "?y \<le> 2 ^ 63" using Cons.prems(3) digits_value_mono [of ?y ds] by simp
  then have "\<not> x > 2 ^ 63 div 10" by auto
  with y Cons show ?case by (simp add: mult.commute)
qed

lemma leadingInt_itoa:
  assumes "n \<le> 2 ^ 63" "rest = [] \<or> \<not> is_digit (hd rest)"
  shows "leadingInt 0 (itoa n @ rest) = Some (n, rest)"
  using leadingInt_digits [OF itoa_digits assms(2), of 0] assms(1) decimal_value_itoa [of n] by simp

lemma ParseDuration_whole:
  assumes u: "unitMap u = Some unit" "list_all unit_char u" and n: "n \<le> (2 ^ 63 - 1) div unit" "0 < unit"
  shows "ParseDuration (itoa n @ u) = Inr (int (n * unit))"
proof -
  have ne: "u \<noteq> []" using u(1) by (auto simp: unitMap_def)
  have hd_u: "unit_char (hd u)" using u(2) ne by (cases u) auto
  have le: "n * unit \<le> 2 ^ 63 - 1" using n by (simp add: less_eq_div_iff_mult_less_eq)
  then have "n \<le> 2 ^ 63 - 1" using n(2) by (metis Nat.add_0_right le_trans le_add1 mult_Suc_right gr0_conv_Suc)
  then have n63: "n \<le> 2 ^ 63" by simp
  have hd_s: "is_digit (hd (itoa n @ u))" using itoa_digits [of n] by (cases "itoa n") auto
  then have first: "take 1 (itoa n @ u) \<noteq> ''-''" "take 1 (itoa n @ u) \<noteq> ''+''"
    by (cases "itoa n @ u"; auto)+
  have tu: "takeWhile unit_char u = u" "dropWhile unit_char u = []"
    using u(2) by (simp_all add: list_all_iff takeWhile_eq_all_conv dropWhile_eq_Nil_conv)
  have "take 1 u \<noteq> ''.''" using hd_u ne by (cases u) (auto simp: unit_char_def)
  moreover have "leadingInt 0 (itoa n @ u) = Some (n, u)"
    using hd_u by (intro leadingInt_itoa n63) (simp add: unit_char_def)
  moreover have "n \<le> 2 ^ 63 div unit"
    using n(1) div_le_mono [of "2 ^ 63 - 1" "2 ^ 63" unit] by simp
  ultimately have "duration_term (itoa n @ u) = Inr (n * unit, [])"
    using hd_s ne u(1) by (simp add: duration_term_def unit_char_def [of "hd _"] Let_def tu)
  with le have "ParseDuration_loop 0 (itoa n @ u) = Inr (n * unit)"
    by (simp add: ParseDuration_loop.simps [of 0 "itoa n @ u"] ParseDuration_loop.simps [of _ "[]"])
  moreover have "itoa n @ u \<noteq> ''0''" using ne by (cases "itoa n"; cases u) auto
  ultimately show ?thesis using first le by (simp add: ParseDuration_def Let_def)
qed

end
