(* ===== verification/Schedule.thy ===== *)
theory Schedule
  imports GoDuration
begin

text \<open>
  The schedules of package cron: the bit sets of \<^verbatim>\<open>cron/spec.go\<close> with the bounds of the six
  fields, and the fixed delay of \<^verbatim>\<open>cron/constantdelay.go\<close>.
\<close>

unbundle bit_operations_syntax

section \<open>Locations and schedules\<close>

text \<open>
  A \<^verbatim>\<open>*time.Location\<close>: the two distinguished pointers of package time, or a zone of the
  time zone database, whose type is a parameter.
\<close>

datatype 'z location = Local | UTC | Zone 'z

record 'z SpecSchedule =
  Second :: uint64
  Minute :: uint64
  Hour :: uint64
  Dom :: uint64
  Month :: uint64
  Dow :: uint64
  Location :: "'z location"

record ConstantDelaySchedule =
  Delay :: duration

text \<open>The values of the interface type \<^verbatim>\<open>Schedule\<close> that the package itself creates.\<close>

datatype 'z schedule = Spec "'z SpecSchedule" | ConstantDelay ConstantDelaySchedule

section \<open>Field bounds\<close>

text \<open>\<^verbatim>\<open>names\<close> is a map or nil.\<close>

record bounds =
  bmin :: uint64
  bmax :: uint64
  names :: "(string \<times> uint64) list option"

definition seconds :: bounds where
  "seconds = \<lparr>bmin = 0, bmax = 59, names = None\<rparr>"

definition minutes :: bounds where
  "minutes = \<lparr>bmin = 0, bmax = 59, names = None\<rparr>"

definition hours :: bounds where
  "hours = \<lparr>bmin = 0, bmax = 23, names = None\<rparr>"

definition dom_bounds :: bounds where
  "dom_bounds = \<lparr>bmin = 1, bmax = 31, names = None\<rparr>"

definition months :: bounds where
  "months = \<lparr>bmin = 1, bmax = 12, names = Some
     [(''jan'', 1), (''feb'', 2), (''mar'', 3), (''apr'', 4), (''may'', 5), (''jun'', 6),
      (''jul'', 7), (''aug'', 8), (''sep'', 9), (''oct'', 10), (''nov'', 11), (''dec'', 12)]\<rparr>"

definition dow :: bounds where
  "dow = \<lparr>bmin = 0, bmax = 6, names = Some
     [(''sun'', 0), (''mon'', 1), (''tue'', 2), (''wed'', 3), (''thu'', 4), (''fri'', 5), (''sat'', 6)]\<rparr>"

definition starBit :: uint64 where
  "starBit = push_bit 63 1"

section \<open>Fixed delays\<close>

text \<open>\<^verbatim>\<open>%\<close> on integers truncates towards zero.\<close>

definition Every :: "duration \<Rightarrow> ConstantDelaySchedule" where
  "Every duration =
     (let duration = (if duration < Second_d then Second_d else duration)
      in \<lparr>Delay = duration - duration smod Second_d\<rparr>)"

lemma Every_Delay:
  "Delay (Every d) = (if d < Second_d then Second_d else Second_d * (d div Second_d))"
proof -
  have "e smod Second_d = e mod Second_d" if "0 < e" for e
    using that by (simp add: signed_modulo_int_def Second_d_def)
  then show ?thesis by (simp add: Every_def Let_def Second_d_def minus_mod_eq_mult_div)
qed

end
