(* ===== verification/GoTime.thy ===== *)
theory GoTime
  imports Schedule
begin

text \<open>
  What the program uses of Go's package time: instants with a location, the Gregorian calendar
  in which their fields are read, \<^verbatim>\<open>Date\<close>, \<^verbatim>\<open>Add\<close>, \<^verbatim>\<open>AddDate\<close>, \<^verbatim>\<open>In\<close>, \<^verbatim>\<open>Before\<close>
  and \<^verbatim>\<open>Truncate\<close>. The rules of the time zones are data from outside the program and are a
  parameter: \<open>lookup\<close> gives, for a location and a count of seconds, the offset in force and
  the interval in which it is in force.
\<close>

section \<open>Instants\<close>

text \<open>
  An instant counts nanoseconds from the zero time, January 1 of the year 1, 00:00 UTC.
\<close>

record 'z Time =
  nanos :: int
  tloc :: "'z location"

type_synonym 'z lookup = "'z location \<Rightarrow> int \<Rightarrow> int \<times> int \<times> int"

definition zero_Time :: "'z Time" where
  "zero_Time = \<lparr>nanos = 0, tloc = UTC\<rparr>"

definition offset :: "'z lookup \<Rightarrow> 'z location \<Rightarrow> int \<Rightarrow> int" where
  "offset lookup loc sec = (case loc of UTC \<Rightarrow> 0 | _ \<Rightarrow> fst (lookup loc sec))"

definition unix_sec :: "'z Time \<Rightarrow> int" where
  "unix_sec t = nanos t div Second_d"

text \<open>Seconds on the wall clock of the location, from the same origin.\<close>

definition wall :: "'z lookup \<Rightarrow> 'z Time \<Rightarrow> int" where
  "wall lookup t = unix_sec t + offset lookup (tloc t) (unix_sec t)"

section \<open>The calendar\<close>

definition is_leap :: "int \<Rightarrow> bool" where
  "is_leap y \<longleftrightarrow> y mod 4 = 0 \<and> (y mod 100 \<noteq> 0 \<or> y mod 400 = 0)"

text \<open>Days from the origin to January 1 of a year.\<close>

definition days_before_year :: "int \<Rightarrow> int" where
  "days_before_year y = 365 * (y - 1) + (y - 1) div 4 - (y - 1) div 100 + (y - 1) div 400"

text \<open>Days of a year before the first of a month, for months 1 to 13.\<close>

definition days_before_month :: "bool \<Rightarrow> int \<Rightarrow> int" where
  "days_before_month leap m =
     (if m \<le> 1 then 0
      else [31, 59, 90, 120, 151, 181, 212, 243, 273, 304, 334, 365] ! nat (m - 2)
           + (if leap \<and> m > 2 then 1 else 0))"

text \<open>The year of a day, by cycles of 400, 100, 4 and 1 years, and the day within it.\<close>

definition year_of_days :: "int \<Rightarrow> int" where
  "year_of_days d =
     (let n400 = d div 146097; d = d mod 146097;
          n100 = min 3 (d div 36524); d = d - 36524 * n100;
          n4 = d div 1461; d = d mod 1461;
          n1 = min 3 (d div 365)
      in 400 * n400 + 100 * n100 + 4 * n4 + n1 + 1)"

definition yday_of_days :: "int \<Rightarrow> int" where
  "yday_of_days d = d - days_before_year (year_of_days d)"

definition month_of_yday :: "bool \<Rightarrow> int \<Rightarrow> int" where
  "month_of_yday leap yd =
     1 + int (length (filter (\<lambda>m. days_before_month leap m \<le> yd) [2, 3, 4, 5, 6, 7, 8, 9, 10, 11, 12]))"

definition year_of :: "int \<Rightarrow> int" where
  "year_of w = year_of_days (w div 86400)"

definition month_of :: "int \<Rightarrow> int" where
  "month_of w = (let d = w div 86400 in month_of_yday (is_leap (year_of_days d)) (yday_of_days d))"

definition day_of :: "int \<Rightarrow> int" where
  "day_of w =
     (let d = w div 86400; leap = is_leap (year_of_days d)
      in yday_of_days d - days_before_month leap (month_of_yday leap (yday_of_days d)) + 1)"

text \<open>January 1 of the year 1 was a Monday.\<close>

definition weekday_of :: "int \<Rightarrow> int" where
  "weekday_of w = (w div 86400 + 1) mod 7"

definition hour_of :: "int \<Rightarrow> int" where
  "hour_of w = w mod 86400 div 3600"

definition minute_of :: "int \<Rightarrow> int" where
  "minute_of w = w mod 3600 div 60"

definition second_of :: "int \<Rightarrow> int" where
  "second_of w = w mod 60"

section \<open>Operations\<close>

definition Year :: "'z lookup \<Rightarrow> 'z Time \<Rightarrow> int" where
  "Year lookup t = year_of (wall lookup t)"

definition Month_t :: "'z lookup \<Rightarrow> 'z Time \<Rightarrow> int" where
  "Month_t lookup t = month_of (wall lookup t)"

definition Day :: "'z lookup \<Rightarrow> 'z Time \<Rightarrow> int" where
  "Day lookup t = day_of (wall lookup t)"

definition Weekday :: "'z lookup \<Rightarrow> 'z Time \<Rightarrow> int" where
  "Weekday lookup t = weekday_of (wall lookup t)"

definition Hour_t :: "'z lookup \<Rightarrow> 'z Time \<Rightarrow> int" where
  "Hour_t lookup t = hour_of (wall lookup t)"

definition Minute_t :: "'z lookup \<Rightarrow> 'z Time \<Rightarrow> int" where
  "Minute_t lookup t = minute_of (wall lookup t)"

definition Second_t :: "'z lookup \<Rightarrow> 'z Time \<Rightarrow> int" where
  "Second_t lookup t = second_of (wall lookup t)"

definition Nanosecond_t :: "'z Time \<Rightarrow> int" where
  "Nanosecond_t t = nanos t mod Second_d"

definition Time_Add :: "duration \<Rightarrow> 'z Time \<Rightarrow> 'z Time" where
  "Time_Add d t = t\<lparr>nanos := nanos t + d\<rparr>"

definition Time_In :: "'z location \<Rightarrow> 'z Time \<Rightarrow> 'z Time" where
  "Time_In loc t = t\<lparr>tloc := loc\<rparr>"

definition Time_Before :: "'z Time \<Rightarrow> 'z Time \<Rightarrow> bool" where
  "Time_Before t u \<longleftrightarrow> nanos t < nanos u"

text \<open>Rounding down to a multiple of a positive duration since the zero time.\<close>

definition Time_Truncate :: "duration \<Rightarrow> 'z Time \<Rightarrow> 'z Time" where
  "Time_Truncate d t = t\<lparr>nanos := nanos t - nanos t mod d\<rparr>"

text \<open>
  The wall clock seconds of a date. The month is normalised into the year; a day, hour, minute
  or second outside its range carries over by plain addition.
\<close>

definition civil_seconds :: "int \<Rightarrow> int \<Rightarrow> int \<Rightarrow> int \<Rightarrow> int \<Rightarrow> int \<Rightarrow> int" where
  "civil_seconds y m d h mi s =
     (let y' = y + (m - 1) div 12; m' = (m - 1) mod 12 + 1
      in (days_before_year y' + days_before_month (is_leap y') m' + (d - 1)) * 86400
         + h * 3600 + mi * 60 + s)"

text \<open>
  \<^verbatim>\<open>time.Date\<close>: the offset is first looked up as if the wall clock were UTC, and looked up
  again when the instant found is outside the interval of that offset.
\<close>

definition Date ::
    "'z lookup \<Rightarrow> int \<Rightarrow> int \<Rightarrow> int \<Rightarrow> int \<Rightarrow> int \<Rightarrow> int \<Rightarrow> int \<Rightarrow> 'z location \<Rightarrow> 'z Time" where
  "Date lookup y m d h mi s ns loc =
     (let unix = civil_seconds y m d h mi s + ns div Second_d;
          ns = ns mod Second_d;
          unix' =
            (case loc of
               UTC \<Rightarrow> unix
             | _ \<Rightarrow>
                 let (off, start, end) = lookup loc unix in
                 if off = 0 then unix
                 else
                   let utc = unix - off in
                   if utc < start \<or> utc \<ge> end then unix - fst (lookup loc utc) else utc)
      in \<lparr>nanos = unix' * Second_d + ns, tloc = loc\<rparr>)"

definition AddDate :: "'z lookup \<Rightarrow> int \<Rightarrow> int \<Rightarrow> int \<Rightarrow> 'z Time \<Rightarrow> 'z Time" where
  "AddDate lookup years mons days t =
     Date lookup (Year lookup t + years) (Month_t lookup t + mons) (Day lookup t + days)
       (Hour_t lookup t) (Minute_t lookup t) (Second_t lookup t) (Nanosecond_t t) (tloc t)"

end
