(* ===== verification/SpecNext.thy ===== *)
theory SpecNext
  imports GoTime
begin

text \<open>
  The activation times of the schedules: \<^verbatim>\<open>SpecSchedule.Next\<close> and \<^verbatim>\<open>dayMatches\<close> of
  \<^verbatim>\<open>cron/spec.go\<close>, and \<^verbatim>\<open>ConstantDelaySchedule.Next\<close> of \<^verbatim>\<open>cron/constantdelay.go\<close>.
\<close>

section \<open>\<^verbatim>\<open>dayMatches\<close>\<close>

text \<open>\<^verbatim>\<open>1<<uint(v) & bits\<close> of a field value that is not negative.\<close>

definition has_bit :: "int \<Rightarrow> uint64 \<Rightarrow> bool" where
  "has_bit v bits \<longleftrightarrow> push_bit (nat v) 1 AND bits \<noteq> 0"

definition dayMatches :: "'z lookup \<Rightarrow> 'z SpecSchedule \<Rightarrow> 'z Time \<Rightarrow> bool" where
  "dayMatches lookup s t =
     (let domMatch = has_bit (Day lookup t) (Dom s);
          dowMatch = has_bit (Weekday lookup t) (Dow s)
      in if Dom s AND starBit \<noteq> 0 \<or> Dow s AND starBit \<noteq> 0
         then domMatch \<and> dowMatch
         else domMatch \<or> dowMatch)"

section \<open>\<^verbatim>\<open>Next\<close>\<close>

text \<open>
  The body of \<^verbatim>\<open>Next\<close> is a chain of loops with jumps back to the label \<^verbatim>\<open>WRAP\<close>. The model
  keeps the loop it is in as a program point, and the flag \<^verbatim>\<open>added\<close> and the time as
  arguments; \<^const>\<open>None\<close> is a call that does not return.
\<close>

datatype next_pc = WRAP | MonthLoop | DayLoop | HourLoop | MinuteLoop | SecondLoop

text \<open>The bodies of the five loops, before their test for a wrap-around.\<close>

definition month_body :: "'z lookup \<Rightarrow> 'z location \<Rightarrow> bool \<Rightarrow> 'z Time \<Rightarrow> 'z Time" where
  "month_body lookup loc added t =
     (let t = (if \<not> added then Date lookup (Year lookup t) (Month_t lookup t) 1 0 0 0 0 loc else t)
      in AddDate lookup 0 1 0 t)"

definition day_body :: "'z lookup \<Rightarrow> 'z location \<Rightarrow> bool \<Rightarrow> 'z Time \<Rightarrow> 'z Time" where
  "day_body lookup loc added t =
     (let t = (if \<not> added
               then Date lookup (Year lookup t) (Month_t lookup t) (Day lookup t) 0 0 0 0 loc else t);
          t = AddDate lookup 0 0 1 t
      in if Hour_t lookup t \<noteq> 0 then
           (if Hour_t lookup t > 12 then Time_Add ((24 - Hour_t lookup t) * Hour_d) t
            else Time_Add (- Hour_t lookup t * Hour_d) t)
         else t)"

definition hour_body :: "'z lookup \<Rightarrow> 'z location \<Rightarrow> bool \<Rightarrow> 'z Time \<Rightarrow> 'z Time" where
  "hour_body lookup loc added t =
     (let t = (if \<not> added
               then Date lookup (Year lookup t) (Month_t lookup t) (Day lookup t) (Hour_t lookup t) 0 0 0 loc
               else t)
      in Time_Add (1 * Hour_d) t)"

definition minute_body :: "bool \<Rightarrow> 'z Time \<Rightarrow> 'z Time" where
  "minute_body added t = Time_Add (1 * Minute_d) (if \<not> added then Time_Truncate Minute_d t else t)"

definition second_body :: "bool \<Rightarrow> 'z Time \<Rightarrow> 'z Time" where
  "second_body added t = Time_Add (1 * Second_d) (if \<not> added then Time_Truncate Second_d t else t)"

text \<open>
  One step: the test of the loop and its body. The result of the function (\<^const>\<open>None\<close> for
  the zero time) is on the left, the next program point, flag and time on the right.
\<close>

definition next_step ::
    "'z lookup \<Rightarrow> 'z SpecSchedule \<Rightarrow> 'z location \<Rightarrow> int \<Rightarrow> next_pc \<Rightarrow> bool \<Rightarrow> 'z Time
      \<Rightarrow> 'z Time option + next_pc \<times> bool \<times> 'z Time" where
  "next_step lookup s loc yearLimit pc added t =
     (case pc of
        WRAP \<Rightarrow>
          if Year lookup t > yearLimit then Inl None else Inr (MonthLoop, added, t)
      | MonthLoop \<Rightarrow>
          if \<not> has_bit (Month_t lookup t) (Month s) then
            let t = month_body lookup loc added t
            in Inr (if Month_t lookup t = 1 then WRAP else MonthLoop, True, t)
          else Inr (DayLoop, added, t)
      | DayLoop \<Rightarrow>
          if \<not> dayMatches lookup s t then
            let t = day_body lookup loc added t
            in Inr (if Day lookup t = 1 then WRAP else DayLoop, True, t)
          else Inr (HourLoop, added, t)
      | HourLoop \<Rightarrow>
          if \<not> has_bit (Hour_t lookup t) (Hour s) then
            let t = hour_body lookup loc added t
            in Inr (if Hour_t lookup t = 0 then WRAP else HourLoop, True, t)
          else Inr (MinuteLoop, added, t)
      | MinuteLoop \<Rightarrow>
          if \<not> has_bit (Minute_t lookup t) (Minute s) then
            let t = minute_body added t
            in Inr (if Minute_t lookup t = 0 then WRAP else MinuteLoop, True, t)
          else Inr (SecondLoop, added, t)
      | SecondLoop \<Rightarrow>
          if \<not> has_bit (Second_t lookup t) (Second s) then
            let t = second_body added t
            in Inr (if Second_t lookup t = 0 then WRAP else SecondLoop, True, t)
          else Inl (Some t))"

partial_function (option) Next_loop ::
    "'z lookup \<Rightarrow> 'z SpecSchedule \<Rightarrow> 'z location \<Rightarrow> int \<Rightarrow> next_pc \<Rightarrow> bool \<Rightarrow> 'z Time \<Rightarrow> 'z Time option option" where
  "Next_loop lookup s loc yearLimit pc added t =
     (case next_step lookup s loc yearLimit pc added t of
        Inl r \<Rightarrow> Some r
      | Inr (pc, added, t) \<Rightarrow> Next_loop lookup s loc yearLimit pc added t)"

declare Next_loop.simps [code]

definition SpecSchedule_Next :: "'z lookup \<Rightarrow> 'z SpecSchedule \<Rightarrow> 'z Time \<Rightarrow> 'z Time option" where
  "SpecSchedule_Next lookup s t =
     (let origLocation = tloc t;
          loc = (case Location s of Local \<Rightarrow> tloc t | l \<Rightarrow> l);
          t = (case Location s of Local \<Rightarrow> t | l \<Rightarrow> Time_In l t);
          t = Time_Add (1 * Second_d - Nanosecond_t t * Nanosecond) t;
          yearLimit = Year lookup t + 5
      in case Next_loop lookup s loc yearLimit WRAP False t of
           None \<Rightarrow> None
         | Some None \<Rightarrow> Some zero_Time
         | Some (Some t) \<Rightarrow> Some (Time_In origLocation t))"

definition ConstantDelaySchedule_Next :: "ConstantDelaySchedule \<Rightarrow> 'z Time \<Rightarrow> 'z Time" where
  "ConstantDelaySchedule_Next sched t = Time_Add (Delay sched - Nanosecond_t t * Nanosecond) t"

definition Schedule_Next :: "'z lookup \<Rightarrow> 'z schedule \<Rightarrow> 'z Time \<Rightarrow> 'z Time option" where
  "Schedule_Next lookup sc t =
     (case sc of
        Spec s \<Rightarrow> SpecSchedule_Next lookup s t
      | ConstantDelay c \<Rightarrow> Some (ConstantDelaySchedule_Next c t))"

end
