(* ===== verification/Calendar.thy ===== *)
theory Calendar
  imports GoTime
begin

text \<open>
  The calendar is correct: year, month and day of a wall clock second bracket it between the
  first second of its month and the first second of the next one, and the fields are constant
  in between.
\<close>

section \<open>Years\<close>

definition year_length :: "int \<Rightarrow> int" where
  "year_length y = 365 + (if is_leap y then 1 else 0)"

lemma days_before_next_year: "days_before_year (y + 1) = days_before_year y + year_length y"
proof -
  have dk: "y div k - (y - 1) div k = (if y mod k = 0 then 1 else 0)" if "0 < k" for k :: int
  proof -
    have "(y - 1) div k = (if y mod k = 0 then y div k - 1 else y div k)"
    proof (cases "y mod k = 0")
      case True
      then obtain q where y: "y = k * q" by (metis minus_mod_eq_mult_div diff_zero)
      have "(k * q - 1) div k = q - 1"
        by (rule int_div_pos_eq [where r = "k - 1"]) (use that in \<open>auto simp: algebra_simps\<close>)
      with True y that show ?thesis by simp
    next
      case False
      have m: "0 \<le> y mod k" "y mod k < k" using that by auto
      have "y - 1 = k * (y div k) + (y mod k - 1)" by (simp add: mult_div_mod_eq [symmetric])
      then have "(y - 1) div k = y div k"
        by (rule int_div_pos_eq) (use m False in auto)
      with False show ?thesis by simp
    qed
    then show ?thesis by simp
  qed
  have d: "y div 4 - (y - 1) div 4 = (if y mod 4 = 0 then 1 else 0)"
    "y div 100 - (y - 1) div 100 = (if y mod 100 = 0 then 1 else 0)"
    "y div 400 - (y - 1) div 400 = (if y mod 400 = 0 then 1 else 0)"
    by (rule dk, simp)+
  have "y mod 400 mod 100 = y mod 100" "y mod 100 mod 4 = y mod 4" by (rule mod_mod_cancel, simp)+
  then have m: "y mod 400 = 0 \<Longrightarrow> y mod 100 = 0" "y mod 100 = 0 \<Longrightarrow> y mod 4 = 0"
    by (metis mod_0)+
  have count: "365 + (if a then 1 else 0) - (if b then 1 else 0) + (if c then 1 else 0) =
      365 + (if a \<and> (b \<longrightarrow> c) then 1 else (0 :: int))" if "c \<longrightarrow> b" "b \<longrightarrow> a" for a b c
    using that by (cases a; cases b; cases c) simp_all
  have "days_before_year (y + 1) - days_before_year y =
      365 + (y div 4 - (y - 1) div 4) - (y div 100 - (y - 1) div 100) + (y div 400 - (y - 1) div 400)"
    by (simp add: days_before_year_def)
  also have "\<dots> = 365 + (if y mod 4 = 0 \<and> (y mod 100 = 0 \<longrightarrow> y mod 400 = 0) then 1 else 0)"
    unfolding d by (rule count) (use m in blast)+
  also have "\<dots> = year_length y"
    unfolding year_length_def is_leap_def de_Morgan_disj imp_conv_disj by (rule refl)
  finally show ?thesis by simp
qed

lemma days_before_year_mono: "x \<le> y \<Longrightarrow> days_before_year x \<le> days_before_year y"
proof -
  have "days_before_year x \<le> days_before_year (x + int n)" for n
  proof (induction n)
    case (Suc n)
    have "days_before_year (x + int (Suc n)) = days_before_year (x + int n) + year_length (x + int n)"
      using days_before_next_year [of "x + int n"] by (simp add: algebra_simps)
    with Suc show ?case by (simp add: year_length_def)
  qed simp
  from this [of "nat (y - x)"] show "x \<le> y \<Longrightarrow> days_before_year x \<le> days_before_year y" by simp
qed

text \<open>The quotient is cut off at 3: the last of four periods may be one day longer.\<close>

lemma clamped_div:
  fixes r n :: int
  assumes "0 \<le> r" "r \<le> 4 * n" "0 < n" "q = min 3 (r div n)"
  shows "0 \<le> q" "q \<le> 3" "0 \<le> r - n * q" "r - n * q \<le> n" "q < 3 \<Longrightarrow> r - n * q < n"
proof -
  define k where "k = r div n"
  have k: "n * k + r mod n = r" "0 \<le> r mod n" "r mod n < n" using assms(3) by (simp_all add: k_def)
  have k0: "0 \<le> k" using assms(1,3) by (simp add: k_def pos_imp_zdiv_nonneg_iff)
  show "0 \<le> q" "q \<le> 3" using assms(4) k0 by (simp_all add: k_def)
  have "q = k \<and> k \<le> 3 \<or> q = 3 \<and> r = 4 * n"
  proof (cases "k \<le> 3")
    case False
    then have "n * 4 \<le> n * k" using assms(3) by (intro mult_left_mono) auto
    then have "r = 4 * n" using k(1,2) assms(2) by linarith
    moreover have "q = 3" using assms(4) False by (simp add: k_def)
    ultimately show ?thesis by blast
  qed (use assms(4) in \<open>simp add: k_def\<close>)
  moreover have "r - n * k = r mod n" using k(1) by linarith
  ultimately have "r - n * q = r mod n \<or> q = 3 \<and> r - n * q = n" by auto
  then show "0 \<le> r - n * q" "r - n * q \<le> n" "q < 3 \<Longrightarrow> r - n * q < n" using k(2,3) assms(3) by linarith+
qed

lemma leap_last_day:
  assumes "y = 400 * a + 100 * b + 4 * (c + 1)" "0 \<le> c" "c \<le> 24" "c = 24 \<Longrightarrow> b = 3"
  shows "is_leap y"
proof (cases "c = 24")
  case True
  with assms have "y = 400 * (a + 1)" by simp
  then show ?thesis by (simp add: is_leap_def)
next
  case False
  then have "c < 24" using assms(3) by simp
  have "y mod 4 = 0" unfolding assms(1) by (rule int_mod_pos_eq [where q = "100 * a + 25 * b + (c + 1)"]) auto
  moreover have "y mod 100 = 4 * (c + 1)"
    unfolding assms(1) by (rule int_mod_pos_eq [where q = "4 * a + b"]) (use assms(2) \<open>c < 24\<close> in auto)
  ultimately show ?thesis using assms(2) by (simp add: is_leap_def)
qed

lemma year_of_days_bounds:
  "days_before_year (year_of_days d) \<le> d" "d < days_before_year (year_of_days d + 1)"
proof -
  define a where "a = d div 146097"
  define r where "r = d mod 146097"
  define b where "b = min 3 (r div 36524)"
  define r2 where "r2 = r - 36524 * b"
  define c where "c = r2 div 1461"
  define r3 where "r3 = r2 mod 1461"
  define e where "e = min 3 (r3 div 365)"
  define yd where "yd = r3 - 365 * e"
  have r: "0 \<le> r" "r < 146097" "d = 146097 * a + r" by (simp_all add: r_def a_def)
  have b: "0 \<le> b" "b \<le> 3" "0 \<le> r2" "r2 \<le> 36524" "b < 3 \<Longrightarrow> r2 < 36524"
    using clamped_div [OF r(1) _ _ b_def] r(2) by (simp_all add: r2_def)
  have c: "0 \<le> c" "c \<le> 24" "r2 = 1461 * c + r3" "0 \<le> r3" "r3 < 1461"
  proof -
    show eq: "r2 = 1461 * c + r3" and r3: "0 \<le> r3" "r3 < 1461" by (simp_all add: c_def r3_def)
    show "0 \<le> c" "c \<le> 24" using eq r3 b(3,4) by linarith+
  qed
  have e: "0 \<le> e" "e \<le> 3" "0 \<le> yd" "yd \<le> 365" "e < 3 \<Longrightarrow> yd < 365"
    using clamped_div [OF c(4) _ _ e_def] c(5) by (simp_all add: yd_def)
  define y where "y = year_of_days d"
  have y: "y - 1 = 400 * a + 100 * b + 4 * c + e"
    by (simp add: y_def year_of_days_def Let_def a_def [symmetric] r_def [symmetric] b_def [symmetric]
        r2_def [symmetric] c_def [symmetric] r3_def [symmetric] e_def [symmetric])
  have q: "(y - 1) div 4 = 100 * a + 25 * b + c" "(y - 1) div 100 = 4 * a + b" "(y - 1) div 400 = a"
  proof -
    show "(y - 1) div 4 = 100 * a + 25 * b + c"
      unfolding y by (rule int_div_pos_eq [where r = e]) (use e(1,2) in simp_all)
    show "(y - 1) div 100 = 4 * a + b"
      unfolding y by (rule int_div_pos_eq [where r = "4 * c + e"]) (use c(1,2) e(1,2) in simp_all)
    show "(y - 1) div 400 = a"
      unfolding y by (rule int_div_pos_eq [where r = "100 * b + 4 * c + e"]) (use b(1,2) c(1,2) e(1,2) in simp_all)
  qed
  have dby: "days_before_year y = 146097 * a + 36524 * b + 1461 * c + 365 * e"
    by (simp only: days_before_year_def q) (simp only: y, simp)
  have d: "d = days_before_year y + yd"
    using r(3) c(3) by (simp add: dby yd_def r2_def)
  with e(3) show "days_before_year (year_of_days d) \<le> d" by (simp add: y_def)
  have "is_leap y" if "yd = 365"
  proof -
    have e3: "e = 3" using e(2,5) that by linarith
    then have r3: "r3 = 1460" using that by (simp add: yd_def)
    have "y = 400 * a + 100 * b + 4 * (c + 1)" using y e3 by simp
    moreover have "b = 3" if "c = 24" using that b c(3) r3 by fastforce
    ultimately show ?thesis using c(1,2) by (intro leap_last_day)
  qed
  then have "yd < year_length y" using e(4) by (cases "yd = 365") (auto simp: year_length_def)
  with d days_before_next_year [of y] show "d < days_before_year (year_of_days d + 1)" by (simp add: y_def)
qed

lemma year_of_days_unique:
  assumes "days_before_year y \<le> d" "d < days_before_year (y + 1)"
  shows "year_of_days d = y"
proof (rule antisym; rule ccontr)
  assume "\<not> year_of_days d \<le> y"
  then have "days_before_year (y + 1) \<le> days_before_year (year_of_days d)" by (intro days_before_year_mono) simp
  with assms year_of_days_bounds [of d] show False by simp
next
  assume "\<not> y \<le> year_of_days d"
  then have "days_before_year (year_of_days d + 1) \<le> days_before_year y" by (intro days_before_year_mono) simp
  with assms year_of_days_bounds [of d] show False by simp
qed

lemma year_of_days_mono: "d \<le> d' \<Longrightarrow> year_of_days d \<le> year_of_days d'"
proof (rule ccontr)
  assume "d \<le> d'" "\<not> year_of_days d \<le> year_of_days d'"
  then have "days_before_year (year_of_days d' + 1) \<le> days_before_year (year_of_days d)"
    by (intro days_before_year_mono) simp
  with \<open>d \<le> d'\<close> year_of_days_bounds [of d] year_of_days_bounds [of d'] show False by simp
qed

lemma year_of_mono: "v \<le> w \<Longrightarrow> year_of v \<le> year_of w"
  by (simp add: year_of_def year_of_days_mono zdiv_mono1)

section \<open>Months\<close>

lemma days_before_month_simps [simp]:
  "days_before_month l 1 = 0" "days_before_month l 2 = 31"
  "days_before_month l 3 = (if l then 60 else 59)" "days_before_month l 4 = (if l then 91 else 90)"
  "days_before_month l 5 = (if l then 121 else 120)" "days_before_month l 6 = (if l then 152 else 151)"
  "days_before_month l 7 = (if l then 182 else 181)" "days_before_month l 8 = (if l then 213 else 212)"
  "days_before_month l 9 = (if l then 244 else 243)" "days_before_month l 10 = (if l then 274 else 273)"
  "days_before_month l 11 = (if l then 305 else 304)" "days_before_month l 12 = (if l then 335 else 334)"
  "days_before_month l 13 = (if l then 366 else 365)"
  by (simp_all add: days_before_month_def nth_Cons')

lemma month_cases:
  assumes "1 \<le> m" "m \<le> 12"
  obtains "m = 1" | "m = 2" | "m = 3" | "m = 4" | "m = 5" | "m = 6" | "m = 7" | "m = 8" | "m = 9"
    | "m = 10" | "m = 11" | "m = (12 :: int)"
proof -
  have "m = 1 \<or> m = 2 \<or> m = 3 \<or> m = 4 \<or> m = 5 \<or> m = 6 \<or> m = 7 \<or> m = 8 \<or> m = 9 \<or> m = 10 \<or>
      m = 11 \<or> m = 12" using assms by presburger
  then show thesis using that by blast
qed

lemma days_before_month_step:
  assumes "1 \<le> m" "m \<le> 12"
  shows "days_before_month l m < days_before_month l (m + 1)"
  using assms by (cases rule: month_cases) simp_all

lemma days_before_month_mono:
  assumes "1 \<le> m" "m \<le> m'" "m' \<le> 13"
  shows "days_before_month l m \<le> days_before_month l m'"
proof -
  have "m + int n \<le> 13 \<Longrightarrow> days_before_month l m \<le> days_before_month l (m + int n)" for n
  proof (induction n)
    case (Suc n)
    then have "days_before_month l (m + int n) < days_before_month l (m + int n + 1)"
      using assms(1) by (intro days_before_month_step) auto
    with Suc show ?case by (simp add: algebra_simps)
  qed simp
  from this [of "nat (m' - m)"] assms show ?thesis by simp
qed

lemma days_before_month_end: "days_before_month (is_leap y) 13 = year_length y"
  by (simp add: year_length_def)

lemma month_of_yday_unique:
  assumes "1 \<le> m" "m \<le> 12" "days_before_month l m \<le> yd" "yd < days_before_month l (m + 1)"
  shows "month_of_yday l yd = m"
  using assms(1,2)
proof (cases rule: month_cases)
qed (use assms(3,4) in \<open>simp_all add: month_of_yday_def split: if_splits\<close>)

lemma month_of_yday_exists:
  assumes "0 \<le> yd" "yd < year_length y"
  obtains m where "1 \<le> m" "m \<le> 12" "days_before_month (is_leap y) m \<le> yd" "yd < days_before_month (is_leap y) (m + 1)"
proof -
  let ?l = "is_leap y"
  have "\<exists>n. 1 \<le> n \<and> n \<le> (12 :: nat) \<and> yd < days_before_month ?l (int n + 1)"
    using assms(2) by (intro exI [of _ 12]) (simp add: days_before_month_end [symmetric])
  from this [unfolded exists_least_iff [of "\<lambda>n. 1 \<le> n \<and> n \<le> 12 \<and> yd < days_before_month ?l (int n + 1)"]]
  obtain n where n: "1 \<le> n" "n \<le> 12" "yd < days_before_month ?l (int n + 1)"
    and least: "\<And>k. k < n \<Longrightarrow> \<not> (1 \<le> k \<and> k \<le> 12 \<and> yd < days_before_month ?l (int k + 1))"
    by blast
  have "days_before_month ?l (int n) \<le> yd"
  proof (cases "n = 1")
    case True
    with assms(1) show ?thesis by simp
  next
    case False
    then have "int (n - 1) + 1 = int n" "1 \<le> n - 1" "n - 1 \<le> 12" using n by auto
    with least [of "n - 1"] n show ?thesis by auto
  qed
  with n that [of "int n"] show thesis by auto
qed

section \<open>The fields of a wall clock second\<close>

definition month_start :: "int \<Rightarrow> int" where
  "month_start w =
     (days_before_year (year_of w) + days_before_month (is_leap (year_of w)) (month_of w)) * 86400"

definition month_end :: "int \<Rightarrow> int" where
  "month_end w =
     (days_before_year (year_of w) + days_before_month (is_leap (year_of w)) (month_of w + 1)) * 86400"

lemma month_of_bounds:
  "1 \<le> month_of w" "month_of w \<le> 12"
  "days_before_month (is_leap (year_of w)) (month_of w) \<le> yday_of_days (w div 86400)"
  "yday_of_days (w div 86400) < days_before_month (is_leap (year_of w)) (month_of w + 1)"
proof -
  let ?d = "w div 86400" and ?y = "year_of w"
  have "0 \<le> yday_of_days ?d" "yday_of_days ?d < year_length ?y"
    using year_of_days_bounds [of ?d] days_before_next_year [of ?y]
    by (simp_all add: yday_of_days_def year_of_def)
  then obtain m where m: "1 \<le> m" "m \<le> 12" "days_before_month (is_leap ?y) m \<le> yday_of_days ?d"
    "yday_of_days ?d < days_before_month (is_leap ?y) (m + 1)" by (rule month_of_yday_exists)
  then have "month_of w = m" by (simp add: month_of_def Let_def year_of_def month_of_yday_unique)
  with m show "1 \<le> month_of w" "month_of w \<le> 12"
    "days_before_month (is_leap ?y) (month_of w) \<le> yday_of_days ?d"
    "yday_of_days ?d < days_before_month (is_leap ?y) (month_of w + 1)" by simp_all
qed

lemma le_div_day: "x * 86400 \<le> v \<Longrightarrow> x \<le> v div (86400 :: int)"
  and div_less_day: "v < x * 86400 \<Longrightarrow> v div (86400 :: int) < x"
  by linarith+

lemma fields_unique:
  assumes "1 \<le> m" "m \<le> 12"
    and "(days_before_year y + days_before_month (is_leap y) m) * 86400 \<le> v"
    and "v < (days_before_year y + days_before_month (is_leap y) (m + 1)) * 86400"
  shows "year_of v = y" "month_of v = m"
    "day_of v = v div 86400 - (days_before_year y + days_before_month (is_leap y) m) + 1"
proof -
  let ?l = "is_leap y"
  have lo: "days_before_year y + days_before_month ?l m \<le> v div 86400"
    using assms(3) by (rule le_div_day)
  have hi: "v div 86400 < days_before_year y + days_before_month ?l (m + 1)"
    using assms(4) by (rule div_less_day)
  have "0 \<le> days_before_month ?l m" "days_before_month ?l (m + 1) \<le> year_length y"
    using days_before_month_mono [of 1 m ?l] days_before_month_mono [of "m + 1" 13 ?l] assms(1,2)
    by (simp_all add: days_before_month_end [symmetric])
  with lo hi have "year_of_days (v div 86400) = y"
    using days_before_next_year [of y] by (intro year_of_days_unique) simp_all
  then show y: "year_of v = y" by (simp add: year_of_def)
  then have yd: "yday_of_days (v div 86400) = v div 86400 - days_before_year y"
    by (simp add: yday_of_days_def year_of_def)
  with lo hi assms(1,2) have "month_of_yday ?l (yday_of_days (v div 86400)) = m"
    by (intro month_of_yday_unique) simp_all
  with y yd show "month_of v = m"
    "day_of v = v div 86400 - (days_before_year y + days_before_month ?l m) + 1"
    by (simp_all add: month_of_def day_of_def year_of_def Let_def)
qed

lemma month_bracket: "month_start w \<le> w" "w < month_end w"
proof -
  have d: "w div 86400 * 86400 \<le> w" "w < (w div 86400 + 1) * 86400" by simp_all
  have yd: "w div 86400 = days_before_year (year_of w) + yday_of_days (w div 86400)"
    by (simp add: yday_of_days_def year_of_def)
  have "days_before_year (year_of w) + days_before_month (is_leap (year_of w)) (month_of w) \<le> w div 86400"
    "w div 86400 + 1 \<le> days_before_year (year_of w) + days_before_month (is_leap (year_of w)) (month_of w + 1)"
    using month_of_bounds(3,4) [of w] yd by linarith+
  then have "month_start w \<le> w div 86400 * 86400" "(w div 86400 + 1) * 86400 \<le> month_end w"
    unfolding month_start_def month_end_def by (intro mult_right_mono; simp)+
  with d show "month_start w \<le> w" "w < month_end w" by linarith+
qed

lemma month_const:
  assumes "month_start w \<le> v" "v < month_end w"
  shows "year_of v = year_of w" "month_of v = month_of w"
  using fields_unique(1,2) [OF month_of_bounds(1,2) [of w], of "year_of w" v] assms
  by (simp_all add: month_start_def month_end_def)

lemma day_of_month_start: "w div 86400 * 86400 = month_start w + (day_of w - 1) * 86400"
  using fields_unique(3) [OF month_of_bounds(1,2) [of w], of "year_of w" w] month_bracket [of w]
  by (simp add: month_start_def month_end_def algebra_simps)

lemma month_start_mod [simp]: "month_start w mod 86400 = 0" "month_end w mod 86400 = 0"
  by (simp_all add: month_start_def month_end_def)

lemma day_of_bounds: "1 \<le> day_of w" "day_of w \<le> 31"
proof -
  let ?y = "year_of w" and ?m = "month_of w"
  have d: "day_of w = yday_of_days (w div 86400) - days_before_month (is_leap ?y) ?m + 1"
    by (simp add: day_of_def month_of_def year_of_def Let_def)
  have "days_before_month (is_leap ?y) (?m + 1) \<le> days_before_month (is_leap ?y) ?m + 31"
    using month_of_bounds(1,2) [of w] by (cases rule: month_cases) auto
  with d month_of_bounds(3,4) [of w] show "1 \<le> day_of w" "day_of w \<le> 31" by linarith+
qed

lemma at_month_start: "w = month_start w \<longleftrightarrow> day_of w = 1 \<and> w mod 86400 = 0"
proof -
  have "w = w div 86400 * 86400 + w mod 86400" by simp
  then have w: "w = month_start w + (day_of w - 1) * 86400 + w mod 86400" by (simp add: day_of_month_start)
  have gen: "w = ms \<longleftrightarrow> D = 1 \<and> r = 0"
    if "w = ms + (D - 1) * 86400 + r" "0 \<le> r" "r < 86400" "1 \<le> D" for ms D r :: int
    using that by auto
  show ?thesis by (rule gen [OF w]) (simp_all add: day_of_bounds)
qed

lemma year_start: "days_before_month l 1 = 0" "month_of (days_before_year y * 86400) = 1"
  "year_of (days_before_year y * 86400) = y" "day_of (days_before_year y * 86400) = 1"
  using fields_unique [of 1 y "days_before_year y * 86400"] by simp_all

lemma month_end_fields:
  "month_of (month_end w) = (if month_of w = 12 then 1 else month_of w + 1)"
  "year_of (month_end w) = (if month_of w = 12 then year_of w + 1 else year_of w)"
  "day_of (month_end w) = 1"
proof -
  let ?y = "year_of w" and ?m = "month_of w"
  have "month_of (month_end w) = (if ?m = 12 then 1 else ?m + 1) \<and>
      year_of (month_end w) = (if ?m = 12 then ?y + 1 else ?y) \<and> day_of (month_end w) = 1"
  proof (cases "?m = 12")
    case True
    then have "month_end w = days_before_year (?y + 1) * 86400"
      using days_before_next_year [of ?y] days_before_month_end [of ?y] by (simp add: month_end_def)
    with True show ?thesis by (simp add: year_start)
  next
    case False
    with month_of_bounds [of w] have m: "1 \<le> ?m + 1" "?m + 1 \<le> 12" by auto
    have "month_end w < (days_before_year ?y + days_before_month (is_leap ?y) (?m + 1 + 1)) * 86400"
      using days_before_month_step [OF m, of "is_leap ?y"] by (simp add: month_end_def)
    from fields_unique [OF m _ this] False show ?thesis by (simp add: month_end_def)
  qed
  then show "month_of (month_end w) = (if ?m = 12 then 1 else ?m + 1)"
    "year_of (month_end w) = (if ?m = 12 then ?y + 1 else ?y)" "day_of (month_end w) = 1" by simp_all
qed

lemma civil_next_month: "civil_seconds (year_of w) (month_of w + 1) 1 0 0 0 = month_end w"
proof (cases "month_of w = 12")
  case True
  then show ?thesis
    using days_before_next_year [of "year_of w"] days_before_month_end [of "year_of w"]
    by (simp add: civil_seconds_def Let_def month_end_def)
next
  case False
  with month_of_bounds(1,2) [of w] have "month_of w div 12 = 0" "month_of w mod 12 = month_of w" by simp_all
  then show ?thesis by (simp add: civil_seconds_def Let_def month_end_def)
qed

lemma civil_same_month:
  "civil_seconds (year_of w) (month_of w) (day_of w + k) h mi s = (w div 86400 + k) * 86400 + h * 3600 + mi * 60 + s"
proof -
  have "(month_of w - 1) div 12 = 0" "(month_of w - 1) mod 12 = month_of w - 1"
    using month_of_bounds(1,2) [of w] by simp_all
  then have "civil_seconds (year_of w) (month_of w) (day_of w + k) h mi s =
      month_start w + (day_of w - 1) * 86400 + k * 86400 + h * 3600 + mi * 60 + s"
    by (simp add: civil_seconds_def Let_def month_start_def algebra_simps)
  then show ?thesis using day_of_month_start [of w] by (simp add: algebra_simps)
qed

lemma civil_month_start: "civil_seconds (year_of w) (month_of w) 1 0 0 0 = month_start w"
  using civil_same_month [of w "1 - day_of w" 0 0 0] day_of_month_start [of w] by (simp add: algebra_simps)

lemma clock_bounds:
  "0 \<le> hour_of w" "hour_of w < 24" "0 \<le> minute_of w" "minute_of w < 60" "0 \<le> second_of w" "second_of w < 60"
  unfolding hour_of_def minute_of_def second_of_def by linarith+

end
