(* ===== verification/SpecSearch.thy ===== *)
theory SpecSearch
  imports SpecNext Calendar
begin

text \<open>
  The search of \<^verbatim>\<open>Next\<close> in a location with a fixed offset: on the wall clock each loop body
  moves to the start of the next month, day, hour, minute or second, and the loops together
  find the first matching second.
\<close>

section \<open>What a schedule asks of a wall clock second\<close>

definition day_ok :: "'z SpecSchedule \<Rightarrow> int \<Rightarrow> bool" where
  "day_ok s w =
     (let domMatch = has_bit (day_of w) (Dom s); dowMatch = has_bit (weekday_of w) (Dow s)
      in if Dom s AND starBit \<noteq> 0 \<or> Dow s AND starBit \<noteq> 0 then domMatch \<and> dowMatch
         else domMatch \<or> dowMatch)"

definition matches :: "'z SpecSchedule \<Rightarrow> int \<Rightarrow> bool" where
  "matches s w \<longleftrightarrow>
     has_bit (month_of w) (Month s) \<and> day_ok s w \<and> has_bit (hour_of w) (Hour s) \<and>
     has_bit (minute_of w) (Minute s) \<and> has_bit (second_of w) (Second s)"

text \<open>The instant of a wall clock second at a fixed offset.\<close>

definition at_wall :: "'z location \<Rightarrow> int \<Rightarrow> int \<Rightarrow> 'z Time" where
  "at_wall loc off w = \<lparr>nanos = (w - off) * Second_d, tloc = loc\<rparr>"

text \<open>Starts of the units a second is in, and of the next ones.\<close>

definition floor_to :: "int \<Rightarrow> int \<Rightarrow> int" where
  "floor_to n w = w - w mod n"

lemma floor_to_bracket: "0 < n \<Longrightarrow> floor_to n w \<le> w" "0 < n \<Longrightarrow> w < floor_to n w + n"
  using pos_mod_sign [of n w] pos_mod_bound [of n w] by (auto simp: floor_to_def)

lemma floor_to_mod [simp]: "floor_to n w mod n = 0"
  by (simp add: floor_to_def minus_mod_eq_div_mult)

lemma floor_to_aligned: "w mod n = 0 \<Longrightarrow> floor_to n w = w"
  by (simp add: floor_to_def)

lemma floor_to_div: "0 < n \<Longrightarrow> floor_to n w \<le> v \<Longrightarrow> v < floor_to n w + n \<Longrightarrow> v div n = w div n"
proof -
  assume a: "0 < n" "floor_to n w \<le> v" "v < floor_to n w + n"
  have "floor_to n w = n * (w div n)" by (simp add: floor_to_def minus_mod_eq_mult_div)
  then have "v = n * (w div n) + (v - floor_to n w)" by simp
  then show "v div n = w div n" by (rule int_div_pos_eq) (use a in auto)
qed

lemma mod_dvd_zero: "m dvd n \<Longrightarrow> w mod n = 0 \<Longrightarrow> w mod m = (0 :: int)"
  by (metis mod_mod_cancel mod_0)

section \<open>Fields are constant within a unit\<close>

lemma mod_mult_div: "0 < n \<Longrightarrow> 0 \<le> k \<Longrightarrow> w mod (n * k) div n = w div n mod (k :: int)"
  by (simp add: zmod_zmult2_eq)

lemma hour_alt: "hour_of w = w div 3600 mod 24"
  using mod_mult_div [of 3600 24 w] by (simp add: hour_of_def)

lemma minute_alt: "minute_of w = w div 60 mod 60"
  using mod_mult_div [of 60 60 w] by (simp add: minute_of_def)

lemma div_day: "w div 86400 = w div 3600 div (24 :: int)"
  using zdiv_zmult2_eq [of 24 w 3600] by simp

lemma div_hour: "w div 3600 = w div 60 div (60 :: int)"
  using zdiv_zmult2_eq [of 60 w 60] by simp

lemma mod_day: "w mod 86400 = 3600 * hour_of w + w mod 3600"
  using zmod_zmult2_eq [of 24 w 3600] by (simp add: hour_alt)

lemma mod_hour: "w mod 3600 = 60 * minute_of w + w mod 60"
  using zmod_zmult2_eq [of 60 w 60] by (simp add: minute_alt)

lemma same_day:
  assumes "v div 86400 = w div 86400"
  shows "month_of v = month_of w" "year_of v = year_of w" "day_of v = day_of w" "weekday_of v = weekday_of w"
  using assms by (simp_all add: month_of_def year_of_def day_of_def weekday_of_def)

lemma same_hour:
  assumes "v div 3600 = w div 3600"
  shows "v div 86400 = w div 86400" "hour_of v = hour_of w"
  using assms by (simp_all only: div_day hour_alt)

lemma same_minute:
  assumes "v div 60 = w div 60"
  shows "v div 3600 = w div 3600" "minute_of v = minute_of w"
  using assms by (simp_all only: div_hour minute_alt)

lemma day_ok_same: "v div 86400 = w div 86400 \<Longrightarrow> day_ok s v = day_ok s w"
  using same_day(3,4) [of v w] by (simp add: day_ok_def)

lemma sum_zero_iff: "a = k * b + c \<Longrightarrow> 0 < k \<Longrightarrow> 0 \<le> b \<Longrightarrow> 0 \<le> c \<Longrightarrow> a = 0 \<longleftrightarrow> b = 0 \<and> c = (0 :: int)"
  by (auto simp: add_nonneg_eq_0_iff)

lemma aligned_clock:
  "w mod 86400 = 0 \<longleftrightarrow> hour_of w = 0 \<and> w mod 3600 = 0"
  "w mod 3600 = 0 \<longleftrightarrow> minute_of w = 0 \<and> w mod 60 = 0"
  by (rule sum_zero_iff [OF mod_day], simp_all add: clock_bounds)
     (rule sum_zero_iff [OF mod_hour], simp_all add: clock_bounds)

lemma same_month_start: "month_of v = month_of w \<Longrightarrow> year_of v = year_of w \<Longrightarrow> month_start v = month_start w"
  by (simp add: month_start_def)

section \<open>The loop bodies on the wall clock\<close>

text \<open>A location whose offset never changes, and is a whole number of minutes.\<close>

locale fixed_zone =
  fixes lookup :: "'z lookup" and loc :: "'z location" and off :: int
  assumes offset_const: "offset lookup loc x = off"
    and whole_minutes: "60 dvd off"
begin

lemma wall_at [simp]: "wall lookup (at_wall loc off w) = w" "unix_sec (at_wall loc off w) = w - off"
  by (simp_all add: wall_def unix_sec_def at_wall_def offset_const Second_d_def)

lemma fields_at [simp]:
  "Year lookup (at_wall loc off w) = year_of w" "Month_t lookup (at_wall loc off w) = month_of w"
  "Day lookup (at_wall loc off w) = day_of w" "Weekday lookup (at_wall loc off w) = weekday_of w"
  "Hour_t lookup (at_wall loc off w) = hour_of w" "Minute_t lookup (at_wall loc off w) = minute_of w"
  "Second_t lookup (at_wall loc off w) = second_of w" "Nanosecond_t (at_wall loc off w) = 0"
  "tloc (at_wall loc off w) = loc"
  by (simp_all add: Year_def Month_t_def Day_def Weekday_def Hour_t_def Minute_t_def Second_t_def Nanosecond_t_def)
     (simp_all add: at_wall_def)

lemma dayMatches_at [simp]: "dayMatches lookup s (at_wall loc off w) = day_ok s w"
  by (simp add: dayMatches_def day_ok_def)

lemma Date_at: "Date lookup y m d h mi s 0 loc = at_wall loc off (civil_seconds y m d h mi s)"
proof (cases "loc = UTC")
  case True
  then have "off = 0" using offset_const [of 0] by (simp add: offset_def)
  with True show ?thesis by (simp add: Date_def at_wall_def)
next
  case False
  then have "fst (lookup loc x) = off" for x
    using offset_const [of x] by (cases loc) (simp_all add: offset_def)
  then have look: "lookup loc x = (off, snd (lookup loc x))" for x by (metis prod.collapse)
  obtain st en where "lookup loc (civil_seconds y m d h mi s) = (off, st, en)" using look by (metis surj_pair)
  moreover have "fst (lookup loc x) = off" for x using look [of x] by (metis fst_conv)
  ultimately show ?thesis using False by (cases loc) (auto simp: Date_def at_wall_def Let_def)
qed

lemma Add_at: "Time_Add (k * Second_d) (at_wall loc off w) = at_wall loc off (w + k)"
  by (simp add: Time_Add_def at_wall_def algebra_simps)

lemma month_body_at:
  assumes "added \<Longrightarrow> w = month_start w"
  shows "month_body lookup loc added (at_wall loc off w) = at_wall loc off (month_end w)"
proof -
  let ?m = "month_start w"
  have m: "year_of ?m = year_of w" "month_of ?m = month_of w"
    using month_const [of w ?m] month_bracket [of w] by auto
  then have "month_start ?m = ?m" by (simp add: month_start_def)
  then have a: "day_of ?m = 1" "?m mod 86400 = 0" using at_month_start [of ?m] by simp_all
  then have clock: "hour_of ?m = 0" "minute_of ?m = 0" "second_of ?m = 0"
    using aligned_clock [of ?m] by (simp_all add: second_of_def)
  have "AddDate lookup 0 1 0 (at_wall loc off ?m) = at_wall loc off (month_end w)"
    using civil_next_month [of ?m] m by (simp add: AddDate_def Date_at a clock month_end_def)
  moreover have "Date lookup (year_of w) (month_of w) 1 0 0 0 0 loc = at_wall loc off ?m"
    by (simp add: Date_at civil_month_start)
  ultimately show ?thesis using assms by (cases added) (simp_all add: month_body_def)
qed

lemma day_body_at:
  assumes "added \<Longrightarrow> w mod 86400 = 0"
  shows "day_body lookup loc added (at_wall loc off w) = at_wall loc off (floor_to 86400 w + 86400)"
proof -
  let ?d = "floor_to 86400 w"
  have d: "?d = w div 86400 * 86400" by (simp add: floor_to_def minus_mod_eq_div_mult)
  have clock: "hour_of ?d = 0" "minute_of ?d = 0" "second_of ?d = 0"
    "hour_of (?d + 86400) = 0"
    using aligned_clock [of ?d] aligned_clock [of "?d + 86400"] by (simp_all add: second_of_def)
  have dd: "?d div 86400 * 86400 = ?d" using div_mult_mod_eq [of ?d 86400] by simp
  have "AddDate lookup 0 0 1 (at_wall loc off ?d) = at_wall loc off (?d + 86400)"
    using civil_same_month [of ?d 1 0 0 0] by (simp add: AddDate_def Date_at clock distrib_right dd)
  moreover have "Date lookup (year_of w) (month_of w) (day_of w) 0 0 0 0 loc = at_wall loc off ?d"
    using civil_same_month [of w 0 0 0 0] by (simp add: Date_at d)
  moreover have "added \<Longrightarrow> w = ?d" using assms by (simp add: floor_to_aligned)
  ultimately show ?thesis using clock by (cases added) (auto simp: day_body_def Let_def)
qed

lemma hour_body_at:
  assumes "added \<Longrightarrow> w mod 3600 = 0"
  shows "hour_body lookup loc added (at_wall loc off w) = at_wall loc off (floor_to 3600 w + 3600)"
proof -
  have "w div 86400 * 86400 + hour_of w * 3600 = floor_to 3600 w"
    using zmod_zmult2_eq [of 24 w 3600] div_mult_mod_eq [of w 86400] by (simp add: hour_alt floor_to_def)
  then have "Date lookup (year_of w) (month_of w) (day_of w) (hour_of w) 0 0 0 loc = at_wall loc off (floor_to 3600 w)"
    using civil_same_month [of w 0 "hour_of w" 0 0] by (simp add: Date_at)
  then show ?thesis
    using assms Add_at [of 3600] by (cases added) (auto simp: hour_body_def Hour_d_def Minute_d_def floor_to_aligned)
qed

lemma minute_body_at:
  assumes "added \<Longrightarrow> w mod 60 = 0"
  shows "minute_body added (at_wall loc off w) = at_wall loc off (floor_to 60 w + 60)"
proof -
  have "(w - off) mod 60 = w mod 60"
    using whole_minutes by (metis diff_zero dvd_eq_mod_eq_0 mod_diff_right_eq)
  moreover have "((w - off) * Second_d) mod Minute_d = (w - off) mod 60 * Second_d"
    using mod_mult_mult2 [of "w - off" Second_d 60] by (simp add: Minute_d_def)
  ultimately have "Time_Truncate Minute_d (at_wall loc off w) = at_wall loc off (floor_to 60 w)"
    by (simp add: Time_Truncate_def at_wall_def floor_to_def algebra_simps)
  then show ?thesis
    using assms Add_at [of 60] by (cases added) (auto simp: minute_body_def Minute_d_def floor_to_aligned)
qed

lemma second_body_at: "second_body added (at_wall loc off w) = at_wall loc off (w + 1)"
proof -
  have "Time_Truncate Second_d (at_wall loc off w) = at_wall loc off w"
    by (simp add: Time_Truncate_def at_wall_def)
  then show ?thesis using Add_at [of 1 w] by (simp add: second_body_def)
qed

end

section \<open>Moving to the next unit\<close>

definition next_unit :: "int \<Rightarrow> int \<Rightarrow> int" where
  "next_unit n w = floor_to n w + n"

lemma next_unit_basic:
  assumes "0 < n"
  shows "w < next_unit n w" "next_unit n w mod n = 0" "w \<le> v \<Longrightarrow> v < next_unit n w \<Longrightarrow> v div n = w div n"
  using floor_to_bracket [OF assms, of w] floor_to_div [OF assms, of w v]
  by (auto simp: next_unit_def mod_add_self2)

lemma next_unit_least:
  assumes "0 < n" "n dvd M" "w < M"
  shows "next_unit n w \<le> M"
proof -
  from assms(2) obtain k where M: "M = n * k" by (rule dvdE)
  have eq: "next_unit n w = n * (w div n + 1)"
    by (simp add: next_unit_def floor_to_def minus_mod_eq_mult_div distrib_left)
  have "w div n < k" using assms(1,3) M by (simp add: mult.commute pos_imp_zdiv_neg_iff)
       (metis M add.commute assms(3) div_mult_mod_eq linorder_not_le mult.commute mult_left_mono less_imp_le
         pos_mod_sign le_add_same_cancel1 order_trans)
  then show ?thesis unfolding eq M using assms(1) by (intro mult_left_mono) auto
qed

lemma next_unit_crosses:
  assumes "0 < n" "n dvd N" "0 < N"
  shows "next_unit n w mod N = 0 \<or> next_unit n w div N = w div N"
proof -
  have "N dvd floor_to N w + N" by (simp add: mod_0_imp_dvd)
  then have le: "next_unit n w \<le> floor_to N w + N"
    using assms floor_to_bracket(2) [of N w] by (intro next_unit_least) (auto intro: dvd_trans)
  show ?thesis
  proof (cases "next_unit n w = floor_to N w + N")
    case True
    then show ?thesis by (simp add: mod_add_self2)
  next
    case False
    with le have "next_unit n w < floor_to N w + N" by simp
    moreover have "floor_to N w \<le> next_unit n w"
      using floor_to_bracket(1) [of N w] next_unit_basic(1) [OF assms(1), of w] assms(3) by simp
    ultimately show ?thesis using floor_to_div [OF assms(3)] by blast
  qed
qed

lemma next_unit_month:
  assumes "0 < n" "n dvd 86400"
  shows "next_unit n w = month_end w \<or> month_of (next_unit n w) = month_of w \<and> year_of (next_unit n w) = year_of w"
proof -
  have "n dvd month_end w" using assms(2) by (auto simp: month_end_def)
  then have "next_unit n w \<le> month_end w" using assms(1) month_bracket by (intro next_unit_least)
  moreover have "month_start w \<le> next_unit n w"
    using month_bracket(1) [of w] next_unit_basic(1) [OF assms(1), of w] by simp
  ultimately show ?thesis using month_const [of w "next_unit n w"] by force
qed

lemma month_end_start: "month_start (month_end w) = month_end w"
  using at_month_start [of "month_end w"] month_end_fields(3) [of w] by simp

lemma month_end_later: "w < month_end w" "year_of (month_end w) \<le> year_of w + 1"
  using month_bracket(2) month_end_fields(2) [of w] by simp_all

section \<open>The search invariant\<close>

text \<open>The fields checked before a program point is reached.\<close>

fun passed :: "'z SpecSchedule \<Rightarrow> next_pc \<Rightarrow> int \<Rightarrow> bool" where
  "passed s WRAP w \<longleftrightarrow> True"
| "passed s MonthLoop w \<longleftrightarrow> True"
| "passed s DayLoop w \<longleftrightarrow> has_bit (month_of w) (Month s)"
| "passed s HourLoop w \<longleftrightarrow> has_bit (month_of w) (Month s) \<and> day_ok s w"
| "passed s MinuteLoop w \<longleftrightarrow> has_bit (month_of w) (Month s) \<and> day_ok s w \<and> has_bit (hour_of w) (Hour s)"
| "passed s SecondLoop w \<longleftrightarrow> has_bit (month_of w) (Month s) \<and> day_ok s w \<and> has_bit (hour_of w) (Hour s) \<and>
     has_bit (minute_of w) (Minute s)"

text \<open>Once a field has been advanced, a field that does not match is at the start of its unit.\<close>

definition aligned_ok :: "'z SpecSchedule \<Rightarrow> int \<Rightarrow> bool" where
  "aligned_ok s w \<longleftrightarrow>
     (has_bit (month_of w) (Month s) \<or> month_start w = w) \<and>
     (day_ok s w \<or> w mod 86400 = 0) \<and>
     (has_bit (hour_of w) (Hour s) \<or> w mod 3600 = 0) \<and>
     (has_bit (minute_of w) (Minute s) \<or> w mod 60 = 0)"

definition search_inv :: "'z SpecSchedule \<Rightarrow> int \<Rightarrow> int \<Rightarrow> next_pc \<Rightarrow> bool \<Rightarrow> int \<Rightarrow> bool" where
  "search_inv s limit start pc added w \<longleftrightarrow>
     start \<le> w \<and> (\<forall>v. start \<le> v \<and> v < w \<longrightarrow> \<not> matches s v) \<and> (added \<longrightarrow> aligned_ok s w) \<and>
     passed s pc w \<and> year_of w \<le> limit + (if pc = WRAP then 1 else 0)"

lemma search_inv_jump:
  assumes "search_inv s limit start pc added w" "w < w'" "\<And>v. w \<le> v \<Longrightarrow> v < w' \<Longrightarrow> \<not> matches s v"
    and "aligned_ok s w'" "passed s pc' w'" "year_of w' \<le> limit + (if pc' = WRAP then 1 else 0)"
  shows "search_inv s limit start pc' True w'"
  using assms unfolding search_inv_def by (metis linorder_not_le order.strict_implies_order order_trans)

text \<open>
  Advancing to the next unit of length \<open>n\<close>: alignment of the coarser fields, and what is kept
  when they are not crossed.
\<close>

lemma unit_dvd:
  assumes "n \<in> {1, 60, 3600, 86400 :: int}"
  shows "0 < n" "n dvd 86400"
  using assms by auto

lemma next_unit_aligned_day:
  assumes "n \<in> {1, 60, 3600, 86400}" "has_bit (month_of w) (Month s)"
    and "n = 86400 \<or> day_ok s w"
  defines "w' \<equiv> next_unit n w"
  shows "has_bit (month_of w') (Month s) \<or> month_start w' = w'" "day_ok s w' \<or> w' mod 86400 = 0"
    and "year_of w' \<le> year_of w + 1"
    and "day_of w' \<noteq> 1 \<or> w' mod 86400 \<noteq> 0 \<Longrightarrow> has_bit (month_of w') (Month s) \<and> year_of w' = year_of w"
    and "w' mod 86400 \<noteq> 0 \<Longrightarrow> day_ok s w' = day_ok s w"
proof -
  note n = unit_dvd [OF assms(1)]
  note month = next_unit_month [OF n, of w, folded w'_def]
  show "has_bit (month_of w') (Month s) \<or> month_start w' = w'"
    using month assms(2) month_end_start [of w] by auto
  show "year_of w' \<le> year_of w + 1" using month month_end_later(2) [of w] by auto
  have "w' = month_end w \<Longrightarrow> day_of w' = 1 \<and> w' mod 86400 = 0" by (simp add: month_end_fields)
  with month assms(2)
  show "day_of w' \<noteq> 1 \<or> w' mod 86400 \<noteq> 0 \<Longrightarrow> has_bit (month_of w') (Month s) \<and> year_of w' = year_of w" by auto
  have day: "w' mod 86400 = 0 \<or> w' div 86400 = w div 86400"
    using next_unit_crosses [OF n, of w] by (simp add: w'_def)
  then show "w' mod 86400 \<noteq> 0 \<Longrightarrow> day_ok s w' = day_ok s w" using day_ok_same by blast
  show "day_ok s w' \<or> w' mod 86400 = 0"
    using day assms(3) day_ok_same [of w' w s] next_unit_basic(2) [of 86400 w] by (auto simp: w'_def)
qed

section \<open>Every step keeps the invariant\<close>

fun pc_rank :: "next_pc \<Rightarrow> nat" where
  "pc_rank WRAP = 5"
| "pc_rank MonthLoop = 4"
| "pc_rank DayLoop = 3"
| "pc_rank HourLoop = 2"
| "pc_rank MinuteLoop = 1"
| "pc_rank SecondLoop = 0"

lemma month_step_inv:
  assumes inv: "search_inv s limit start MonthLoop added w" and no: "\<not> has_bit (month_of w) (Month s)"
  shows "search_inv s limit start (if month_of (month_end w) = 1 then WRAP else MonthLoop) True (month_end w)"
proof (rule search_inv_jump [OF inv month_end_later(1)])
  show "\<not> matches s v" if "w \<le> v" "v < month_end w" for v
    using month_const(2) [of w v] month_bracket(1) [of w] that no by (simp add: matches_def)
  have "month_end w mod 3600 = 0" "month_end w mod 60 = 0"
    using aligned_clock(1) [of "month_end w"] aligned_clock(2) [of "month_end w"] by simp_all
  then show "aligned_ok s (month_end w)" by (simp add: aligned_ok_def month_end_start)
  show "year_of (month_end w) \<le> limit + (if (if month_of (month_end w) = 1 then WRAP else MonthLoop) = WRAP then 1 else 0)"
    using inv month_of_bounds(1) [of w] by (auto simp: search_inv_def month_end_fields)
qed simp

lemma day_step_inv:
  assumes inv: "search_inv s limit start DayLoop added w" and no: "\<not> day_ok s w"
  defines "w' \<equiv> next_unit 86400 w"
  shows "search_inv s limit start (if day_of w' = 1 then WRAP else DayLoop) True w'"
proof (rule search_inv_jump [OF inv])
  have n: "(86400 :: int) \<in> {1, 60, 3600, 86400}" by simp
  have m: "has_bit (month_of w) (Month s)" and y: "year_of w \<le> limit" using inv by (simp_all add: search_inv_def)
  note A = next_unit_aligned_day [OF n m, folded w'_def]
  show "w < w'" by (simp add: w'_def next_unit_basic)
  show "\<not> matches s v" if "w \<le> v" "v < w'" for v
    using next_unit_basic(3) [of 86400 w v] that no day_ok_same [of v w s] by (simp add: matches_def w'_def)
  have w0: "w' mod 86400 = 0" by (simp add: w'_def next_unit_basic)
  then have "w' mod 3600 = 0" "w' mod 60 = 0" using aligned_clock [of w'] by simp_all
  with w0 A(1) show "aligned_ok s w'" by (simp add: aligned_ok_def)
  show "passed s (if day_of w' = 1 then WRAP else DayLoop) w'" using A(4) by simp
  show "year_of w' \<le> limit + (if (if day_of w' = 1 then WRAP else DayLoop) = WRAP then 1 else 0)"
    using A(3,4) y by auto
qed

lemma hour_step_inv:
  assumes inv: "search_inv s limit start HourLoop added w" and no: "\<not> has_bit (hour_of w) (Hour s)"
  defines "w' \<equiv> next_unit 3600 w"
  shows "search_inv s limit start (if hour_of w' = 0 then WRAP else HourLoop) True w'"
proof (rule search_inv_jump [OF inv])
  have n: "(3600 :: int) \<in> {1, 60, 3600, 86400}" by simp
  have m: "has_bit (month_of w) (Month s)" and d: "day_ok s w" and y: "year_of w \<le> limit"
    using inv by (simp_all add: search_inv_def)
  note A = next_unit_aligned_day [OF n m disjI2 [OF d], folded w'_def]
  show "w < w'" by (simp add: w'_def next_unit_basic)
  show "\<not> matches s v" if "w \<le> v" "v < w'" for v
    using next_unit_basic(3) [of 3600 w v] that no same_hour(2) [of v w] by (simp add: matches_def w'_def)
  have w0: "w' mod 3600 = 0" by (simp add: w'_def next_unit_basic)
  then have "w' mod 60 = 0" using aligned_clock(2) [of w'] by simp
  with w0 A(1,2) show "aligned_ok s w'" by (simp add: aligned_ok_def)
  have day: "w' mod 86400 = 0 \<longleftrightarrow> hour_of w' = 0" using w0 aligned_clock(1) [of w'] by simp
  show "passed s (if hour_of w' = 0 then WRAP else HourLoop) w'" using A(4,5) d day by simp
  show "year_of w' \<le> limit + (if (if hour_of w' = 0 then WRAP else HourLoop) = WRAP then 1 else 0)"
    using A(3,4) y day by auto
qed

lemma minute_step_inv:
  assumes inv: "search_inv s limit start MinuteLoop added w" and no: "\<not> has_bit (minute_of w) (Minute s)"
  defines "w' \<equiv> next_unit 60 w"
  shows "search_inv s limit start (if minute_of w' = 0 then WRAP else MinuteLoop) True w'"
proof (rule search_inv_jump [OF inv])
  have n: "(60 :: int) \<in> {1, 60, 3600, 86400}" by simp
  have m: "has_bit (month_of w) (Month s)" and d: "day_ok s w" and h: "has_bit (hour_of w) (Hour s)"
    and y: "year_of w \<le> limit"
    using inv by (simp_all add: search_inv_def)
  note A = next_unit_aligned_day [OF n m disjI2 [OF d], folded w'_def]
  show "w < w'" by (simp add: w'_def next_unit_basic)
  show "\<not> matches s v" if "w \<le> v" "v < w'" for v
    using next_unit_basic(3) [of 60 w v] that no same_minute(2) [of v w] by (simp add: matches_def w'_def)
  have w0: "w' mod 60 = 0" by (simp add: w'_def next_unit_basic)
  have hour: "w' mod 3600 = 0 \<or> w' div 3600 = w div 3600"
    using next_unit_crosses [of 60 3600 w] by (simp add: w'_def)
  with h have hh: "has_bit (hour_of w') (Hour s) \<or> w' mod 3600 = 0" using same_hour(2) [of w' w] by auto
  with w0 A(1,2) show "aligned_ok s w'" by (simp add: aligned_ok_def)
  have min: "w' mod 3600 = 0 \<longleftrightarrow> minute_of w' = 0" using w0 aligned_clock(2) [of w'] by simp
  have nz: "w' mod 86400 \<noteq> 0" if "minute_of w' \<noteq> 0" using that aligned_clock [of w'] by simp
  show "passed s (if minute_of w' = 0 then WRAP else MinuteLoop) w'"
    using A(4,5) d hh min nz by (cases "minute_of w' = 0") simp_all
  show "year_of w' \<le> limit + (if (if minute_of w' = 0 then WRAP else MinuteLoop) = WRAP then 1 else 0)"
    using A(3,4) y nz by (cases "minute_of w' = 0") simp_all
qed

lemma second_step_inv:
  assumes inv: "search_inv s limit start SecondLoop added w" and no: "\<not> has_bit (second_of w) (Second s)"
  shows "search_inv s limit start (if second_of (w + 1) = 0 then WRAP else SecondLoop) True (w + 1)"
proof (rule search_inv_jump [OF inv])
  let ?w = "w + 1"
  have w: "next_unit 1 w = ?w" by (simp add: next_unit_def floor_to_def)
  have n: "(1 :: int) \<in> {1, 60, 3600, 86400}" by simp
  have m: "has_bit (month_of w) (Month s)" and d: "day_ok s w" and h: "has_bit (hour_of w) (Hour s)"
    and mi: "has_bit (minute_of w) (Minute s)" and y: "year_of w \<le> limit"
    using inv by (simp_all add: search_inv_def)
  note A = next_unit_aligned_day [OF n m disjI2 [OF d], unfolded w]
  show "w < ?w" by simp
  show "\<not> matches s v" if "w \<le> v" "v < ?w" for v
  proof -
    have "v = w" using that by simp
    with no show ?thesis by (simp add: matches_def)
  qed
  have hour: "?w mod 3600 = 0 \<or> ?w div 3600 = w div 3600" and minute: "?w mod 60 = 0 \<or> ?w div 60 = w div 60"
    using next_unit_crosses [of 1 3600 w] next_unit_crosses [of 1 60 w] by (simp_all add: w)
  have hh: "has_bit (hour_of ?w) (Hour s) \<or> ?w mod 3600 = 0" using hour h same_hour(2) [of ?w w] by auto
  have mm: "has_bit (minute_of ?w) (Minute s) \<or> ?w mod 60 = 0" using minute mi same_minute(2) [of ?w w] by auto
  show "aligned_ok s ?w" using A(1,2) hh mm by (simp add: aligned_ok_def)
  have sec: "?w mod 60 = 0 \<longleftrightarrow> second_of ?w = 0" by (simp add: second_of_def)
  have nz: "?w mod 86400 \<noteq> 0" "?w mod 3600 \<noteq> 0" if "second_of ?w \<noteq> 0" using that aligned_clock [of ?w] sec by simp_all
  show "passed s (if second_of ?w = 0 then WRAP else SecondLoop) ?w"
    using A(4,5) d hh mm sec nz by (cases "second_of ?w = 0") simp_all
  show "year_of ?w \<le> limit + (if (if second_of ?w = 0 then WRAP else SecondLoop) = WRAP then 1 else 0)"
    using A(3,4) y nz(1) by (cases "second_of ?w = 0") simp_all
qed

text \<open>
  What the search has found when it ends at a second \<open>w\<close>: nothing matches from \<open>start\<close> on
  before \<open>w\<close>, and \<open>w\<close> matches or is beyond the year limit.
\<close>

definition search_result :: "'z SpecSchedule \<Rightarrow> int \<Rightarrow> int \<Rightarrow> int option \<Rightarrow> bool" where
  "search_result s limit start r =
     (case r of
        None \<Rightarrow> \<forall>v\<ge>start. matches s v \<longrightarrow> limit < year_of v
      | Some w \<Rightarrow> start \<le> w \<and> matches s w \<and> year_of w \<le> limit \<and> (\<forall>v. start \<le> v \<and> v < w \<longrightarrow> \<not> matches s v))"

text \<open>The location in which a schedule reads the clock.\<close>

definition sched_loc :: "'z SpecSchedule \<Rightarrow> 'z Time \<Rightarrow> 'z location" where
  "sched_loc s t = (case Location s of Local \<Rightarrow> tloc t | l \<Rightarrow> l)"

context fixed_zone
begin

abbreviation at :: "int \<Rightarrow> 'z Time" where
  "at \<equiv> at_wall loc off"

text \<open>
  One step from the second \<open>w\<close>: the search ends with a result, or goes on with its invariant at a
  later second, or at the same one further down the loops.
\<close>

abbreviation advances :: "'z SpecSchedule \<Rightarrow> int \<Rightarrow> int \<Rightarrow> next_pc \<Rightarrow> bool \<Rightarrow> int \<Rightarrow> bool" where
  "advances s limit start pc added w \<equiv>
    (\<exists>r. next_step lookup s loc limit pc added (at w) = Inl (map_option at r) \<and> search_result s limit start r) \<or>
    (\<exists>pc' added' w'. next_step lookup s loc limit pc added (at w) = Inr (pc', added', at w') \<and>
       search_inv s limit start pc' added' w' \<and> (w < w' \<or> w' = w \<and> pc_rank pc' < pc_rank pc))"

lemma next_step_WRAP:
  assumes inv: "search_inv s limit start WRAP added w"
  shows "advances s limit start WRAP added w"
proof (cases "limit < year_of w")
  case True
  have "limit < year_of v" if "start \<le> v" "matches s v" for v
  proof -
    have "w \<le> v" using inv that by (force simp: search_inv_def not_le)
    then have "year_of w \<le> year_of v" by (rule year_of_mono)
    with True show ?thesis by simp
  qed
  then have "search_result s limit start None" by (simp add: search_result_def)
  moreover have "next_step lookup s loc limit WRAP added (at w) = Inl (map_option at None)"
    using True by (simp add: next_step_def)
  ultimately show ?thesis by blast
next
  case False
  with inv have "search_inv s limit start MonthLoop added w" by (simp add: search_inv_def)
  with False show ?thesis by (auto simp: next_step_def)
qed

lemma next_step_MonthLoop:
  assumes inv: "search_inv s limit start MonthLoop added w"
  shows "advances s limit start MonthLoop added w"
proof (cases "has_bit (month_of w) (Month s)")
  case True
  with inv have "search_inv s limit start DayLoop added w" by (simp add: search_inv_def)
  with True show ?thesis by (auto simp: next_step_def)
next
  case False
  with inv have "added \<Longrightarrow> w = month_start w" by (simp add: search_inv_def aligned_ok_def)
  from month_body_at [OF this] False
  have "next_step lookup s loc limit MonthLoop added (at w) =
      Inr (if month_of (month_end w) = 1 then WRAP else MonthLoop, True, at (month_end w))"
    by (simp add: next_step_def)
  then show ?thesis using month_step_inv [OF inv False] month_end_later(1) [of w] by blast
qed

lemma next_step_DayLoop:
  assumes inv: "search_inv s limit start DayLoop added w"
  shows "advances s limit start DayLoop added w"
proof (cases "day_ok s w")
  case True
  with inv have "search_inv s limit start HourLoop added w" by (simp add: search_inv_def)
  with True show ?thesis by (auto simp: next_step_def)
next
  case False
  with inv have "added \<Longrightarrow> w mod 86400 = 0" by (simp add: search_inv_def aligned_ok_def)
  from day_body_at [OF this] False
  have "next_step lookup s loc limit DayLoop added (at w) =
      Inr (if day_of (next_unit 86400 w) = 1 then WRAP else DayLoop, True, at (next_unit 86400 w))"
    by (simp add: next_step_def next_unit_def)
  moreover have "w < next_unit 86400 w" by (simp add: next_unit_basic)
  ultimately show ?thesis using day_step_inv [OF inv False] by blast
qed

lemma next_step_HourLoop:
  assumes inv: "search_inv s limit start HourLoop added w"
  shows "advances s limit start HourLoop added w"
proof (cases "has_bit (hour_of w) (Hour s)")
  case True
  with inv have "search_inv s limit start MinuteLoop added w" by (simp add: search_inv_def)
  with True show ?thesis by (auto simp: next_step_def)
next
  case False
  with inv have "added \<Longrightarrow> w mod 3600 = 0" by (simp add: search_inv_def aligned_ok_def)
  from hour_body_at [OF this] False
  have "next_step lookup s loc limit HourLoop added (at w) =
      Inr (if hour_of (next_unit 3600 w) = 0 then WRAP else HourLoop, True, at (next_unit 3600 w))"
    by (simp add: next_step_def next_unit_def)
  moreover have "w < next_unit 3600 w" by (simp add: next_unit_basic)
  ultimately show ?thesis using hour_step_inv [OF inv False] by blast
qed

lemma next_step_MinuteLoop:
  assumes inv: "search_inv s limit start MinuteLoop added w"
  shows "advances s limit start MinuteLoop added w"
proof (cases "has_bit (minute_of w) (Minute s)")
  case True
  with inv have "search_inv s limit start SecondLoop added w" by (simp add: search_inv_def)
  with True show ?thesis by (auto simp: next_step_def)
next
  case False
  with inv have "added \<Longrightarrow> w mod 60 = 0" by (simp add: search_inv_def aligned_ok_def)
  from minute_body_at [OF this] False
  have "next_step lookup s loc limit MinuteLoop added (at w) =
      Inr (if minute_of (next_unit 60 w) = 0 then WRAP else MinuteLoop, True, at (next_unit 60 w))"
    by (simp add: next_step_def next_unit_def)
  moreover have "w < next_unit 60 w" by (simp add: next_unit_basic)
  ultimately show ?thesis using minute_step_inv [OF inv False] by blast
qed

lemma next_step_SecondLoop:
  assumes inv: "search_inv s limit start SecondLoop added w"
  shows "advances s limit start SecondLoop added w"
proof (cases "has_bit (second_of w) (Second s)")
  case True
  with inv have "search_result s limit start (Some w)"
    by (auto simp: search_inv_def search_result_def matches_def)
  moreover have "next_step lookup s loc limit SecondLoop added (at w) = Inl (map_option at (Some w))"
    using True by (simp add: next_step_def)
  ultimately show ?thesis by blast
next
  case False
  from second_body_at [of added w] False
  have "next_step lookup s loc limit SecondLoop added (at w) =
      Inr (if second_of (w + 1) = 0 then WRAP else SecondLoop, True, at (w + 1))"
    by (simp add: next_step_def)
  moreover have "w < w + 1" by simp
  ultimately show ?thesis using second_step_inv [OF inv False] by blast
qed

lemma next_step_inv:
  assumes "search_inv s limit start pc added w"
  shows "advances s limit start pc added w"
  using assms by (cases pc) (simp_all only: next_step_WRAP next_step_MonthLoop next_step_DayLoop next_step_HourLoop next_step_MinuteLoop next_step_SecondLoop)

text \<open>The search ends: time moves towards the end of the year after the limit.\<close>

lemma Next_loop_result:
  assumes "search_inv s limit start pc added w"
  shows "\<exists>r. Next_loop lookup s loc limit pc added (at w) = Some (map_option at r) \<and> search_result s limit start r"
  using assms
proof (induction "(nat (days_before_year (limit + 2) * 86400 - w), pc_rank pc)" arbitrary: pc added w
    rule: wf_induct_rule [OF wf_lex_prod [OF wf_less_than wf_less_than]])
  case (1 pc w added)
  from next_step_inv [OF "1.prems"] consider
    (found) r where "next_step lookup s loc limit pc added (at w) = Inl (map_option at r)" "search_result s limit start r"
  | (moves) pc' added' w' where "next_step lookup s loc limit pc added (at w) = Inr (pc', added', at w')"
      "search_inv s limit start pc' added' w'" "w < w' \<or> w' = w \<and> pc_rank pc' < pc_rank pc"
    by blast
  then show ?case
  proof cases
    case found
    then show ?thesis by (subst Next_loop.simps) auto
  next
    case (moves pc' added' w')
    note st = moves(1) and inv = moves(2) and less = moves(3)
    have "year_of w < limit + 2" using "1.prems" by (auto simp: search_inv_def split: if_splits)
    have "w < days_before_year (limit + 2) * 86400"
    proof (rule ccontr)
      assume "\<not> ?thesis"
      then have "year_of (days_before_year (limit + 2) * 86400) \<le> year_of w" by (intro year_of_mono) simp
      with \<open>year_of w < limit + 2\<close> show False by (simp add: year_start)
    qed
    with less have "((nat (days_before_year (limit + 2) * 86400 - w'), pc_rank pc'),
        (nat (days_before_year (limit + 2) * 86400 - w), pc_rank pc)) \<in> less_than <*lex*> less_than" by auto
    from "1.hyps" [OF this inv] st show ?thesis by (subst Next_loop.simps) simp
  qed
qed

lemma Next_in_zone:
  assumes "sched_loc s t = loc"
  defines "start \<equiv> wall lookup (Time_In loc t) + 1"
  shows "\<exists>r. SpecSchedule_Next lookup s t =
      Some (case r of None \<Rightarrow> zero_Time | Some w \<Rightarrow> Time_In (tloc t) (at w)) \<and>
    search_result s (year_of start + 5) start r"
proof -
  have "nanos t + (Second_d - nanos t mod Second_d) = (unix_sec t + 1) * Second_d"
    by (simp add: unix_sec_def distrib_right minus_mod_eq_div_mult [symmetric])
  then have first: "Time_Add (1 * Second_d - Nanosecond_t (Time_In loc t) * Nanosecond) (Time_In loc t) = at start"
    by (simp add: Time_Add_def Time_In_def Nanosecond_t_def Nanosecond_def at_wall_def start_def wall_def
        unix_sec_def offset_const)
  have inv: "search_inv s (year_of start + 5) start WRAP False start" by (auto simp: search_inv_def)
  from Next_loop_result [OF inv] obtain r where
    r: "Next_loop lookup s loc (year_of start + 5) WRAP False (at start) = Some (map_option at r)"
    "search_result s (year_of start + 5) start r" by blast
  have locs: "(case Location s of Local \<Rightarrow> tloc t | l \<Rightarrow> l) = loc"
    "(case Location s of Local \<Rightarrow> t | l \<Rightarrow> Time_In l t) = Time_In loc t"
    using assms(1) by (auto simp: sched_loc_def Time_In_def split: location.splits)
  have "SpecSchedule_Next lookup s t = Some (case r of None \<Rightarrow> zero_Time | Some w \<Rightarrow> Time_In (tloc t) (at w))"
    unfolding SpecSchedule_Next_def Let_def locs first fields_at r(1) by (cases r) simp_all
  with r(2) show ?thesis by blast
qed

end

text \<open>UTC is such a location, whatever the time zone database says.\<close>

interpretation utc: fixed_zone lookup UTC 0 for lookup
  by unfold_locales (simp_all add: offset_def)

end
