(* ===== verification/CronParser.thy ===== *)
theory CronParser
  imports Schedule
begin

text \<open>
  The parser of package cron (\<^verbatim>\<open>cron/parser.go\<close>): from a crontab line to the bit sets of a
  schedule. Every error the code returns is a constructor, a panic of the code is the
  constructor \<open>ParsePanic\<close>, and \<^const>\<open>None\<close> is a call that does not return (the loop of
  \<^verbatim>\<open>getBits\<close> has no bound of its own). The time zone database is a parameter.
\<close>

datatype parse_error =
    EmptySpec
  | BadLocation string string
  | NoDescriptors string
  | MultipleOptionals
  | ExpectedExactly int nat "string list"
  | ExpectedRange int int nat "string list"
  | UnknownOptional
  | TooManyHyphens string
  | TooManySlashes string
  | BelowMinimum uint64 uint64 string
  | AboveMaximum uint64 uint64 string
  | BeyondEnd uint64 uint64 string
  | ZeroStep string
  | NotAnInt string num_error
  | NegativeNumber int string
  | BadDuration string duration_error
  | UnrecognizedDescriptor string
  | ParsePanic go_panic

section \<open>Options\<close>

type_synonym ParseOption = int

definition Second_opt :: ParseOption where "Second_opt = 1"
definition SecondOptional :: ParseOption where "SecondOptional = 2"
definition Minute_opt :: ParseOption where "Minute_opt = 4"
definition Hour_opt :: ParseOption where "Hour_opt = 8"
definition Dom_opt :: ParseOption where "Dom_opt = 16"
definition Month_opt :: ParseOption where "Month_opt = 32"
definition Dow_opt :: ParseOption where "Dow_opt = 64"
definition DowOptional :: ParseOption where "DowOptional = 128"
definition Descriptor :: ParseOption where "Descriptor = 256"

definition places :: "ParseOption list" where
  "places = [Second_opt, Minute_opt, Hour_opt, Dom_opt, Month_opt, Dow_opt]"

definition defaults :: "string list" where
  "defaults = [''0'', ''0'', ''0'', ''*'', ''*'', ''*'']"

record Parser =
  options :: ParseOption

definition NewParser :: "ParseOption \<Rightarrow> string + Parser" where
  "NewParser opts =
     (let optionals = (if opts AND DowOptional > 0 then 1 else 0) + (if opts AND SecondOptional > 0 then 1 else 0)
      in if optionals > (1 :: int) then Inl ''multiple optionals may not be configured''
         else Inr \<lparr>options = opts\<rparr>)"

section \<open>Numbers and ranges\<close>

definition mustParseInt :: "string \<Rightarrow> parse_error + uint64" where
  "mustParseInt expr =
     (case Atoi expr of
        Inl e \<Rightarrow> Inl (NotAnInt expr e)
      | Inr num \<Rightarrow> if num < 0 then Inl (NegativeNumber num expr) else Inr (word_of_int num))"

definition parseIntOrName :: "string \<Rightarrow> (string \<times> uint64) list option \<Rightarrow> parse_error + uint64" where
  "parseIntOrName expr nms =
     (case Option.bind nms (\<lambda>m. map_of m (ToLower expr)) of
        Some namedInt \<Rightarrow> Inr namedInt
      | None \<Rightarrow> mustParseInt expr)"

partial_function (option) getBits_loop :: "uint64 \<Rightarrow> uint64 \<Rightarrow> uint64 \<Rightarrow> uint64 \<Rightarrow> uint64 option" where
  "getBits_loop hi step i bits =
     (if i \<le> hi then getBits_loop hi step (i + step) (bits OR push_bit (unat i) 1)
      else Some bits)"

declare getBits_loop.simps [code]

definition getBits :: "uint64 \<Rightarrow> uint64 \<Rightarrow> uint64 \<Rightarrow> uint64 option" where
  "getBits lo hi step =
     (if step = 1
      then Some (NOT (push_bit (unat (hi + 1)) (- 1)) AND push_bit (unat lo) (- 1))
      else getBits_loop hi step lo 0)"

definition all_bits :: "bounds \<Rightarrow> uint64 option" where
  "all_bits r = map_option (\<lambda>b. b OR starBit) (getBits (bmin r) (bmax r) 1)"

text \<open>The part of \<^verbatim>\<open>getRange\<close> before the slash: start, end and the star bit.\<close>

definition range_bounds :: "string \<Rightarrow> string list \<Rightarrow> bounds \<Rightarrow> parse_error + uint64 \<times> uint64 \<times> uint64" where
  "range_bounds expr lowAndHigh r =
     (if hd lowAndHigh = ''*'' \<or> hd lowAndHigh = ''?'' then Inr (bmin r, bmax r, starBit)
      else case parseIntOrName (hd lowAndHigh) (names r) of
        Inl e \<Rightarrow> Inl e
      | Inr start \<Rightarrow>
          if length lowAndHigh = 1 then Inr (start, start, 0)
          else if length lowAndHigh = 2 then
            (case parseIntOrName (lowAndHigh ! 1) (names r) of
               Inl e \<Rightarrow> Inl e
             | Inr end \<Rightarrow> Inr (start, end, 0))
          else Inl (TooManyHyphens expr))"

text \<open>The part after the slash: the step, and what it does to the end and the star bit.\<close>

definition range_step ::
    "string \<Rightarrow> string list \<Rightarrow> bool \<Rightarrow> bounds \<Rightarrow> uint64 \<Rightarrow> uint64 \<Rightarrow> parse_error + uint64 \<times> uint64 \<times> uint64" where
  "range_step expr rangeAndStep singleDigit r end extra =
     (if length rangeAndStep = 1 then Inr (1, end, extra)
      else if length rangeAndStep = 2 then
        (case mustParseInt (rangeAndStep ! 1) of
           Inl e \<Rightarrow> Inl e
         | Inr step \<Rightarrow>
             Inr (step, if singleDigit then bmax r else end, if step > 1 then 0 else extra))
      else Inl (TooManySlashes expr))"

definition getRange :: "string \<Rightarrow> bounds \<Rightarrow> (parse_error + uint64) option" where
  "getRange expr r =
     (let rangeAndStep = strings_Split CHR ''/'' expr;
          lowAndHigh = strings_Split CHR ''-'' (hd rangeAndStep);
          singleDigit = (length lowAndHigh = 1)
      in case range_bounds expr lowAndHigh r of
           Inl e \<Rightarrow> Some (Inl e)
         | Inr (start, end, extra) \<Rightarrow>
             (case range_step expr rangeAndStep singleDigit r end extra of
                Inl e \<Rightarrow> Some (Inl e)
              | Inr (step, end, extra) \<Rightarrow>
                  if start < bmin r then Some (Inl (BelowMinimum start (bmin r) expr))
                  else if end > bmax r then Some (Inl (AboveMaximum end (bmax r) expr))
                  else if start > end then Some (Inl (BeyondEnd start end expr))
                  else if step = 0 then Some (Inl (ZeroStep expr))
                  else map_option (\<lambda>b. Inr (b OR extra)) (getBits start end step)))"

fun getField_loop :: "bounds \<Rightarrow> uint64 \<Rightarrow> string list \<Rightarrow> (parse_error + uint64) option" where
  "getField_loop r bits [] = Some (Inr bits)"
| "getField_loop r bits (expr # exprs) =
     (case getRange expr r of
        None \<Rightarrow> None
      | Some (Inl e) \<Rightarrow> Some (Inl e)
      | Some (Inr b) \<Rightarrow> getField_loop r (bits OR b) exprs)"

definition getField :: "string \<Rightarrow> bounds \<Rightarrow> (parse_error + uint64) option" where
  "getField field r = getField_loop r 0 (FieldsFunc CHR '','' field)"

section \<open>Fields\<close>

fun expandFields :: "ParseOption \<Rightarrow> (ParseOption \<times> string) list \<Rightarrow> string list \<Rightarrow> parse_error + string list" where
  "expandFields opts [] flds = Inr []"
| "expandFields opts ((place, dflt) # ps) flds =
     (if opts AND place > 0 then
        (case flds of
           [] \<Rightarrow> Inl (ParsePanic IndexOutOfRange)
         | f # fs \<Rightarrow> map_sum id (\<lambda>es. f # es) (expandFields opts ps fs))
      else map_sum id (\<lambda>es. dflt # es) (expandFields opts ps flds))"

definition normalizeFields :: "string list \<Rightarrow> ParseOption \<Rightarrow> parse_error + string list" where
  "normalizeFields flds opts =
     (let optSecond = (opts AND SecondOptional > 0);
          opts = (if optSecond then opts OR Second_opt else opts);
          optDow = (opts AND DowOptional > 0);
          opts = (if optDow then opts OR Dow_opt else opts);
          optionals = (if optSecond then 1 else 0) + (if optDow then 1 else (0 :: int))
      in if optionals > 1 then Inl MultipleOptionals
         else
           let hi = int (length (filter (\<lambda>place. opts AND place > 0) places));
               lo = hi - optionals;
               count = length flds
           in if int count < lo \<or> int count > hi then
                (if lo = hi then Inl (ExpectedExactly lo count flds)
                 else Inl (ExpectedRange lo hi count flds))
              else
                let filled =
                  (if lo < hi \<and> int count = lo then
                     (if opts AND DowOptional > 0 then Inr (flds @ [defaults ! 5])
                      else if opts AND SecondOptional > 0 then Inr ((defaults ! 0) # flds)
                      else Inl UnknownOptional)
                   else Inr flds)
                in case filled of
                     Inl e \<Rightarrow> Inl e
                   | Inr flds \<Rightarrow> expandFields opts (zip places defaults) flds)"

section \<open>Descriptors\<close>

definition spec_of :: "uint64 \<Rightarrow> uint64 \<Rightarrow> uint64 \<Rightarrow> uint64 \<Rightarrow> uint64 \<Rightarrow> uint64 \<Rightarrow> 'z location \<Rightarrow> 'z schedule" where
  "spec_of s mi h d mo w loc =
     Spec \<lparr>Second = s, Minute = mi, Hour = h, Dom = d, Month = mo, Dow = w, Location = loc\<rparr>"

definition one_bit :: "bounds \<Rightarrow> uint64" where
  "one_bit r = push_bit (unat (bmin r)) 1"

definition all_field :: "bounds \<Rightarrow> (uint64 \<Rightarrow> (parse_error + 'z schedule) option) \<Rightarrow> (parse_error + 'z schedule) option" where
  "all_field r k = Option.bind (all_bits r) k"

definition every_prefix :: string where
  "every_prefix = ''@every ''"

definition parseDescriptor :: "string \<Rightarrow> 'z location \<Rightarrow> (parse_error + 'z schedule) option" where
  "parseDescriptor descriptor loc =
     (if descriptor = ''@yearly'' \<or> descriptor = ''@annually'' then
        all_field dow (\<lambda>w. Some (Inr (spec_of
          (one_bit seconds) (one_bit minutes) (one_bit hours) (one_bit dom_bounds) (one_bit months) w loc)))
      else if descriptor = ''@monthly'' then
        all_field months (\<lambda>mo. all_field dow (\<lambda>w. Some (Inr (spec_of
          (one_bit seconds) (one_bit minutes) (one_bit hours) (one_bit dom_bounds) mo w loc))))
      else if descriptor = ''@weekly'' then
        all_field dom_bounds (\<lambda>d. all_field months (\<lambda>mo. Some (Inr (spec_of
          (one_bit seconds) (one_bit minutes) (one_bit hours) d mo (one_bit dow) loc))))
      else if descriptor = ''@daily'' \<or> descriptor = ''@midnight'' then
        all_field dom_bounds (\<lambda>d. all_field months (\<lambda>mo. all_field dow (\<lambda>w. Some (Inr (spec_of
          (one_bit seconds) (one_bit minutes) (one_bit hours) d mo w loc)))))
      else if descriptor = ''@hourly'' then
        all_field hours (\<lambda>h. all_field dom_bounds (\<lambda>d. all_field months (\<lambda>mo. all_field dow (\<lambda>w.
          Some (Inr (spec_of (one_bit seconds) (one_bit minutes) h d mo w loc))))))
      else if HasPrefix descriptor every_prefix then
        (case ParseDuration (drop (length every_prefix) descriptor) of
           Inl e \<Rightarrow> Some (Inl (BadDuration descriptor e))
         | Inr duration \<Rightarrow> Some (Inr (ConstantDelay (Every duration))))
      else Some (Inl (UnrecognizedDescriptor descriptor)))"

section \<open>\<^verbatim>\<open>Parse\<close>\<close>

text \<open>
  \<^verbatim>\<open>time.LoadLocation\<close>: the fixed names, the names it refuses, and the database otherwise.
\<close>

definition containsDotDot :: "string \<Rightarrow> bool" where
  "containsDotDot s \<longleftrightarrow> (\<exists>i<length s - 1. s ! i = CHR ''.'' \<and> s ! Suc i = CHR ''.'')"

definition LoadLocation :: "(string \<Rightarrow> string + 'z) \<Rightarrow> string \<Rightarrow> string + 'z location" where
  "LoadLocation tzload name =
     (if name = [] \<or> name = ''UTC'' then Inr UTC
      else if name = ''Local'' then Inr Local
      else if containsDotDot name \<or> hd name = CHR ''/'' \<or> hd name = CHR 0x5C
        then Inl ''time: invalid location name''
      else map_sum id Zone (tzload name))"

fun getFields :: "(string \<times> bounds) list \<Rightarrow> (parse_error + uint64 list) option" where
  "getFields [] = Some (Inr [])"
| "getFields ((f, r) # frs) =
     (case getField f r of
        None \<Rightarrow> None
      | Some (Inl e) \<Rightarrow> Some (Inl e)
      | Some (Inr bits) \<Rightarrow> map_option (map_sum id (\<lambda>bs. bits # bs)) (getFields frs))"

definition field_bounds :: "bounds list" where
  "field_bounds = [seconds, minutes, hours, dom_bounds, months, dow]"

text \<open>The body of \<^verbatim>\<open>Parse\<close> after the time zone has been taken off the line.\<close>

definition Parse_in :: "Parser \<Rightarrow> 'z location \<Rightarrow> string \<Rightarrow> (parse_error + 'z schedule) option" where
  "Parse_in p loc spec =
     (if HasPrefix spec ''@'' then
        (if options p AND Descriptor = 0 then Some (Inl (NoDescriptors spec))
         else parseDescriptor spec loc)
      else
        case normalizeFields (Fields spec) (options p) of
          Inl e \<Rightarrow> Some (Inl e)
        | Inr flds \<Rightarrow>
            (case getFields (zip flds field_bounds) of
               None \<Rightarrow> None
             | Some (Inl e) \<Rightarrow> Some (Inl e)
             | Some (Inr [s, mi, h, d, mo, w]) \<Rightarrow> Some (Inr (spec_of s mi h d mo w loc))
             | Some (Inr _) \<Rightarrow> Some (Inl (ParsePanic IndexOutOfRange))))"

definition Parser_Parse :: "(string \<Rightarrow> string + 'z) \<Rightarrow> Parser \<Rightarrow> string \<Rightarrow> (parse_error + 'z schedule) option" where
  "Parser_Parse tzload p spec =
     (if length spec = 0 then Some (Inl EmptySpec)
      else if HasPrefix spec ''TZ='' \<or> HasPrefix spec ''CRON_TZ='' then
        (let i = strings_Index spec CHR '' ''; eq = strings_Index spec CHR ''='' in
         case go_slice spec (eq + 1) i of
           Inl e \<Rightarrow> Some (Inl (ParsePanic e))
         | Inr name \<Rightarrow>
             (case LoadLocation tzload name of
                Inl e \<Rightarrow> Some (Inl (BadLocation name e))
              | Inr loc \<Rightarrow>
                  (case go_slice spec i (int (length spec)) of
                     Inl e \<Rightarrow> Some (Inl (ParsePanic e))
                   | Inr rest \<Rightarrow> Parse_in p loc (TrimSpace rest))))
      else Parse_in p Local spec)"

definition standardParser :: Parser where
  "standardParser = \<lparr>options = Minute_opt OR Hour_opt OR Dom_opt OR Month_opt OR Dow_opt OR Descriptor\<rparr>"

definition ParseStandard :: "(string \<Rightarrow> string + 'z) \<Rightarrow> string \<Rightarrow> (parse_error + 'z schedule) option" where
  "ParseStandard tzload standardSpec = Parser_Parse tzload standardParser standardSpec"

end
