(* ===== verification/ParserLemmas.thy ===== *)
theory ParserLemmas
  imports CronParser
begin

text \<open>
  Lemmas about the parser: the bit sets that \<^verbatim>\<open>getBits\<close> builds, the shape of what
  \<^verbatim>\<open>getRange\<close> and \<^verbatim>\<open>getField\<close> return, and the number of fields after normalisation.
\<close>

section \<open>\<^verbatim>\<open>getBits\<close>\<close>

text \<open>The arithmetic progression a range stands for.\<close>

definition in_range :: "nat \<Rightarrow> nat \<Rightarrow> nat \<Rightarrow> nat \<Rightarrow> bool" where
  "in_range lo hi step k \<longleftrightarrow> lo \<le> k \<and> k \<le> hi \<and> step dvd (k - lo)"

lemma in_range_unfold:
  assumes "0 < step" "lo \<le> hi"
  shows "in_range lo hi step k \<longleftrightarrow> k = lo \<or> in_range (lo + step) hi step k"
proof -
  have "step dvd (k - lo) \<Longrightarrow> lo < k \<Longrightarrow> lo + step \<le> k \<and> step dvd (k - (lo + step))"
    using dvd_imp_le [of step "k - lo"] by (metis add_leE diff_diff_left dvd_diff_nat dvd_refl le_add_diff_inverse2 less_imp_le
        nat_add_left_cancel_le zero_less_diff add.commute)
  moreover have "step dvd (k - (lo + step)) \<Longrightarrow> lo + step \<le> k \<Longrightarrow> step dvd (k - lo)"
  proof -
    assume a: "step dvd (k - (lo + step))" "lo + step \<le> k"
    have "k - lo = (k - (lo + step)) + step" using a(2) by simp
    with a(1) show "step dvd (k - lo)" by simp
  qed
  ultimately show ?thesis using assms by (auto simp: in_range_def)
qed

lemma bit_one_shift: "bit (push_bit n 1 :: uint64) k \<longleftrightarrow> k = n \<and> k < 64"
  by (auto simp: push_bit_of_1 bit_exp_iff)

lemma bit_pow2: "bit (2 ^ n :: uint64) k \<longleftrightarrow> k = n \<and> k < 64"
  by (auto simp: bit_exp_iff)

lemma getBits_loop_spec:
  assumes "unat hi + unat step < 2 ^ 64" "0 < unat step"
  shows "\<exists>b. getBits_loop hi step i bits = Some b \<and>
    (\<forall>k<64. bit b k \<longleftrightarrow> bit bits k \<or> in_range (unat i) (unat hi) (unat step) k)"
proof (induction "unat hi + 1 - unat i" arbitrary: i bits rule: less_induct)
  case less
  show ?case
  proof (cases "i \<le> hi")
    case True
    then have le: "unat i \<le> unat hi" by (simp add: word_le_nat_alt)
    then have nxt: "unat (i + step) = unat i + unat step"
      using assms(1) by (simp add: unat_word_ariths)
    then have "unat hi + 1 - unat (i + step) < unat hi + 1 - unat i" using le assms(2) by simp
    from less [OF this, of "bits OR push_bit (unat i) 1"] obtain b where
      b: "getBits_loop hi step (i + step) (bits OR push_bit (unat i) 1) = Some b"
      "\<forall>k<64. bit b k \<longleftrightarrow> bit (bits OR push_bit (unat i) 1) k \<or> in_range (unat (i + step)) (unat hi) (unat step) k"
      by blast
    have "getBits_loop hi step i bits = Some b" using b(1) True by (simp add: getBits_loop.simps [of hi step i])
    moreover have "bit b k \<longleftrightarrow> bit bits k \<or> in_range (unat i) (unat hi) (unat step) k" if "k < 64" for k
      using b(2) that in_range_unfold [OF assms(2) le, of k]
      by (auto simp: bit_or_iff bit_pow2 nxt)
    ultimately show ?thesis by blast
  next
    case False
    then have "\<not> in_range (unat i) (unat hi) (unat step) k" for k
      by (auto simp: in_range_def word_le_nat_alt)
    with False show ?thesis by (simp add: getBits_loop.simps [of hi step i])
  qed
qed

lemma getBits_shift_spec:
  fixes lo hi :: uint64
  assumes "unat hi < 64" "k < 64"
  shows "bit (NOT (push_bit (unat (hi + 1)) (- 1)) AND push_bit (unat lo) (- 1) :: uint64) k \<longleftrightarrow>
    in_range (unat lo) (unat hi) 1 k"
proof -
  have "unat (hi + 1) = unat hi + 1" using assms(1) by (simp add: unat_word_ariths)
  with assms(2) show ?thesis
    by (auto simp: bit_and_iff bit_not_iff bit_mask_iff in_range_def)
qed

lemma getBits_spec:
  assumes "unat hi < 64" "0 < unat step" "unat step < 2 ^ 63"
  obtains b where "getBits lo hi step = Some b"
    "\<And>k. k < 64 \<Longrightarrow> bit b k \<longleftrightarrow> in_range (unat lo) (unat hi) (unat step) k"
proof (cases "step = 1")
  case True
  show thesis
    by (rule that, unfold getBits_def True if_P [OF refl], rule refl)
       (use getBits_shift_spec [OF assms(1), of _ lo] in \<open>simp only: unat_1\<close>)
next
  case False
  have "unat hi + unat step < 2 ^ 64" using assms by simp
  from getBits_loop_spec [OF this assms(2), of lo 0] False that show thesis by (auto simp: getBits_def)
qed

lemma word_bits_eqI: "(\<And>k. k < 64 \<Longrightarrow> bit a k \<longleftrightarrow> bit b k) \<Longrightarrow> a = (b :: uint64)"
  by (rule bit_word_eqI) simp

section \<open>\<^verbatim>\<open>getRange\<close>\<close>

lemma mustParseInt_bound:
  assumes "mustParseInt s = Inr n"
  shows "unat n < 2 ^ 63"
proof -
  obtain num where n: "Atoi s = Inr num" "0 \<le> num" "n = word_of_int num"
    using assms by (auto simp: mustParseInt_def split: sum.splits if_splits)
  then have "num < 2 ^ 63" using Atoi_range by blast
  with n show ?thesis by (simp add: unat_eq_nat_uint uint_word_of_int_eq take_bit_eq_mod nat_less_iff)
qed

text \<open>The bounds of the package: below the star bit.\<close>

definition bounds_ok :: "bounds \<Rightarrow> bool" where
  "bounds_ok r \<longleftrightarrow> bmin r \<le> bmax r \<and> unat (bmax r) < 63"

lemma field_bounds_ok: "r \<in> set field_bounds \<Longrightarrow> bounds_ok r"
  by (auto simp: field_bounds_def bounds_ok_def seconds_def minutes_def hours_def dom_bounds_def
      months_def dow_def)

lemma bit_starBit: "bit starBit k \<longleftrightarrow> k = 63"
  unfolding starBit_def bit_one_shift by auto

text \<open>
  What a range expression denotes: the end points it was read as, the step, and whether the
  star bit is set.
\<close>

definition range_denotes :: "bounds \<Rightarrow> uint64 \<Rightarrow> nat \<Rightarrow> nat \<Rightarrow> nat \<Rightarrow> bool \<Rightarrow> bool" where
  "range_denotes r b lo hi step star \<longleftrightarrow>
     unat (bmin r) \<le> lo \<and> lo \<le> hi \<and> hi \<le> unat (bmax r) \<and> 0 < step \<and>
     (\<forall>k<64. bit b k \<longleftrightarrow> in_range lo hi step k \<or> star \<and> k = 63)"

definition no_panic :: "parse_error \<Rightarrow> bool" where
  "no_panic e \<longleftrightarrow> (\<forall>p. e \<noteq> ParsePanic p)"

lemma no_panic_simps [simp]:
  "no_panic (TooManyHyphens s)" "no_panic (TooManySlashes s)" "no_panic (BelowMinimum a b s)"
  "no_panic (AboveMaximum a b s)" "no_panic (BeyondEnd a b s)" "no_panic (ZeroStep s)"
  "no_panic (NotAnInt s ne)" "no_panic (NegativeNumber i s)" "no_panic (BadDuration s de)"
  "no_panic (UnrecognizedDescriptor s)" "no_panic (NoDescriptors s)" "no_panic EmptySpec"
  "no_panic (BadLocation s t)" "\<not> no_panic (ParsePanic p)"
  by (simp_all add: no_panic_def)

lemma parse_number_no_panic:
  "mustParseInt s = Inl e \<Longrightarrow> no_panic e" "parseIntOrName s nms = Inl e \<Longrightarrow> no_panic e"
  by (auto simp: mustParseInt_def parseIntOrName_def split: sum.splits if_splits option.splits)

lemma getRange_cases:
  assumes r: "bounds_ok r"
  obtains e where "getRange expr r = Some (Inl e)" "no_panic e"
  | b lo hi step star where "getRange expr r = Some (Inr b)" "range_denotes r b lo hi step star"
proof (cases "range_bounds expr (strings_Split CHR ''-'' (hd (strings_Split CHR ''/'' expr))) r")
  case (Inl e)
  then have "no_panic e"
    by (auto simp: range_bounds_def dest: parse_number_no_panic split: if_splits sum.splits)
  with Inl show ?thesis by (intro that(1) [of e]) (simp_all add: getRange_def Let_def)
next
  case (Inr p)
  then obtain start hi0 extra0 where
    low: "range_bounds expr (strings_Split CHR ''-'' (hd (strings_Split CHR ''/'' expr))) r = Inr (start, hi0, extra0)"
    by (metis prod_cases3)
  let ?rs = "strings_Split CHR ''/'' expr"
  let ?sd = "length (strings_Split CHR ''-'' (hd ?rs)) = 1"
  show ?thesis
  proof (cases "range_step expr ?rs ?sd r hi0 extra0")
    case (Inl e)
    then have "no_panic e"
      by (auto simp: range_step_def dest: parse_number_no_panic split: if_splits sum.splits)
    with low Inl show ?thesis by (intro that(1) [of e]) (simp_all add: getRange_def Let_def)
  next
    case (Inr p)
    then obtain step hi extra where
      st: "range_step expr ?rs ?sd r hi0 extra0 = Inr (step, hi, extra)" by (metis prod_cases3)
    have ex: "extra = 0 \<or> extra = starBit"
      using low st by (auto simp: range_bounds_def range_step_def split: if_splits sum.splits)
    have step: "unat step < 2 ^ 63"
      using st mustParseInt_bound by (auto simp: range_step_def split: if_splits sum.splits)
    show ?thesis
    proof (cases "start < bmin r \<or> hi > bmax r \<or> start > hi \<or> step = 0")
      case True
      with low st have "\<exists>e. getRange expr r = Some (Inl e) \<and> no_panic e"
        by (auto simp: getRange_def Let_def)
      with that(1) show ?thesis by blast
    next
      case False
      then have le: "unat (bmin r) \<le> unat start" "unat start \<le> unat hi" "unat hi \<le> unat (bmax r)" "0 < unat step"
        by (auto simp: word_le_nat_alt word_less_nat_alt unat_gt_0)
      have "unat hi < 64" using le(3) r by (simp add: bounds_ok_def)
      from getBits_spec [OF this le(4) step] obtain b where
        b: "getBits start hi step = Some b"
        "\<And>k. k < 64 \<Longrightarrow> bit b k \<longleftrightarrow> in_range (unat start) (unat hi) (unat step) k" by blast
      have "getRange expr r = Some (Inr (b OR extra))"
        using low st False b(1) by (auto simp: getRange_def Let_def)
      moreover have "range_denotes r (b OR extra) (unat start) (unat hi) (unat step) (extra \<noteq> 0)"
        using le b(2) ex by (auto simp: range_denotes_def bit_or_iff bit_starBit)
      ultimately show ?thesis by (rule that(2))
    qed
  qed
qed

section \<open>\<^verbatim>\<open>getField\<close>\<close>

text \<open>The bits of a field lie within its bounds, up to the star bit.\<close>

definition bits_within :: "bounds \<Rightarrow> uint64 \<Rightarrow> bool" where
  "bits_within r b \<longleftrightarrow> (\<forall>k<64. bit b k \<longrightarrow> unat (bmin r) \<le> k \<and> k \<le> unat (bmax r) \<or> k = 63)"

lemma getField_loop_cases:
  assumes "bounds_ok r" "bits_within r bits"
  shows "\<exists>res. getField_loop r bits exprs = Some res \<and>
    (\<forall>b. res = Inr b \<longrightarrow> bits_within r b) \<and> (\<forall>e. res = Inl e \<longrightarrow> no_panic e)"
  using assms(2)
proof (induction exprs arbitrary: bits)
  case (Cons expr exprs)
  from assms(1) show ?case
  proof (cases rule: getRange_cases [where expr = expr])
    case (2 b lo hi step star)
    then have "bits_within r (bits OR b)"
      using Cons.prems by (auto simp: bits_within_def range_denotes_def in_range_def bit_or_iff)
    with 2 Cons.IH show ?thesis by simp
  qed simp
qed simp

lemma getField_cases:
  assumes "bounds_ok r"
  shows "\<exists>res. getField f r = Some res \<and>
    (\<forall>b. res = Inr b \<longrightarrow> bits_within r b) \<and> (\<forall>e. res = Inl e \<longrightarrow> no_panic e)"
  unfolding getField_def by (rule getField_loop_cases [OF assms]) (simp add: bits_within_def)

lemma getFields_cases:
  assumes "\<And>f r. (f, r) \<in> set frs \<Longrightarrow> bounds_ok r"
  shows "\<exists>res. getFields frs = Some res \<and>
    (\<forall>bs. res = Inr bs \<longrightarrow> list_all2 bits_within (map snd frs) bs) \<and>
    (\<forall>e. res = Inl e \<longrightarrow> no_panic e)"
  using assms
proof (induction frs)
  case (Cons fr frs)
  obtain f r where fr: "fr = (f, r)" by fastforce
  obtain res where res: "getField f r = Some res" "\<And>b. res = Inr b \<Longrightarrow> bits_within r b"
    "\<And>e. res = Inl e \<Longrightarrow> no_panic e"
    using getField_cases [of r f] Cons.prems fr by auto
  obtain res' where res': "getFields frs = Some res'" "\<And>bs. res' = Inr bs \<Longrightarrow> list_all2 bits_within (map snd frs) bs"
    "\<And>e. res' = Inl e \<Longrightarrow> no_panic e"
    using Cons by (metis list.set_intros(2))
  from res res' show ?case
    by (cases res; cases res') (auto simp: fr)
qed simp

section \<open>\<^verbatim>\<open>normalizeFields\<close>\<close>

lemma map_sum_eq_Inr: "map_sum id f x = Inr y \<longleftrightarrow> (\<exists>z. x = Inr z \<and> y = f z)"
  by (cases x) auto

lemma expandFields_length:
  "expandFields opts ps fs = Inr es \<Longrightarrow> length es = length ps"
  by (induction opts ps fs arbitrary: es rule: expandFields.induct)
     (auto split: if_splits list.splits simp: map_sum_eq_Inr)

lemma expandFields_enough:
  "length (filter (\<lambda>(place, dflt). opts AND place > 0) ps) \<le> length fs \<Longrightarrow> \<exists>es. expandFields opts ps fs = Inr es"
  by (induction opts ps fs rule: expandFields.induct) (auto split: list.splits)

text \<open>Once the count of fields is right, exactly the configured places are filled.\<close>

lemma normalizeFields_cases:
  obtains e where "normalizeFields fs opts = Inl e" "no_panic e"
  | o' gs where "normalizeFields fs opts = expandFields o' (zip places defaults) gs"
    "length (filter (\<lambda>place. o' AND place > 0) places) = length gs"
proof -
  let ?n = "\<lambda>o'. int (length (filter (\<lambda>place. o' AND place > 0) places))"
  define os where "os = (opts AND SecondOptional > 0)"
  define o1 where "o1 = (if os then opts OR Second_opt else opts)"
  define od where "od = (o1 AND DowOptional > 0)"
  define o2 where "o2 = (if od then o1 OR Dow_opt else o1)"
  define n where "n = (if os then 1 else 0) + (if od then 1 else (0 :: int))"
  define hi where "hi = ?n o2"
  define filled where "filled =
    (if hi - n < hi \<and> int (length fs) = hi - n then
       (if o2 AND DowOptional > 0 then Inr (fs @ [defaults ! 5])
        else if o2 AND SecondOptional > 0 then Inr ((defaults ! 0) # fs)
        else Inl UnknownOptional)
     else (Inr fs :: parse_error + string list))"
  have eq: "normalizeFields fs opts =
    (if n > 1 then Inl MultipleOptionals
     else if int (length fs) < hi - n \<or> int (length fs) > hi then
       (if hi - n = hi then Inl (ExpectedExactly (hi - n) (length fs) fs)
        else Inl (ExpectedRange (hi - n) hi (length fs) fs))
     else case filled of Inl e \<Rightarrow> Inl e | Inr gs \<Rightarrow> expandFields o2 (zip places defaults) gs)"
    unfolding normalizeFields_def Let_def os_def [symmetric] o1_def [symmetric] od_def [symmetric]
      o2_def [symmetric] n_def [symmetric] hi_def [symmetric] filled_def [symmetric] ..
  show thesis
  proof (cases "n > 1 \<or> int (length fs) < hi - n \<or> int (length fs) > hi")
    case True
    let ?e = "if n > 1 then MultipleOptionals
      else if hi - n = hi then ExpectedExactly (hi - n) (length fs) fs
      else ExpectedRange (hi - n) hi (length fs) fs"
    have "normalizeFields fs opts = Inl ?e" using True by (auto simp: eq)
    moreover have "no_panic ?e" by (simp add: no_panic_def)
    ultimately show thesis by (rule that(1))
  next
    case False
    have n: "0 \<le> n" "n = 0 \<or> n = 1" using False by (auto simp: n_def)
    show thesis
    proof (cases filled)
      case (Inl e)
      then have "e = UnknownOptional" by (simp add: filled_def split: if_splits)
      with Inl False show thesis by (intro that(1) [of e]) (auto simp: eq no_panic_def)
    next
      case (Inr gs)
      then have "hi = int (length gs)" using False n by (auto simp: filled_def split: if_splits)
      with Inr False that(2) [of o2 gs] show thesis by (auto simp: eq hi_def)
    qed
  qed
qed

lemma filter_places:
  "length (filter (\<lambda>(place, dflt). opts AND place > 0) (zip places defaults)) =
   length (filter (\<lambda>place. opts AND place > 0) places)"
  by (simp add: places_def defaults_def)

lemma normalizeFields_result:
  "(\<exists>e. normalizeFields fs opts = Inl e \<and> no_panic e) \<or>
   (\<exists>es. normalizeFields fs opts = Inr es \<and> length es = 6)"
proof (cases rule: normalizeFields_cases [of fs opts])
  case (2 o' gs)
  from expandFields_enough [of o' "zip places defaults" gs] 2(2) obtain es
    where "expandFields o' (zip places defaults) gs = Inr es" by (auto simp: filter_places)
  with 2(1) expandFields_length [OF this] show ?thesis by (simp add: places_def defaults_def)
qed auto

end
