(* ===== verification/ParserProps.thy ===== *)
theory ParserProps
  imports ParserLemmas
begin

text \<open>
  The properties of the crontab parser: it always returns, what it returns is within bounds,
  it inverts printing, and its descriptors are the documented lines.
\<close>

section \<open>Parsing always returns\<close>

lemma all_bits_defined: "bounds_ok r \<Longrightarrow> \<exists>b. all_bits r = Some b \<and> bits_within r b"
proof -
  assume r: "bounds_ok r"
  then have hi: "unat (bmax r) < 64" by (simp add: bounds_ok_def)
  from getBits_spec [OF hi, of 1 "bmin r"] obtain b where
    b: "getBits (bmin r) (bmax r) 1 = Some b"
    "\<And>k. k < 64 \<Longrightarrow> bit b k \<longleftrightarrow> in_range (unat (bmin r)) (unat (bmax r)) (unat (1 :: uint64)) k" by auto
  then show ?thesis by (auto simp: all_bits_def bits_within_def bit_or_iff bit_starBit in_range_def)
qed

lemma one_bit_within: "bounds_ok r \<Longrightarrow> bits_within r (one_bit r)"
  by (auto simp: bits_within_def one_bit_def bit_pow2 bounds_ok_def word_le_nat_alt)

text \<open>A schedule whose bits lie within the bounds of their fields.\<close>

definition spec_within :: "'z SpecSchedule \<Rightarrow> bool" where
  "spec_within s \<longleftrightarrow>
     bits_within seconds (Second s) \<and> bits_within minutes (Minute s) \<and> bits_within hours (Hour s) \<and>
     bits_within dom_bounds (Dom s) \<and> bits_within months (Month s) \<and> bits_within dow (Dow s)"

definition schedule_within :: "'z schedule \<Rightarrow> bool" where
  "schedule_within sc = (case sc of Spec s \<Rightarrow> spec_within s | ConstantDelay c \<Rightarrow> Delay c \<ge> Second_d)"

definition good_result :: "(parse_error + 'z schedule) option \<Rightarrow> bool" where
  "good_result res \<longleftrightarrow>
     (case res of None \<Rightarrow> False | Some (Inl e) \<Rightarrow> no_panic e | Some (Inr sc) \<Rightarrow> schedule_within sc)"

lemma field_bounds_each:
  "bounds_ok seconds" "bounds_ok minutes" "bounds_ok hours" "bounds_ok dom_bounds" "bounds_ok months" "bounds_ok dow"
  by (simp_all add: field_bounds_ok field_bounds_def)

lemma all_field_good:
  assumes "bounds_ok r" "\<And>b. bits_within r b \<Longrightarrow> good_result (k b)"
  shows "good_result (all_field r k)"
  using all_bits_defined [OF assms(1)] assms(2) by (auto simp: all_field_def)

lemma spec_of_good:
  assumes "bits_within seconds s" "bits_within minutes mi" "bits_within hours h" "bits_within dom_bounds d"
    "bits_within months mo" "bits_within dow w"
  shows "good_result (Some (Inr (spec_of s mi h d mo w loc)))"
  using assms by (simp add: good_result_def schedule_within_def spec_of_def spec_within_def)

lemma Every_at_least: "Second_d \<le> Delay (Every d)"
proof (cases "d < Second_d")
  case False
  then have "1 \<le> d div Second_d" by (simp add: Second_d_def)
  with False show ?thesis by (simp add: Every_Delay Second_d_def)
qed (simp add: Every_Delay)

lemma parseDescriptor_good:
  fixes loc :: "'a location"
  shows "good_result (parseDescriptor d loc)"
proof -
  note within = one_bit_within field_bounds_each
  have dur: "good_result (case ParseDuration t of Inl e \<Rightarrow> Some (Inl (BadDuration d e))
          | Inr duration \<Rightarrow> Some (Inr (ConstantDelay (Every duration) :: 'a schedule)))" for t
    by (auto simp: good_result_def schedule_within_def Every_at_least split: sum.splits)
  have unrec: "good_result (Some (Inl (UnrecognizedDescriptor d)) :: (parse_error + 'a schedule) option)" by (simp add: good_result_def)
  have ifs: "good_result x \<Longrightarrow> good_result y \<Longrightarrow> good_result (if b then x else y)"
    for x y :: "(parse_error + 'a schedule) option" and b by simp
  show ?thesis
    unfolding parseDescriptor_def
    by (assumption | rule ifs dur unrec all_field_good spec_of_good within)+
qed

lemma Parse_in_good: "good_result (Parse_in p loc spec)"
proof (cases "HasPrefix spec ''@''")
  case True
  then show ?thesis by (simp add: Parse_in_def parseDescriptor_good) (simp add: good_result_def)
next
  case False
  consider e where "normalizeFields (Fields spec) (options p) = Inl e" "no_panic e"
    | es where "normalizeFields (Fields spec) (options p) = Inr es" "length es = 6"
    using normalizeFields_result by blast
  then show ?thesis
  proof cases
    case 1
    with False show ?thesis by (simp add: Parse_in_def good_result_def)
  next
    case (2 es)
    have len: "map snd (zip es field_bounds) = field_bounds" using 2(2) by (simp add: field_bounds_def)
    have ok: "\<And>f r. (f, r) \<in> set (zip es field_bounds) \<Longrightarrow> bounds_ok r"
      by (intro field_bounds_ok) (auto dest: set_zip_rightD)
    have "\<exists>res. getFields (zip es field_bounds) = Some res \<and>
        (\<forall>bs. res = Inr bs \<longrightarrow> list_all2 bits_within (map snd (zip es field_bounds)) bs) \<and>
        (\<forall>e. res = Inl e \<longrightarrow> no_panic e)"
      by (rule getFields_cases) (rule ok)
    then obtain res where res: "getFields (zip es field_bounds) = Some res"
      "\<And>bs. res = Inr bs \<Longrightarrow> list_all2 bits_within field_bounds bs" "\<And>e. res = Inl e \<Longrightarrow> no_panic e"
      unfolding len by blast
    show ?thesis
    proof (cases res)
      case (Inl e)
      with False 2 res show ?thesis by (simp add: Parse_in_def good_result_def)
    next
      case (Inr bs)
      then obtain s mi h d mo w where bs: "bs = [s, mi, h, d, mo, w]"
        and b: "bits_within seconds s" "bits_within minutes mi" "bits_within hours h" "bits_within dom_bounds d"
          "bits_within months mo" "bits_within dow w"
        using res(2) by (auto simp: field_bounds_def list_all2_Cons1)
      have "Parse_in p loc spec = Some (Inr (spec_of s mi h d mo w loc))"
        using False 2 res(1) Inr bs by (simp add: Parse_in_def)
      with spec_of_good [OF b] show ?thesis by simp
    qed
  qed
qed

lemma strings_Index_mem:
  assumes "c \<in> set s"
  shows "strings_Index s c = int (length (takeWhile (\<lambda>x. x \<noteq> c) s))"
    and "length (takeWhile (\<lambda>x. x \<noteq> c) s) < length s"
proof -
  show "length (takeWhile (\<lambda>x. x \<noteq> c) s) < length s"
    using assms by (induction s) auto
  then show "strings_Index s c = int (length (takeWhile (\<lambda>x. x \<noteq> c) s))"
    by (simp add: strings_Index_def)
qed

lemma strings_Index_not_mem: "c \<notin> set s \<Longrightarrow> strings_Index s c = -1"
proof -
  assume "c \<notin> set s"
  then have "takeWhile (\<lambda>x. x \<noteq> c) s = s" by (auto simp: takeWhile_eq_all_conv)
  then show ?thesis by (simp only: strings_Index_def Let_def) simp
qed

lemma HasPrefix_iff: "HasPrefix s p \<longleftrightarrow> (\<exists>t. s = p @ t)"
  by (metis HasPrefix_append HasPrefix_def append_take_drop_id)

lemma zone_slices:
  assumes "HasPrefix spec ''TZ='' \<or> HasPrefix spec ''CRON_TZ=''"
  shows "CHR '' '' \<notin> set spec \<Longrightarrow>
      go_slice spec (strings_Index spec CHR ''='' + 1) (strings_Index spec CHR '' '') = Inl SliceBoundsOutOfRange"
    and "CHR '' '' \<in> set spec \<Longrightarrow>
      \<exists>name. go_slice spec (strings_Index spec CHR ''='' + 1) (strings_Index spec CHR '' '') = Inr name"
    and "CHR '' '' \<in> set spec \<Longrightarrow>
      \<exists>rest. go_slice spec (strings_Index spec CHR '' '') (int (length spec)) = Inr rest"
proof -
  from assms obtain t where "spec = ''TZ='' @ t \<or> spec = ''CRON_TZ='' @ t" by (auto simp: HasPrefix_iff)
  moreover have "length (takeWhile (\<lambda>x. x \<noteq> CHR '' '') t) < length t" if "CHR '' '' \<in> set t"
    using that by (rule strings_Index_mem)
  ultimately have idx: "0 \<le> strings_Index spec CHR ''=''"
    and le: "CHR '' '' \<in> set spec \<Longrightarrow> strings_Index spec CHR ''='' + 1 \<le> strings_Index spec CHR '' ''"
    by (auto simp: strings_Index_def)
  show "CHR '' '' \<notin> set spec \<Longrightarrow>
      go_slice spec (strings_Index spec CHR ''='' + 1) (strings_Index spec CHR '' '') = Inl SliceBoundsOutOfRange"
    using idx by (simp add: strings_Index_not_mem go_slice_def)
  assume sp: "CHR '' '' \<in> set spec"
  then show "\<exists>name. go_slice spec (strings_Index spec CHR ''='' + 1) (strings_Index spec CHR '' '') = Inr name"
    "\<exists>rest. go_slice spec (strings_Index spec CHR '' '') (int (length spec)) = Inr rest"
    using idx le strings_Index_mem [OF sp] by (auto simp: go_slice_def)
qed

text \<open>
  (C23) \<^verbatim>\<open>Parse\<close> returns on every line, for every parser and every time zone database: the
  loop of \<^verbatim>\<open>getBits\<close> is only reached with a positive step. It returns a schedule or an error
  value, except that it panics exactly on a line that names a time zone and has no space.
\<close>

theorem Parse_returns:
  "Parser_Parse tzload p spec \<noteq> None \<and>
   ((\<exists>e. Parser_Parse tzload p spec = Some (Inl (ParsePanic e))) \<longleftrightarrow>
      (HasPrefix spec ''TZ='' \<or> HasPrefix spec ''CRON_TZ='') \<and> CHR '' '' \<notin> set spec)"
proof -
  have in_good: "Parse_in p loc s \<noteq> None \<and> (\<forall>e. Parse_in p loc s \<noteq> Some (Inl (ParsePanic e)))" for loc :: "'a location" and s
    using Parse_in_good [of p loc s] by (auto simp: good_result_def split: option.splits sum.splits)
  show ?thesis
  proof (cases "spec \<noteq> [] \<and> (HasPrefix spec ''TZ='' \<or> HasPrefix spec ''CRON_TZ='')")
    case True
    then have tz: "HasPrefix spec ''TZ='' \<or> HasPrefix spec ''CRON_TZ=''" by simp
    show ?thesis
    proof (cases "CHR '' '' \<in> set spec")
      case False
      with True zone_slices(1) [OF tz] show ?thesis by (auto simp: Parser_Parse_def)
    next
      case sp: True
      with True zone_slices(2,3) [OF tz] in_good show ?thesis
        by (auto simp: Parser_Parse_def split: sum.splits)
    qed
  next
    case False
    then show ?thesis using in_good by (auto simp: Parser_Parse_def HasPrefix_def)
  qed
qed

text \<open>
  (C24) Every schedule that comes out of the parser is within the bounds of its fields: each
  bit set names only legal seconds, minutes, hours, days, months and weekdays (and the star
  bit), and a fixed delay is at least a second.
\<close>

theorem Parse_within_bounds:
  assumes "Parser_Parse tzload p spec = Some (Inr sc)"
  shows "schedule_within sc"
proof -
  have "\<exists>loc s. Parse_in p loc s = Some (Inr sc)"
    using assms by (auto simp: Parser_Parse_def Let_def split: if_splits sum.splits)
  then show ?thesis using Parse_in_good by (metis (no_types, lifting) good_result_def option.simps(5) sum.simps(6))
qed

section \<open>Printing and parsing\<close>

text \<open>
  The fully explicit form of a crontab line: every field a list of ranges
  \<^verbatim>\<open>low-high/step\<close>.
\<close>

type_synonym field_range = "nat \<times> nat \<times> nat"

fun print_range :: "field_range \<Rightarrow> string" where
  "print_range (a, b, s) = itoa a @ CHR ''-'' # itoa b @ CHR ''/'' # itoa s"

definition print_field :: "field_range list \<Rightarrow> string" where
  "print_field rs = joined CHR '','' (map print_range rs)"

definition print_spec :: "field_range list list \<Rightarrow> string" where
  "print_spec fs = joined CHR '' '' (map print_field fs)"

fun range_ok :: "bounds \<Rightarrow> field_range \<Rightarrow> bool" where
  "range_ok r (a, b, s) \<longleftrightarrow> unat (bmin r) \<le> a \<and> a \<le> b \<and> b \<le> unat (bmax r) \<and> 0 < s \<and> s < 2 ^ 63"

definition sched_fields :: "'z SpecSchedule \<Rightarrow> uint64 list" where
  "sched_fields s = [Second s, Minute s, Hour s, Dom s, Month s, Dow s]"

definition secondsParser :: Parser where
  "secondsParser = \<lparr>options = Second_opt OR Minute_opt OR Hour_opt OR Dom_opt OR Month_opt OR Dow_opt\<rparr>"

lemma mustParseInt_itoa: "n < 2 ^ 63 \<Longrightarrow> mustParseInt (itoa n) = Inr (of_nat n)"
  by (simp add: mustParseInt_def Atoi_itoa)

lemma ToLower_digits: "list_all is_digit s \<Longrightarrow> ToLower s = s"
proof (induction s rule: ToLower.induct)
  case (3 c d cs)
  then have "c \<noteq> CHR 0xC4" "c \<noteq> CHR 0xE2" "lower c = c" by (auto simp: is_digit_def lower_def)
  with 3 show ?case by simp
qed (auto simp: is_digit_def lower_def)

definition names_ok :: "bounds \<Rightarrow> bool" where
  "names_ok r \<longleftrightarrow> (\<forall>m. names r = Some m \<longrightarrow> (\<forall>(n, v)\<in>set m. n \<noteq> [] \<and> \<not> is_digit (hd n)))"

lemma field_names_ok: "r \<in> set field_bounds \<Longrightarrow> names_ok r"
  by (auto simp: field_bounds_def names_ok_def seconds_def minutes_def hours_def dom_bounds_def
      months_def dow_def is_digit_def)

lemma itoa_hd: "is_digit (hd (itoa n))"
  using itoa_digits [of n] by (cases "itoa n") auto

lemma parseIntOrName_itoa:
  assumes "names_ok r" "n < 2 ^ 63"
  shows "parseIntOrName (itoa n) (names r) = Inr (of_nat n)"
proof (cases "names r")
  case None
  with assms show ?thesis by (simp add: parseIntOrName_def mustParseInt_itoa)
next
  case (Some m)
  have "map_of m (itoa n) = None"
  proof (rule ccontr)
    assume "map_of m (itoa n) \<noteq> None"
    then obtain v where "(itoa n, v) \<in> set m" by (auto dest: map_of_SomeD)
    with assms(1) Some itoa_hd [of n] show False by (auto simp: names_ok_def)
  qed
  with Some assms(2) show ?thesis by (simp add: parseIntOrName_def mustParseInt_itoa ToLower_digits itoa_digits)
qed

lemma unat_small: "n < 2 ^ 63 \<Longrightarrow> unat (of_nat n :: uint64) = n"
  by (simp add: unat_of_nat)

lemma getRange_print:
  assumes "range_ok r (a, b, s)" "bounds_ok r" "names_ok r"
  shows "\<exists>w. getRange (print_range (a, b, s)) r = Some (Inr w) \<and> (\<forall>k<64. bit w k \<longleftrightarrow> in_range a b s k)"
proof -
  have nd: "c \<notin> set (itoa n)" if "c \<in> {CHR ''-'', CHR ''/''}" for c n
    using that by (auto simp: itoa_no_char)
  have bnd: "a \<le> 62" "b \<le> 62" "s < 2 ^ 63" "0 < s"
    using assms(1,2) by (simp_all add: bounds_ok_def)
  have u: "unat (of_nat a :: uint64) = a" "unat (of_nat b :: uint64) = b" "unat (of_nat s :: uint64) = s"
    using bnd by (simp_all add: unat_small)
  have sl: "strings_Split CHR ''/'' (print_range (a, b, s)) = [itoa a @ CHR ''-'' # itoa b, itoa s]"
    using strings_Split_append [of "CHR ''/''" "itoa a @ CHR ''-'' # itoa b" "itoa s"] by (simp add: nd)
  have sh: "strings_Split CHR ''-'' (itoa a @ CHR ''-'' # itoa b) = [itoa a, itoa b]"
    by (simp add: strings_Split_append nd)
  have star: "itoa a \<noteq> ''*''" "itoa a \<noteq> ''?''" using itoa_hd [of a] by auto
  have p: "parseIntOrName (itoa a) (names r) = Inr (of_nat a)" "parseIntOrName (itoa b) (names r) = Inr (of_nat b)"
    using bnd by (simp_all add: parseIntOrName_itoa [OF assms(3)])
  have "range_bounds e [itoa a, itoa b] r = Inr (of_nat a, of_nat b, 0)" for e
    by (simp add: range_bounds_def star p)
  moreover have "range_step e [x, itoa s] False r (of_nat b) 0 = Inr (of_nat s, of_nat b, 0)" for e x
    using bnd by (simp add: range_step_def mustParseInt_itoa)
  moreover have "\<not> of_nat a < bmin r" "\<not> bmax r < of_nat b" "\<not> of_nat b < (of_nat a :: uint64)" "of_nat s \<noteq> (0 :: uint64)"
    using assms(1) bnd u by (auto simp: word_less_nat_alt simp flip: unat_eq_0)
  ultimately have eq: "getRange (print_range (a, b, s)) r =
      map_option (\<lambda>w. Inr (w OR 0)) (getBits (of_nat a) (of_nat b) (of_nat s))"
    unfolding getRange_def Let_def sl list.sel sh by simp
  have "unat (of_nat b :: uint64) < 64" "0 < unat (of_nat s :: uint64)" "unat (of_nat s :: uint64) < 2 ^ 63"
    using bnd u by simp_all
  from getBits_spec [OF this, of "of_nat a"] obtain w where
    "getBits (of_nat a) (of_nat b) (of_nat s) = Some w" "\<And>k. k < 64 \<Longrightarrow> bit w k \<longleftrightarrow> in_range a b s k"
    unfolding u by blast
  with eq show ?thesis by simp
qed

lemma getField_loop_print:
  assumes "bounds_ok r" "names_ok r" "\<And>x. x \<in> set rs \<Longrightarrow> range_ok r x"
  shows "\<exists>w. getField_loop r bits (map print_range rs) = Some (Inr w) \<and>
    (\<forall>k<64. bit w k \<longleftrightarrow> bit bits k \<or> (\<exists>(a, b, s)\<in>set rs. in_range a b s k))"
  using assms(3)
proof (induction rs arbitrary: bits)
  case (Cons x rs)
  obtain a b s where x: "x = (a, b, s)" by (metis prod_cases3)
  have "range_ok r (a, b, s)" using Cons.prems [of x] x by simp
  from getRange_print [OF this assms(1,2)] obtain w where
    w: "getRange (print_range x) r = Some (Inr w)" "\<forall>k<64. bit w k \<longleftrightarrow> in_range a b s k"
    unfolding x by blast
  from Cons.IH [of "bits OR w"] Cons.prems obtain w' where
    "getField_loop r (bits OR w) (map print_range rs) = Some (Inr w')"
    "\<forall>k<64. bit w' k \<longleftrightarrow> bit (bits OR w) k \<or> (\<exists>(a, b, s)\<in>set rs. in_range a b s k)"
    using list.set_intros(2) by metis
  with w show ?case by (auto simp: bit_or_iff x simp del: print_range.simps)
qed simp

lemma print_range_chars:
  "print_range x \<noteq> []" "list_all graphic (print_range x)" "CHR '','' \<notin> set (print_range x)"
  by (cases x; simp add: itoa_graphic itoa_no_char)+

lemma getField_print:
  assumes "bounds_ok r" "names_ok r" "\<And>x. x \<in> set rs \<Longrightarrow> range_ok r x"
  shows "\<exists>w. getField (print_field rs) r = Some (Inr w) \<and>
    (\<forall>k<64. bit w k \<longleftrightarrow> (\<exists>(a, b, s)\<in>set rs. in_range a b s k))"
proof -
  have "FieldsFunc CHR '','' (print_field rs) = map print_range rs"
    unfolding print_field_def by (rule FieldsFunc_joined) (auto simp: print_range_chars simp del: print_range.simps)
  with getField_loop_print [OF assms, where bits = 0] show ?thesis by (simp add: getField_def)
qed

lemma print_field_chars:
  assumes "rs \<noteq> []"
  shows "print_field rs \<noteq> []" "list_all graphic (print_field rs)" "is_digit (hd (print_field rs))"
proof -
  have j: "joined c (w # ws) \<noteq> [] \<and> hd (joined c (w # ws)) = hd w" if "w \<noteq> []" for c w ws
    using that by (cases ws) auto
  have g: "list_all graphic (joined CHR '','' ws)" if "\<And>w. w \<in> set ws \<Longrightarrow> list_all graphic w" for ws
    using that by (induction "CHR '',''" ws rule: joined.induct) auto
  obtain a b s rs' where rs: "rs = (a, b, s) # rs'" using assms by (metis neq_Nil_conv prod_cases3)
  show "print_field rs \<noteq> []" "is_digit (hd (print_field rs))"
    using j [of "print_range (a, b, s)" "CHR '',''" "map print_range rs'"] itoa_hd [of a]
    by (auto simp: print_field_def rs simp del: joined.simps)
  show "list_all graphic (print_field rs)"
    unfolding print_field_def by (rule g) (auto simp: print_range_chars simp del: print_range.simps)
qed

text \<open>
  (C17) Parsing inverts printing: a line of six fields, each a non-empty list of ranges
  \<^verbatim>\<open>low-high/step\<close> within the bounds of its field, is parsed into the schedule whose bit
  sets are the unions of the arithmetic progressions it names.
\<close>

theorem Parse_print:
  fixes tzload :: "string \<Rightarrow> string + 'z"
  assumes "length fs = 6"
    and "\<And>j. j < 6 \<Longrightarrow> fs ! j \<noteq> [] \<and> (\<forall>x\<in>set (fs ! j). range_ok (field_bounds ! j) x)"
  shows "\<exists>s. Parser_Parse tzload secondsParser (print_spec fs) = Some (Inr (Spec s)) \<and> Location s = Local \<and>
    (\<forall>j<6. \<forall>k<64. bit (sched_fields s ! j) k \<longleftrightarrow> (\<exists>(a, b, st)\<in>set (fs ! j). in_range a b st k))"
proof -
  have len: "length field_bounds = 6" by (simp add: field_bounds_def)
  have words: "w \<noteq> [] \<and> list_all graphic w" if w: "w \<in> set (map print_field fs)" for w
  proof -
    from w assms(1) obtain j where "j < 6" "w = print_field (fs ! j)" by (auto simp: in_set_conv_nth)
    with assms(2) [of j] print_field_chars show ?thesis by auto
  qed
  obtain f0 f1 f2 f3 f4 f5 where fs: "fs = [f0, f1, f2, f3, f4, f5]"
    using assms(1) by (auto simp: eval_nat_numeral length_Suc_conv)
  have flds: "Fields (print_spec fs) = map print_field fs"
    unfolding print_spec_def by (rule Fields_joined) (rule words)
  have hd: "print_spec fs \<noteq> []" "is_digit (hd (print_spec fs))"
    using print_field_chars [of f0] assms(2) [of 0] by (auto simp: print_spec_def fs)
  then have pre: "\<not> HasPrefix (print_spec fs) ''@''" "\<not> HasPrefix (print_spec fs) ''TZ=''"
    "\<not> HasPrefix (print_spec fs) ''CRON_TZ=''"
    by (cases "print_spec fs"; auto simp: HasPrefix_def is_digit_def)+
  have norm: "normalizeFields (map print_field fs) (options secondsParser) = Inr (map print_field fs)"
    by (simp add: fs normalizeFields_def secondsParser_def places_def defaults_def Second_opt_def Minute_opt_def
        Hour_opt_def Dom_opt_def Month_opt_def Dow_opt_def SecondOptional_def DowOptional_def)
  have "\<exists>w. getField (print_field (fs ! j)) (field_bounds ! j) = Some (Inr w) \<and>
      (\<forall>k<64. bit w k \<longleftrightarrow> (\<exists>(a, b, s)\<in>set (fs ! j). in_range a b s k))" if "j < 6" for j
    using that assms(2) len by (intro getField_print field_bounds_ok field_names_ok) auto
  then obtain W where W: "\<And>j. j < 6 \<Longrightarrow> getField (print_field (fs ! j)) (field_bounds ! j) = Some (Inr (W j))"
    "\<And>j k. j < 6 \<Longrightarrow> k < 64 \<Longrightarrow> bit (W j) k \<longleftrightarrow> (\<exists>(a, b, s)\<in>set (fs ! j). in_range a b s k)" by metis
  let ?s = "\<lparr>Second = W 0, Minute = W 1, Hour = W 2, Dom = W 3, Month = W 4, Dow = W 5, Location = (Local :: 'z location)\<rparr>"
  have "getFields (zip (map print_field fs) field_bounds) = Some (Inr [W 0, W 1, W 2, W 3, W 4, W 5])"
    using W(1) [of 0] W(1) [of 1] W(1) [of 2] W(1) [of 3] W(1) [of 4] W(1) [of 5]
    by (simp add: fs field_bounds_def)
  then have "Parser_Parse tzload secondsParser (print_spec fs) = Some (Inr (Spec ?s))"
    using hd(1) pre norm by (simp add: Parser_Parse_def Parse_in_def flds spec_of_def)
  moreover have "sched_fields ?s ! j = W j" if j: "j < 6" for j
  proof -
    consider "j = 0" | "j = 1" | "j = 2" | "j = 3" | "j = 4" | "j = 5" using j by linarith
    then show ?thesis by cases (simp_all add: sched_fields_def)
  qed
  ultimately show ?thesis using W(2) by (intro exI [of _ ?s]) simp
qed

theorem Parse_print_witness:
  "\<exists>s. Parser_Parse (\<lambda>_. Inl [] :: string + unit) secondsParser
      (print_spec [[(0, 59, 15)], [(5, 5, 1), (30, 40, 2)], [(9, 17, 1)], [(1, 31, 1)], [(1, 12, 3)], [(1, 5, 1)]]) =
      Some (Inr (Spec s)) \<and> bit (Minute s) 34"
proof -
  let ?fs = "[[(0, 59, 15)], [(5, 5, 1), (30, 40, 2)], [(9, 17, 1)], [(1, 31, 1)], [(1, 12, 3)], [(1, 5, 1)]] :: field_range list list"
  have ok: "?fs ! j \<noteq> [] \<and> (\<forall>x\<in>set (?fs ! j). range_ok (field_bounds ! j) x)" if j: "j < 6" for j
  proof -
    consider "j = 0" | "j = 1" | "j = 2" | "j = 3" | "j = 4" | "j = 5" using j by linarith
    then show ?thesis
      by cases (simp_all add: field_bounds_def seconds_def minutes_def hours_def dom_bounds_def months_def dow_def)
  qed
  from Parse_print [OF _ ok, of "\<lambda>_. Inl [] :: string + unit"] obtain s :: "unit SpecSchedule" where
    s: "Parser_Parse (\<lambda>_. Inl []) secondsParser (print_spec ?fs) = Some (Inr (Spec s))"
    "\<forall>j<6. \<forall>k<64. bit (sched_fields s ! j) k \<longleftrightarrow> (\<exists>(a, b, st)\<in>set (?fs ! j). in_range a b st k)" by auto
  have "bit (sched_fields s ! 1) 34" using s(2) by (simp add: in_range_def)
  with s(1) show ?thesis by (auto simp: sched_fields_def)
qed

section \<open>Descriptors\<close>

lemma star_fields:
  "getField ''*'' hours = map_option Inr (all_bits hours)"
  "getField ''*'' dom_bounds = map_option Inr (all_bits dom_bounds)"
  "getField ''*'' months = map_option Inr (all_bits months)"
  "getField ''*'' dow = map_option Inr (all_bits dow)"
  by code_simp+

lemma digit_fields:
  "getField ''0'' seconds = Some (Inr (one_bit seconds))"
  "getField ''0'' minutes = Some (Inr (one_bit minutes))"
  "getField ''0'' hours = Some (Inr (one_bit hours))"
  "getField ''1'' dom_bounds = Some (Inr (one_bit dom_bounds))"
  "getField ''1'' months = Some (Inr (one_bit months))"
  "getField ''0'' dow = Some (Inr (one_bit dow))"
  by code_simp+

lemma standard_line:
  assumes "f = joined CHR '' '' [a, b, c, d, e]" "\<And>w. w \<in> {a, b, c, d, e} \<Longrightarrow> w \<noteq> [] \<and> list_all graphic w"
    and "\<not> HasPrefix f ''@''" "\<not> HasPrefix f ''TZ=''" "\<not> HasPrefix f ''CRON_TZ=''"
  shows "ParseStandard tzload f =
    (case getFields (zip [''0'', a, b, c, d, e] field_bounds) of
       None \<Rightarrow> None
     | Some (Inl err) \<Rightarrow> Some (Inl err)
     | Some (Inr [s, mi, h, dm, mo, w]) \<Rightarrow> Some (Inr (spec_of s mi h dm mo w Local))
     | Some (Inr _) \<Rightarrow> Some (Inl (ParsePanic IndexOutOfRange)))"
proof -
  have ws: "w \<noteq> [] \<and> list_all graphic w" if "w \<in> set [a, b, c, d, e]" for w using assms(2) that by simp
  have flds: "Fields f = [a, b, c, d, e]" unfolding assms(1) by (rule Fields_joined) (rule ws)
  have norm: "normalizeFields [a, b, c, d, e] (options standardParser) = Inr [''0'', a, b, c, d, e]"
    by (simp add: normalizeFields_def standardParser_def places_def defaults_def Second_opt_def Minute_opt_def
        Hour_opt_def Dom_opt_def Month_opt_def Dow_opt_def SecondOptional_def DowOptional_def Descriptor_def)
  have "f \<noteq> []" using assms(1,2) by (cases a) auto
  with assms(3-5) show ?thesis by (simp add: ParseStandard_def Parser_Parse_def Parse_in_def flds norm)
qed

lemma standard_descriptor:
  assumes "f \<noteq> []" "HasPrefix f ''@''"
  shows "ParseStandard tzload f = parseDescriptor f Local"
proof -
  have "\<not> HasPrefix f ''TZ=''" "\<not> HasPrefix f ''CRON_TZ=''" using assms(2) by (auto simp: HasPrefix_iff)
  moreover have "options standardParser AND Descriptor \<noteq> 0"
    by (simp add: standardParser_def Minute_opt_def Hour_opt_def Dom_opt_def Month_opt_def Dow_opt_def Descriptor_def)
  ultimately show ?thesis using assms by (simp add: ParseStandard_def Parser_Parse_def Parse_in_def)
qed

lemma standard_fields:
  assumes "{a, b, c, d, e} \<subseteq> {''0'', ''1'', ''*''}"
  shows "ParseStandard tzload (joined CHR '' '' [a, b, c, d, e]) =
    (case getFields (zip [''0'', a, b, c, d, e] field_bounds) of
       None \<Rightarrow> None
     | Some (Inl err) \<Rightarrow> Some (Inl err)
     | Some (Inr [s, mi, h, dm, mo, w]) \<Rightarrow> Some (Inr (spec_of s mi h dm mo w Local))
     | Some (Inr _) \<Rightarrow> Some (Inl (ParsePanic IndexOutOfRange)))"
proof (rule standard_line [OF refl])
  have a: "a = ''0'' \<or> a = ''1'' \<or> a = ''*''" using assms by blast
  show "w \<noteq> [] \<and> list_all graphic w" if "w \<in> {a, b, c, d, e}" for w
  proof -
    have "w = ''0'' \<or> w = ''1'' \<or> w = ''*''" using assms that by blast
    then show ?thesis by (auto simp: graphic_def)
  qed
  show "\<not> HasPrefix (joined CHR '' '' [a, b, c, d, e]) ''@''" "\<not> HasPrefix (joined CHR '' '' [a, b, c, d, e]) ''TZ=''"
    "\<not> HasPrefix (joined CHR '' '' [a, b, c, d, e]) ''CRON_TZ=''"
    using a by (auto simp: HasPrefix_def)
qed

text \<open>
  (C28) The predefined schedules are what the package documentation says they stand for: each
  descriptor parses to the very schedule of its crontab line.
\<close>

theorem descriptors_as_documented:
  "ParseStandard tzload ''@yearly'' = ParseStandard tzload ''0 0 1 1 *'' \<and>
   ParseStandard tzload ''@annually'' = ParseStandard tzload ''0 0 1 1 *'' \<and>
   ParseStandard tzload ''@monthly'' = ParseStandard tzload ''0 0 1 * *'' \<and>
   ParseStandard tzload ''@weekly'' = ParseStandard tzload ''0 0 * * 0'' \<and>
   ParseStandard tzload ''@daily'' = ParseStandard tzload ''0 0 * * *'' \<and>
   ParseStandard tzload ''@midnight'' = ParseStandard tzload ''0 0 * * *'' \<and>
   ParseStandard tzload ''@hourly'' = ParseStandard tzload ''0 * * * *''"
proof -
  obtain h d mo w where bits: "all_bits hours = Some h" "all_bits dom_bounds = Some d" "all_bits months = Some mo"
    "all_bits dow = Some w"
    using all_bits_defined field_bounds_each by metis
  note line = digit_fields star_fields bits field_bounds_def
  note desc = standard_descriptor HasPrefix_def parseDescriptor_def all_field_def bits
  have l: "ParseStandard tzload ''0 0 1 1 *'' = Some (Inr (spec_of (one_bit seconds) (one_bit minutes)
        (one_bit hours) (one_bit dom_bounds) (one_bit months) w Local))"
    "ParseStandard tzload ''0 0 1 * *'' = Some (Inr (spec_of (one_bit seconds) (one_bit minutes)
        (one_bit hours) (one_bit dom_bounds) mo w Local))"
    "ParseStandard tzload ''0 0 * * 0'' = Some (Inr (spec_of (one_bit seconds) (one_bit minutes)
        (one_bit hours) d mo (one_bit dow) Local))"
    "ParseStandard tzload ''0 0 * * *'' = Some (Inr (spec_of (one_bit seconds) (one_bit minutes)
        (one_bit hours) d mo w Local))"
    "ParseStandard tzload ''0 * * * *'' = Some (Inr (spec_of (one_bit seconds) (one_bit minutes) h d mo w Local))"
    using standard_fields [of "''0''" "''0''" "''1''" "''1''" "''*''" tzload]
      standard_fields [of "''0''" "''0''" "''1''" "''*''" "''*''" tzload]
      standard_fields [of "''0''" "''0''" "''*''" "''*''" "''0''" tzload]
      standard_fields [of "''0''" "''0''" "''*''" "''*''" "''*''" tzload]
      standard_fields [of "''0''" "''*''" "''*''" "''*''" "''*''" tzload]
    by (simp_all add: line)
  show ?thesis unfolding l by (simp add: desc)
qed

lemma parseDescriptor_every:
  assumes "0 < n" "n \<le> 9223372036"
  shows "parseDescriptor (''@every '' @ itoa n @ ''s'') Local = Some (Inr (ConstantDelay \<lparr>Delay = int n * Second_d\<rparr>))"
proof -
  have u: "unitMap ''s'' = Some (10 ^ 9)" "list_all unit_char ''s''"
    by (simp_all add: unitMap_def unit_char_def is_digit_def)
  have n: "n \<le> (2 ^ 63 - 1) div 10 ^ 9" using assms(2) by simp
  have dur: "ParseDuration (itoa n @ ''s'') = Inr (int n * Second_d)"
    using ParseDuration_whole [OF u n] by (simp add: Second_d_def)
  have "parseDescriptor (''@every '' @ itoa n @ ''s'') Local =
      Some (Inr (ConstantDelay (Every (int n * Second_d))))"
    using dur by (simp add: parseDescriptor_def HasPrefix_def every_prefix_def)
  moreover have "Every (int n * Second_d) = \<lparr>Delay = int n * Second_d\<rparr>"
    using assms(1) Every_Delay [of "int n * Second_d"]
    by (cases "Every (int n * Second_d)") (simp add: Second_d_def)
  ultimately show ?thesis by simp
qed

lemma every_seconds_delay:
  assumes "0 < n" "n \<le> 9223372036"
  shows "ParseStandard tzload (''@every '' @ itoa n @ ''s'') =
    Some (Inr (ConstantDelay \<lparr>Delay = int n * Second_d\<rparr>))"
  using parseDescriptor_every [OF assms] standard_descriptor [of "''@every '' @ itoa n @ ''s''" tzload]
  by (simp add: HasPrefix_def)

text \<open>
  \<^verbatim>\<open>@every\<close> with a whole number of seconds is the fixed delay of that length.
\<close>

theorem every_seconds:
  assumes "0 < n" "n \<le> 9223372036"
  shows "ParseStandard tzload (''@every '' @ itoa n @ ''s'') =
    Some (Inr (ConstantDelay \<lparr>Delay = int n * Second_d\<rparr>))"
  using assms by (rule every_seconds_delay)

theorem every_seconds_witness:
  "ParseStandard (\<lambda>_. Inl [] :: string + unit) (''@every '' @ itoa 90 @ ''s'') =
     Some (Inr (ConstantDelay \<lparr>Delay = 90 * Second_d\<rparr>))"
  using every_seconds [of 90 "\<lambda>_. Inl [] :: string + unit"] by simp

theorem Parse_within_bounds_witness:
  "\<exists>sc. ParseStandard (\<lambda>_. Inl [] :: string + unit) (''@every '' @ itoa 90 @ ''s'') = Some (Inr sc) \<and>
     schedule_within sc"
proof -
  let ?tz = "\<lambda>_. Inl [] :: string + unit"
  have "Parser_Parse ?tz standardParser (''@every '' @ itoa 90 @ ''s'') =
      Some (Inr (ConstantDelay \<lparr>Delay = 90 * Second_d\<rparr>))"
    using every_seconds_delay [of 90 ?tz] by (simp add: ParseStandard_def)
  from Parse_within_bounds [OF this] this show ?thesis by (auto simp: ParseStandard_def)
qed

section \<open>Where the parser accepts what it should not\<close>

text \<open>
  A field of commas only has no ranges, and \<^verbatim>\<open>getField\<close> answers the empty bit set with no
  error: the line parses to a schedule that no time satisfies.
\<close>

theorem comma_field_accepted:
  assumes "list_all (\<lambda>c. c = CHR '','') f"
  shows "getField f r = Some (Inr 0)"
proof -
  have "strings_Split CHR '','' f = replicate (Suc (length f)) []"
    using assms by (induction f) simp_all
  then show ?thesis by (simp add: getField_def FieldsFunc_def)
qed

theorem comma_field_accepted_witness:
  "getField '',,'' minutes = Some (Inr 0)"
  by (rule comma_field_accepted) simp

end
