(* ===== verification/SpecProps.thy ===== *)
theory SpecProps
  imports SpecSearch ParserProps
begin

text \<open>The properties of the activation times.\<close>

section \<open>Crontab schedules\<close>

lemma at_wall_later:
  assumes "nanos t div Second_d + off < w"
  shows "nanos t < nanos (Time_In loc (at_wall loc' off w))"
proof -
  have "nanos t div Second_d + 1 \<le> w - off" using assms by simp
  then have "nanos t < (w - off) * Second_d" by (simp add: Second_d_def)
  then show ?thesis by (simp add: Time_In_def at_wall_def)
qed

text \<open>The contract of \<^verbatim>\<open>Schedule.Next\<close>: the answer is later than the given time, or zero.\<close>

lemma Next_later:
  assumes "\<And>x. offset lookup (sched_loc s t) x = off" "60 dvd off"
  shows "\<exists>r. SpecSchedule_Next lookup s t = Some r \<and> (r = zero_Time \<or> nanos t < nanos r)"
proof -
  have zone: "fixed_zone lookup (sched_loc s t) off" using assms by unfold_locales
  from fixed_zone.Next_in_zone [OF zone refl] obtain r limit where
    r: "SpecSchedule_Next lookup s t =
      Some (case r of None \<Rightarrow> zero_Time | Some w \<Rightarrow> Time_In (tloc t) (at_wall (sched_loc s t) off w))"
    "search_result s limit (wall lookup (Time_In (sched_loc s t) t) + 1) r" by blast
  show ?thesis
  proof (cases r)
    case (Some w)
    then have "nanos t div Second_d + off < w"
      using r(2) by (simp add: search_result_def assms(1) wall_def unix_sec_def Time_In_def)
    from at_wall_later [OF this, of "tloc t" "sched_loc s t"] r(1) Some show ?thesis by auto
  qed (use r(1) in simp)
qed




section \<open>Fixed delays\<close>

text \<open>
  A fixed delay activates on whole seconds: the next activation is the given second plus
  the delay rounded down to seconds, and plus one second when the delay is shorter. It is
  always later than the given time.
\<close>

theorem ConstantDelay_Next_on_the_second:
  "nanos (ConstantDelaySchedule_Next (Every d) t) =
     (unix_sec t + (if d < Second_d then 1 else d div Second_d)) * Second_d \<and>
   nanos t < nanos (ConstantDelaySchedule_Next (Every d) t) \<and>
   tloc (ConstantDelaySchedule_Next (Every d) t) = tloc t"
proof -
  have eq: "nanos (ConstantDelaySchedule_Next (Every d) t) = unix_sec t * Second_d + Delay (Every d)"
    by (simp add: ConstantDelaySchedule_Next_def Time_Add_def Nanosecond_t_def Nanosecond_def unix_sec_def
        minus_mod_eq_div_mult [symmetric])
  moreover have "nanos t < unix_sec t * Second_d + Second_d"
    by (simp add: unix_sec_def Second_d_def)
  ultimately show ?thesis using Every_at_least [of d]
    by (auto simp: Every_Delay algebra_simps ConstantDelaySchedule_Next_def Time_Add_def)
qed

end
