(* ===== verification/PrioQueue.thy ===== *)
theory PrioQueue
  imports Prelude
begin

text \<open>
  The contract between the packer of recent jobs and its heap: a multiset of elements with
  integer keys, from which the smallest is taken first. What follows for a whole sequence of
  removals is proved once here.
\<close>

inductive pops :: "('q \<Rightarrow> 'a \<times> 'q) \<Rightarrow> ('q \<Rightarrow> bool) \<Rightarrow> 'q \<Rightarrow> 'a list \<Rightarrow> 'q \<Rightarrow> bool"
  for pop is_empty where
  pops_none: "pops pop is_empty q [] q"
| pops_one: "\<not> is_empty q \<Longrightarrow> pop q = (x, q') \<Longrightarrow> pops pop is_empty q' xs q'' \<Longrightarrow>
    pops pop is_empty q (x # xs) q''"

locale prio_queue =
  fixes invar :: "'q \<Rightarrow> bool"
    and elems :: "'q \<Rightarrow> 'a multiset"
    and key :: "'a \<Rightarrow> int"
    and is_empty :: "'q \<Rightarrow> bool"
    and push :: "'a \<Rightarrow> 'q \<Rightarrow> 'q"
    and pop :: "'q \<Rightarrow> 'a \<times> 'q"
  assumes empty_iff: "is_empty q \<longleftrightarrow> elems q = {#}"
    and invar_push: "invar q \<Longrightarrow> invar (push x q)"
    and elems_push: "invar q \<Longrightarrow> elems (push x q) = add_mset x (elems q)"
    and invar_pop: "invar q \<Longrightarrow> \<not> is_empty q \<Longrightarrow> pop q = (x, q') \<Longrightarrow> invar q'"
    and elems_pop: "invar q \<Longrightarrow> \<not> is_empty q \<Longrightarrow> pop q = (x, q') \<Longrightarrow> elems q = add_mset x (elems q')"
    and pop_least: "invar q \<Longrightarrow> \<not> is_empty q \<Longrightarrow> pop q = (x, q') \<Longrightarrow> y \<in># elems q \<Longrightarrow> key x \<le> key y"
begin

lemma pops_spec:
  assumes "pops pop is_empty q xs q'" "invar q"
  shows "invar q'" and "elems q = mset xs + elems q'" and "sorted (map key xs)"
    and "x \<in> set xs \<Longrightarrow> y \<in># elems q' \<Longrightarrow> key x \<le> key y"
proof -
  have "invar q' \<and> elems q = mset xs + elems q' \<and> sorted (map key xs) \<and>
      (\<forall>x\<in>set xs. \<forall>y\<in>#elems q'. key x \<le> key y)"
    using assms
  proof (induction rule: pops.induct)
    case (pops_one q x q' xs q'')
    note IH = pops_one.IH [OF invar_pop [OF pops_one.prems pops_one.hyps(1,2)]]
    have el: "elems q = add_mset x (elems q')" by (rule elems_pop [OF pops_one.prems pops_one.hyps(1,2)])
    have least: "key x \<le> key y" if "y \<in># elems q'" for y
      using pop_least [OF pops_one.prems pops_one.hyps(1,2)] el that by simp
    with IH el show ?case by auto
  qed simp
  then show "invar q'" "elems q = mset xs + elems q'" "sorted (map key xs)"
    "x \<in> set xs \<Longrightarrow> y \<in># elems q' \<Longrightarrow> key x \<le> key y" by auto
qed

text \<open>Taking elements while they are below a bound leaves exactly those that are not.\<close>

lemma pops_below:
  assumes "pops pop is_empty q xs q'" "invar q" "\<And>x. x \<in> set xs \<Longrightarrow> key x < b"
    and "\<And>y. y \<in># elems q' \<Longrightarrow> b \<le> key y"
  shows "elems q' = filter_mset (\<lambda>x. b \<le> key x) (elems q)"
proof -
  have "filter_mset (\<lambda>x. b \<le> key x) (mset xs) = {#}"
    using assms(3) by (force simp: filter_empty_conv not_le simp flip: mset_filter)
  moreover have "filter_mset (\<lambda>x. b \<le> key x) (elems q') = elems q'"
    using assms(4) filter_mset_cong [of "elems q'" "elems q'" "\<lambda>x. b \<le> key x" "\<lambda>_. True"] by simp
  ultimately show ?thesis by (simp add: pops_spec(2) [OF assms(1,2)])
qed

end

end
