(* ===== verification/JobPacker.thy ===== *)
theory JobPacker
  imports GoTime PrioQueue
begin

text \<open>
  The packer of recent jobs (\<^verbatim>\<open>dcron/recentjobpacker.go\<close>): a binary heap of jobs ordered by
  their running time, kept in a slice by Go's \<^verbatim>\<open>container/heap\<close>, from which jobs older than
  the time window are dropped.
\<close>

section \<open>The heap as a slice\<close>

record 'z JobWithTime =
  JobName :: string
  RunningTime :: "'z Time"

type_synonym 'z JobWithTimeHeap = "'z JobWithTime list"

definition JobHeap_Less :: "'z JobWithTimeHeap \<Rightarrow> nat \<Rightarrow> nat \<Rightarrow> bool" where
  "JobHeap_Less h i j \<longleftrightarrow> Time_Before (RunningTime (h ! i)) (RunningTime (h ! j))"

definition JobHeap_Len :: "'z JobWithTimeHeap \<Rightarrow> nat" where
  "JobHeap_Len h = length h"

definition JobHeap_Swap :: "'z JobWithTimeHeap \<Rightarrow> nat \<Rightarrow> nat \<Rightarrow> 'z JobWithTimeHeap" where
  "JobHeap_Swap h i j = (let t = h ! i; h = h[i := h ! j] in h[j := t])"

definition JobHeap_Push :: "'z JobWithTime \<Rightarrow> 'z JobWithTimeHeap \<Rightarrow> 'z JobWithTimeHeap" where
  "JobHeap_Push x h = h @ [x]"

definition JobHeap_Pop :: "'z JobWithTimeHeap \<Rightarrow> 'z JobWithTime \<times> 'z JobWithTimeHeap" where
  "JobHeap_Pop h = (let n = JobHeap_Len h - 1 in (h ! n, take n h))"

definition JobHeap_Index :: "nat \<Rightarrow> 'z JobWithTimeHeap \<Rightarrow> 'z JobWithTime" where
  "JobHeap_Index i h = h ! i"

section \<open>\<^verbatim>\<open>container/heap\<close>\<close>

text \<open>The parent of the root is the root: Go's division rounds towards zero.\<close>

function heap_up :: "'z JobWithTimeHeap \<Rightarrow> nat \<Rightarrow> 'z JobWithTimeHeap" where
  "heap_up h j =
     (let i = (j - 1) div 2 in
      if i = j \<or> \<not> JobHeap_Less h j i then h else heap_up (JobHeap_Swap h i j) i)"
  by pat_completeness auto
termination
  by (relation "measure snd") auto

function heap_down :: "'z JobWithTimeHeap \<Rightarrow> nat \<Rightarrow> nat \<Rightarrow> 'z JobWithTimeHeap" where
  "heap_down h i n =
     (let j1 = 2 * i + 1 in
      if j1 \<ge> n then h
      else
        let j2 = j1 + 1;
            j = (if j2 < n \<and> JobHeap_Less h j2 j1 then j2 else j1)
        in if \<not> JobHeap_Less h j i then h else heap_down (JobHeap_Swap h i j) j n)"
  by pat_completeness auto
termination
  by (relation "measure (\<lambda>(h, i, n). n - i)") (auto simp: Let_def)

declare heap_up.simps [simp del] heap_down.simps [simp del]

definition heap_Push :: "'z JobWithTime \<Rightarrow> 'z JobWithTimeHeap \<Rightarrow> 'z JobWithTimeHeap" where
  "heap_Push x h = (let h = JobHeap_Push x h in heap_up h (JobHeap_Len h - 1))"

text \<open>Only called on a heap that is not empty.\<close>

definition heap_Pop :: "'z JobWithTimeHeap \<Rightarrow> 'z JobWithTime \<times> 'z JobWithTimeHeap" where
  "heap_Pop h =
     (let n = JobHeap_Len h - 1; h = JobHeap_Swap h 0 n; h = heap_down h 0 n in JobHeap_Pop h)"

section \<open>The packer\<close>

record 'z RecentJobPacker =
  timeWindow :: duration
  recentJobs :: "'z JobWithTimeHeap"

definition NewRecentJobPacker :: "duration \<Rightarrow> 'z RecentJobPacker" where
  "NewRecentJobPacker window = \<lparr>timeWindow = window, recentJobs = []\<rparr>"

lemma JobHeap_Swap_length [simp]: "length (JobHeap_Swap h i j) = length h"
  by (simp add: JobHeap_Swap_def)

lemma heap_up_length [simp]: "length (heap_up h j) = length h"
  by (induction h j rule: heap_up.induct) (subst heap_up.simps, simp add: Let_def)

lemma heap_down_length [simp]: "length (heap_down h i n) = length h"
  by (induction h i n rule: heap_down.induct) (subst heap_down.simps, simp add: Let_def)

lemma heap_Pop_length: "h \<noteq> [] \<Longrightarrow> length (snd (heap_Pop h)) = length h - 1"
  by (simp add: heap_Pop_def JobHeap_Pop_def JobHeap_Len_def Let_def)

text \<open>The loop of \<^verbatim>\<open>AddJob\<close> that drops the jobs before a time.\<close>

function drop_before :: "'z Time \<Rightarrow> 'z JobWithTimeHeap \<Rightarrow> 'z JobWithTimeHeap" where
  "drop_before t h =
     (if JobHeap_Len h > 0 \<and> Time_Before (RunningTime (JobHeap_Index 0 h)) t
      then drop_before t (snd (heap_Pop h)) else h)"
  by pat_completeness auto
termination
proof (relation "measure (\<lambda>(t, h). length h)")
  fix t :: "'z Time" and h
  assume "0 < JobHeap_Len h \<and> Time_Before (RunningTime (JobHeap_Index 0 h)) t"
  then have "h \<noteq> []" by (auto simp: JobHeap_Len_def)
  then show "((t, snd (heap_Pop h)), t, h) \<in> measure (\<lambda>(t, h). length h)" by (simp add: heap_Pop_length)
qed simp

function pop_names :: "'z JobWithTimeHeap \<Rightarrow> string list" where
  "pop_names h =
     (if JobHeap_Len h > 0
      then let (x, h') = heap_Pop h in JobName x # pop_names h' else [])"
  by pat_completeness auto
termination
proof (relation "measure length")
  fix h h' :: "'z JobWithTimeHeap" and x r
  assume "0 < JobHeap_Len h" "r = heap_Pop h" "(x, h') = r"
  then show "(h', h) \<in> measure length"
    using heap_Pop_length [of h] by (cases "heap_Pop h") (auto simp: JobHeap_Len_def)
qed simp

declare drop_before.simps [simp del] pop_names.simps [simp del]

definition AddJob :: "'z Time \<Rightarrow> string \<Rightarrow> 'z Time \<Rightarrow> 'z RecentJobPacker \<Rightarrow> 'z RecentJobPacker" where
  "AddJob now jobName t rjp =
     (let h = heap_Push \<lparr>JobName = jobName, RunningTime = t\<rparr> (recentJobs rjp);
          unRecentTime = Time_Add (- timeWindow rjp) now
      in rjp\<lparr>recentJobs := drop_before unRecentTime h\<rparr>)"

definition PopAllJobs :: "'z RecentJobPacker \<Rightarrow> string list \<times> 'z RecentJobPacker" where
  "PopAllJobs rjp = (pop_names (recentJobs rjp), rjp\<lparr>recentJobs := []\<rparr>)"

end
