(* ===== verification/PackerProps.thy ===== *)
theory PackerProps
  imports JobPacker
begin

text \<open>
  The slice heap satisfies the contract of a priority queue, and the packer keeps exactly the
  jobs of its time window and hands them out in the order of their running times.
\<close>

section \<open>Heaps in a slice\<close>

definition parent :: "nat \<Rightarrow> nat" where
  "parent i = (i - 1) div 2"

definition job_key :: "'z JobWithTime \<Rightarrow> int" where
  "job_key x = nanos (RunningTime x)"

abbreviation key_at :: "'z JobWithTimeHeap \<Rightarrow> nat \<Rightarrow> int" where
  "key_at h i \<equiv> job_key (h ! i)"

text \<open>The first \<open>n\<close> cells form a heap.\<close>

definition heap_upto :: "nat \<Rightarrow> 'z JobWithTimeHeap \<Rightarrow> bool" where
  "heap_upto n h \<longleftrightarrow> n \<le> length h \<and> (\<forall>i. 0 < i \<and> i < n \<longrightarrow> key_at h (parent i) \<le> key_at h i)"

abbreviation is_heap :: "'z JobWithTimeHeap \<Rightarrow> bool" where
  "is_heap h \<equiv> heap_upto (length h) h"

lemma Less_key: "JobHeap_Less h i j \<longleftrightarrow> key_at h i < key_at h j"
  by (simp add: JobHeap_Less_def Time_Before_def job_key_def)

lemma Swap_nth:
  "i < length h \<Longrightarrow> j < length h \<Longrightarrow>
   JobHeap_Swap h i j ! k = (if k = j then h ! i else if k = i then h ! j else h ! k)"
  by (auto simp: JobHeap_Swap_def nth_list_update)

lemma Swap_mset: "i < length h \<Longrightarrow> j < length h \<Longrightarrow> mset (JobHeap_Swap h i j) = mset h"
  using mset_swap [of j h i] by (simp add: JobHeap_Swap_def)

subsection \<open>Moving up\<close>

text \<open>A heap but for the cell \<open>j\<close>, which may be smaller than its parent.\<close>

definition up_ok :: "nat \<Rightarrow> 'z JobWithTimeHeap \<Rightarrow> bool" where
  "up_ok j h \<longleftrightarrow> j < length h \<and>
     (\<forall>i. 0 < i \<and> i < length h \<and> i \<noteq> j \<longrightarrow> key_at h (parent i) \<le> key_at h i) \<and>
     (\<forall>c. 0 < j \<and> 0 < c \<and> c < length h \<and> parent c = j \<longrightarrow> key_at h (parent j) \<le> key_at h c)"

lemma parent_less: "0 < i \<Longrightarrow> parent i < i"
  by (auto simp: parent_def)

lemma heap_up_unfold:
  "heap_up h j = (if parent j = j \<or> \<not> JobHeap_Less h j (parent j) then h
     else heap_up (JobHeap_Swap h (parent j) j) (parent j))"
  by (subst heap_up.simps) (simp add: Let_def parent_def)

lemma up_step:
  assumes ok: "up_ok j h" and j: "0 < j" and less: "key_at h j < key_at h (parent j)"
  shows "up_ok (parent j) (JobHeap_Swap h (parent j) j)"
proof -
  let ?i = "parent j" and ?h = "JobHeap_Swap h (parent j) j"
  have ij: "?i < j" "j < length h" using ok parent_less [OF j] by (auto simp: up_ok_def)
  then have nth: "?h ! k = (if k = j then h ! ?i else if k = ?i then h ! j else h ! k)" for k
    by (intro Swap_nth) auto
  have heap: "key_at h (parent k) \<le> key_at h k" if "0 < k" "k < length h" "k \<noteq> j" for k
    using ok that by (simp add: up_ok_def)
  have gp: "key_at h ?i \<le> key_at h c" if "0 < c" "c < length h" "parent c = j" for c
    using ok j that by (simp add: up_ok_def)
  have "key_at ?h (parent k) \<le> key_at ?h k" if k: "0 < k" "k < length h" "k \<noteq> ?i" for k
  proof (cases "k = j")
    case True
    then show ?thesis using less ij by (simp add: nth)
  next
    case False
    consider "parent k = ?i" | "parent k = j" | "parent k \<noteq> ?i" "parent k \<noteq> j" by blast
    then show ?thesis
    proof cases
      case 1
      with heap [OF k(1,2) False] less show ?thesis using False k(3) ij by (simp add: nth)
    next
      case 2
      with gp [OF k(1,2)] show ?thesis using False k(3) by (simp add: nth)
    next
      case 3
      with heap [OF k(1,2) False] False k(3) show ?thesis by (simp add: nth)
    qed
  qed
  moreover have "key_at ?h (parent ?i) \<le> key_at ?h c"
    if c: "0 < ?i" "0 < c" "c < length h" "parent c = ?i" for c
  proof -
    have ci: "?i < c" and pi: "parent ?i < ?i" using c parent_less by metis+
    have up: "key_at h (parent ?i) \<le> key_at h ?i" using heap [of ?i] c(1) ij by simp
    show ?thesis
    proof (cases "c = j")
      case True
      with up pi ij show ?thesis by (simp add: nth)
    next
      case False
      have "key_at h ?i \<le> key_at h c" using heap [OF c(2,3) False] c(4) by simp
      with up pi ij ci False show ?thesis by (simp add: nth)
    qed
  qed
  ultimately show ?thesis using ij by (simp add: up_ok_def)
qed

lemma heap_up_spec:
  assumes "up_ok j h"
  shows "is_heap (heap_up h j) \<and> mset (heap_up h j) = mset h"
  using assms
proof (induction h j rule: heap_up.induct)
  case (1 h j)
  let ?i = "parent j"
  show ?case
  proof (cases "?i = j \<or> \<not> JobHeap_Less h j ?i")
    case True
    then have eq: "heap_up h j = h" by (simp add: heap_up_unfold [of h j])
    have "key_at h (parent k) \<le> key_at h k" if "0 < k" "k < length h" for k
    proof (cases "k = j")
      case True: True
      with \<open>?i = j \<or> \<not> JobHeap_Less h j ?i\<close> parent_less [OF that(1)] show ?thesis by (auto simp: Less_key)
    next
      case False
      with that "1.prems" show ?thesis by (simp add: up_ok_def)
    qed
    then show ?thesis by (simp add: eq heap_upto_def)
  next
    case False
    then have j: "0 < j" by (cases j) (auto simp: parent_def)
    have lens: "?i < length h" "j < length h" using "1.prems" parent_less [OF j] by (auto simp: up_ok_def)
    have eq: "heap_up h j = heap_up (JobHeap_Swap h ?i j) ?i"
      using False by (simp add: heap_up_unfold [of h j])
    have "up_ok ?i (JobHeap_Swap h ?i j)" using up_step [OF "1.prems" j] False by (simp add: Less_key)
    from "1.IH" [OF refl False [unfolded parent_def] this [unfolded parent_def]] Swap_mset [OF lens] show ?thesis
      by (simp add: eq parent_def)
  qed
qed

subsection \<open>Moving down\<close>

text \<open>A heap of \<open>n\<close> cells but for the cell \<open>i\<close>, which may be larger than its children.\<close>

definition down_ok :: "nat \<Rightarrow> nat \<Rightarrow> 'z JobWithTimeHeap \<Rightarrow> bool" where
  "down_ok n i h \<longleftrightarrow> n \<le> length h \<and>
     (\<forall>k. 0 < k \<and> k < n \<and> parent k \<noteq> i \<longrightarrow> key_at h (parent k) \<le> key_at h k) \<and>
     (\<forall>c. 0 < i \<and> 0 < c \<and> c < n \<and> parent c = i \<longrightarrow> key_at h (parent i) \<le> key_at h c)"

lemma children: "0 < k \<Longrightarrow> parent k = i \<longleftrightarrow> k = 2 * i + 1 \<or> k = 2 * i + 2"
  by (auto simp: parent_def)

definition min_child :: "'z JobWithTimeHeap \<Rightarrow> nat \<Rightarrow> nat \<Rightarrow> nat" where
  "min_child h i n =
     (if 2 * i + 2 < n \<and> JobHeap_Less h (2 * i + 2) (2 * i + 1) then 2 * i + 2 else 2 * i + 1)"

lemma min_child_least:
  assumes "2 * i + 1 < n" "0 < k" "k < n" "parent k = i"
  shows "key_at h (min_child h i n) \<le> key_at h k"
  using assms children [OF assms(2), of i] by (auto simp: min_child_def Less_key)

lemma min_child_facts:
  assumes "2 * i + 1 < n"
  shows "i < min_child h i n" "min_child h i n < n" "parent (min_child h i n) = i"
  using assms by (auto simp: min_child_def parent_def)

lemma heap_down_unfold:
  "heap_down h i n =
     (if n \<le> 2 * i + 1 \<or> \<not> JobHeap_Less h (min_child h i n) i then h
      else heap_down (JobHeap_Swap h i (min_child h i n)) (min_child h i n) n)"
  by (subst heap_down.simps) (auto simp: Let_def min_child_def)

lemma down_step:
  assumes ok: "down_ok n i h" and c: "2 * i + 1 < n"
    and less: "key_at h (min_child h i n) < key_at h i"
  shows "down_ok n (min_child h i n) (JobHeap_Swap h i (min_child h i n))"
proof -
  let ?j = "min_child h i n"
  let ?h = "JobHeap_Swap h i ?j"
  note mc = min_child_facts [OF c, of h]
  have n: "n \<le> length h" using ok by (simp add: down_ok_def)
  then have nth: "?h ! k = (if k = ?j then h ! i else if k = i then h ! ?j else h ! k)" for k
    using mc by (intro Swap_nth) auto
  have heap: "key_at h (parent k) \<le> key_at h k" if "0 < k" "k < n" "parent k \<noteq> i" for k
    using ok that by (simp add: down_ok_def)
  have "key_at ?h (parent k) \<le> key_at ?h k" if k: "0 < k" "k < n" "parent k \<noteq> ?j" for k
  proof (cases "k = i")
    case True
    have "key_at h (parent i) \<le> key_at h ?j"
      using ok True k(1) mc by (auto simp: down_ok_def)
    moreover have "parent i < i" using True k(1) parent_less by blast
    ultimately show ?thesis using True mc(1) by (simp add: nth)
  next
    case False
    show ?thesis
    proof (cases "parent k = i")
      case True
      then show ?thesis using min_child_least [OF c k(1,2) True, of h] less False mc(1) by (simp add: nth)
    next
      case npar: False
      then have "k \<noteq> ?j" using mc(3) by auto
      with heap [OF k(1,2) npar] False npar k(3) show ?thesis by (simp add: nth)
    qed
  qed
  moreover have "key_at ?h (parent ?j) \<le> key_at ?h k" if k: "0 < k" "k < n" "parent k = ?j" for k
  proof -
    have "?j < k" using k parent_less by metis
    moreover have "key_at h ?j \<le> key_at h k" using heap [OF k(1,2)] k(3) mc(1) by simp
    ultimately show ?thesis using mc by (simp add: nth)
  qed
  ultimately show ?thesis using n by (simp add: down_ok_def)
qed

lemma heap_down_spec:
  assumes "down_ok n i h" "i < n"
  shows "heap_upto n (heap_down h i n) \<and> mset (heap_down h i n) = mset h \<and>
    drop n (heap_down h i n) = drop n h"
  using assms
proof (induction h i n rule: heap_down.induct)
  case (1 h i n)
  let ?j = "min_child h i n"
  have n: "n \<le> length h" using "1.prems" by (simp add: down_ok_def)
  show ?case
  proof (cases "n \<le> 2 * i + 1 \<or> \<not> JobHeap_Less h ?j i")
    case True
    have "key_at h (parent k) \<le> key_at h k" if k: "0 < k" "k < n" for k
    proof (cases "parent k = i")
      case par: True
      then have "2 * i + 1 < n" using k children [of k i] by auto
      with True min_child_least [OF this k par, of h] par show ?thesis by (auto simp: Less_key)
    next
      case False
      with "1.prems"(1) k show ?thesis by (simp add: down_ok_def)
    qed
    with True n show ?thesis by (simp add: heap_down_unfold [of h i n] heap_upto_def)
  next
    case False
    then have c: "2 * i + 1 < n" and less: "key_at h ?j < key_at h i" by (auto simp: Less_key)
    note mc = min_child_facts [OF c, of h]
    have eq: "heap_down h i n = heap_down (JobHeap_Swap h i ?j) ?j n"
      using False by (simp add: heap_down_unfold [of h i n])
    have j: "?j = (if 2 * i + 1 + 1 < n \<and> JobHeap_Less h (2 * i + 1 + 1) (2 * i + 1) then 2 * i + 1 + 1 else 2 * i + 1)"
      by (simp add: min_child_def)
    have "\<not> 2 * i + 1 \<ge> n" "\<not> \<not> JobHeap_Less h ?j i" using c less by (auto simp: Less_key)
    note IH = "1.IH" [OF refl this(1) refl j this(2) down_step [OF "1.prems"(1) c less] mc(2)]
    have "mset (JobHeap_Swap h i ?j) = mset h" using mc n "1.prems"(2) by (intro Swap_mset) auto
    moreover have "drop n (JobHeap_Swap h i ?j) = drop n h"
      using mc "1.prems"(2) by (simp add: JobHeap_Swap_def Let_def)
    ultimately show ?thesis using IH by (simp add: eq)
  qed
qed

section \<open>The heap is a priority queue\<close>

lemma heap_root_least:
  assumes "is_heap h" "i < length h"
  shows "key_at h 0 \<le> key_at h i"
  using assms(2)
proof (induction i rule: less_induct)
  case (less i)
  show ?case
  proof (cases "i = 0")
    case False
    then have "key_at h (parent i) \<le> key_at h i" using assms(1) less.prems by (simp add: heap_upto_def)
    moreover have "key_at h 0 \<le> key_at h (parent i)" using False less parent_less [of i] by simp
    ultimately show ?thesis by simp
  qed simp
qed

lemma heap_Push_spec:
  assumes "is_heap h"
  shows "is_heap (heap_Push x h)" "mset (heap_Push x h) = add_mset x (mset h)"
proof -
  have pl: "parent k < length h" if "0 < k" "k \<le> length h" for k
    using parent_less [OF that(1)] that(2) by simp
  have "up_ok (length h) (h @ [x])"
    unfolding up_ok_def
  proof (intro conjI allI impI)
    fix i assume i: "0 < i \<and> i < length (h @ [x]) \<and> i \<noteq> length h"
    then have "i < length h" "parent i < length h" using pl [of i] by auto
    with i assms show "key_at (h @ [x]) (parent i) \<le> key_at (h @ [x]) i"
      by (simp add: heap_upto_def nth_append)
  next
    fix c assume "0 < length h \<and> 0 < c \<and> c < length (h @ [x]) \<and> parent c = length h"
    with pl [of c] show "key_at (h @ [x]) (parent (length h)) \<le> key_at (h @ [x]) c" by simp
  qed simp
  from heap_up_spec [OF this] show "is_heap (heap_Push x h)" "mset (heap_Push x h) = add_mset x (mset h)"
    by (simp_all add: heap_Push_def JobHeap_Push_def JobHeap_Len_def)
qed

lemma heap_Pop_spec:
  assumes "is_heap h" "h \<noteq> []" "heap_Pop h = (x, h')"
  shows "x = h ! 0" "is_heap h'" "mset h = add_mset x (mset h')"
proof -
  define n where "n = length h - 1"
  let ?h1 = "JobHeap_Swap h 0 n"
  let ?h2 = "heap_down ?h1 0 n"
  have len: "0 < length h" "n < length h" "length h = Suc n" using assms(2) by (auto simp: n_def)
  have nth: "?h1 ! k = (if k = n then h ! 0 else if k = 0 then h ! n else h ! k)" for k
    using len by (intro Swap_nth) auto
  have down: "heap_upto n ?h2 \<and> mset ?h2 = mset ?h1 \<and> drop n ?h2 = drop n ?h1"
  proof (cases "n = 0")
    case True
    then have "?h2 = ?h1" by (simp add: heap_down_unfold)
    with True show ?thesis by (simp add: heap_upto_def)
  next
    case False
    have "down_ok n 0 ?h1"
      using assms(1) len parent_less by (auto simp: down_ok_def heap_upto_def nth) (metis less_trans less_irrefl)
    with False show ?thesis by (intro heap_down_spec) auto
  qed
  have "drop n ?h2 = [h ! 0]"
    using down nth [of n] len by (simp add: Cons_nth_drop_Suc [symmetric])
  then have split: "?h2 = take n ?h2 @ [h ! 0]" by (metis append_take_drop_id)
  have "n < length ?h2" using len by simp
  then have "?h2 ! n = h ! 0" using \<open>drop n ?h2 = [h ! 0]\<close> by (simp add: hd_drop_conv_nth [symmetric])
  with assms(3) have x: "x = h ! 0" "h' = take n ?h2"
    by (simp_all add: heap_Pop_def JobHeap_Pop_def JobHeap_Len_def Let_def len(3))
  then show "x = h ! 0" by simp
  show "is_heap h'" unfolding heap_upto_def x
  proof (intro conjI allI impI)
    fix i assume "0 < i \<and> i < length (take n ?h2)"
    then have i: "0 < i" "i < n" using len by auto
    with down parent_less [OF i(1)]
    show "key_at (take n ?h2) (parent i) \<le> key_at (take n ?h2) i" by (simp add: heap_upto_def)
  qed simp
  have "mset h = mset ?h2" using down Swap_mset [of 0 h n] len by simp
  also have "\<dots> = add_mset x (mset h')" by (subst split) (simp add: x)
  finally show "mset h = add_mset x (mset h')" .
qed

interpretation job_queue: prio_queue is_heap mset job_key "\<lambda>h. h = []" heap_Push heap_Pop
proof (unfold_locales, goal_cases)
  case (6 q x q' y)
  then obtain i where "i < length q" "q ! i = y" by (metis in_set_conv_nth set_mset_mset)
  with 6 heap_root_least [of q i] heap_Pop_spec(1) [of q x q'] show ?case by simp
qed (auto simp: heap_Push_spec heap_Pop_spec)

section \<open>The loops of the packer\<close>

lemma drop_before_pops:
  "\<exists>xs. pops heap_Pop (\<lambda>h. h = []) h xs (drop_before t h) \<and> (is_heap h \<longrightarrow> (\<forall>x\<in>set xs. job_key x < nanos t))"
proof (induction t h rule: drop_before.induct)
  case (1 t h)
  show ?case
  proof (cases "JobHeap_Len h > 0 \<and> Time_Before (RunningTime (JobHeap_Index 0 h)) t")
    case True
    then have ne: "h \<noteq> []" and key: "key_at h 0 < nanos t"
      by (auto simp: JobHeap_Len_def JobHeap_Index_def Time_Before_def job_key_def)
    obtain x h' where pop: "heap_Pop h = (x, h')" by (cases "heap_Pop h")
    from "1.IH" [OF True] obtain xs where xs: "pops heap_Pop (\<lambda>h. h = []) h' xs (drop_before t h')"
      "is_heap h' \<longrightarrow> (\<forall>x\<in>set xs. job_key x < nanos t)" by (auto simp: pop)
    have "drop_before t h = drop_before t h'" using True by (simp add: drop_before.simps [of t h] pop)
    with xs(1) have "pops heap_Pop (\<lambda>h. h = []) h (x # xs) (drop_before t h)"
      using pops_one [of "\<lambda>h. h = []" h heap_Pop x h' xs "drop_before t h"] ne pop by simp
    moreover have "is_heap h \<longrightarrow> (\<forall>y\<in>set (x # xs). job_key y < nanos t)"
      using xs(2) key heap_Pop_spec(1,2) [OF _ ne pop] by auto
    ultimately show ?thesis by blast
  next
    case False
    then have "drop_before t h = h" by (subst drop_before.simps) auto
    then show ?thesis by (auto intro!: exI [of _ "[]"] pops_none)
  qed
qed

lemma drop_before_stops:
  "drop_before t h = [] \<or> nanos t \<le> key_at (drop_before t h) 0"
proof (induction t h rule: drop_before.induct)
  case (1 t h)
  then show ?case
    by (cases "JobHeap_Len h > 0 \<and> Time_Before (RunningTime (JobHeap_Index 0 h)) t")
      (auto simp: drop_before.simps [of t h] JobHeap_Len_def JobHeap_Index_def Time_Before_def job_key_def)
qed

lemma drop_before_spec:
  assumes "is_heap h"
  shows "is_heap (drop_before t h)"
    and "mset (drop_before t h) = filter_mset (\<lambda>x. nanos t \<le> job_key x) (mset h)"
proof -
  obtain xs where xs: "pops heap_Pop (\<lambda>h. h = []) h xs (drop_before t h)"
    "\<And>x. x \<in> set xs \<Longrightarrow> job_key x < nanos t" using drop_before_pops [of h t] assms by blast
  show heap: "is_heap (drop_before t h)" by (rule job_queue.pops_spec(1) [OF xs(1) assms])
  have "nanos t \<le> job_key y" if y: "y \<in># mset (drop_before t h)" for y
  proof -
    obtain i where i: "i < length (drop_before t h)" "drop_before t h ! i = y"
      using y unfolding set_mset_mset in_set_conv_nth by blast
    then have "drop_before t h \<noteq> []" by (metis length_greater_0_conv not_less_zero gr_zeroI)
    then have "nanos t \<le> key_at (drop_before t h) 0" using drop_before_stops [of t h] by blast
    with heap_root_least [OF heap i(1)] i(2) show ?thesis by simp
  qed
  then show "mset (drop_before t h) = filter_mset (\<lambda>x. nanos t \<le> job_key x) (mset h)"
    by (intro job_queue.pops_below [OF xs(1) assms xs(2)])
qed

lemma pop_names_pops: "\<exists>xs. pops heap_Pop (\<lambda>h. h = []) h xs [] \<and> pop_names h = map JobName xs"
proof (induction h rule: pop_names.induct)
  case (1 h)
  show ?case
  proof (cases "h = []")
    case True
    then show ?thesis by (auto intro!: exI [of _ "[]"] pops_none simp: pop_names.simps [of "[]"] JobHeap_Len_def)
  next
    case False
    obtain x h' where pop: "heap_Pop h = (x, h')" by (cases "heap_Pop h")
    have len: "JobHeap_Len h > 0" using False by (simp add: JobHeap_Len_def)
    from "1.IH" [OF len refl pop [symmetric]] obtain xs where
      "pops heap_Pop (\<lambda>h. h = []) h' xs []" "pop_names h' = map JobName xs" by blast
    then show ?thesis
      using len pops_one [of "\<lambda>h. h = []" h heap_Pop x h' xs "[]"] False pop
      by (intro exI [of _ "x # xs"]) (simp add: pop_names.simps [of h])
  qed
qed

section \<open>Properties\<close>

text \<open>The jobs of a packer and its time limit.\<close>

definition packed :: "'z RecentJobPacker \<Rightarrow> 'z JobWithTime multiset" where
  "packed rjp = mset (recentJobs rjp)"

definition packer_ok :: "'z RecentJobPacker \<Rightarrow> bool" where
  "packer_ok rjp \<longleftrightarrow> is_heap (recentJobs rjp)"

lemma NewRecentJobPacker_ok: "packer_ok (NewRecentJobPacker w)" "packed (NewRecentJobPacker w) = {#}"
  by (simp_all add: packer_ok_def packed_def NewRecentJobPacker_def heap_upto_def)

lemma NewRecentJobPacker_timeWindow: "timeWindow (NewRecentJobPacker w) = w"
  by (simp add: NewRecentJobPacker_def)

lemma AddJob_spec:
  assumes "packer_ok rjp"
  shows "packer_ok (AddJob now name t rjp)"
    and "timeWindow (AddJob now name t rjp) = timeWindow rjp"
    and "packed (AddJob now name t rjp) =
      filter_mset (\<lambda>x. nanos now - timeWindow rjp \<le> job_key x)
        (add_mset \<lparr>JobName = name, RunningTime = t\<rparr> (packed rjp))"
proof -
  note push = heap_Push_spec [OF assms [unfolded packer_ok_def], of "\<lparr>JobName = name, RunningTime = t\<rparr>"]
  note drop = drop_before_spec [OF push(1), of "Time_Add (- timeWindow rjp) now"]
  show "packer_ok (AddJob now name t rjp)" using drop(1) by (simp add: packer_ok_def AddJob_def)
  show "timeWindow (AddJob now name t rjp) = timeWindow rjp" by (simp add: AddJob_def)
  show "packed (AddJob now name t rjp) =
      filter_mset (\<lambda>x. nanos now - timeWindow rjp \<le> job_key x)
        (add_mset \<lparr>JobName = name, RunningTime = t\<rparr> (packed rjp))"
    using drop(2) unfolding push(2) by (simp add: packed_def AddJob_def Time_Add_def)
qed

lemma PopAllJobs_spec:
  assumes "packer_ok rjp"
  obtains js where "fst (PopAllJobs rjp) = map JobName js" "mset js = packed rjp" "sorted (map job_key js)"
proof -
  obtain js where js: "pops heap_Pop (\<lambda>h. h = []) (recentJobs rjp) js []" "pop_names (recentJobs rjp) = map JobName js"
    using pop_names_pops by blast
  show thesis
    using job_queue.pops_spec(2,3) [OF js(1) assms [unfolded packer_ok_def]] js(2)
    by (intro that [of js]) (simp_all add: PopAllJobs_def packed_def)
qed

text \<open>A packer that has been used by a sequence of calls of \<^verbatim>\<open>AddJob\<close>, each with the clock at
  the call, the name of the job and its running time.\<close>

fun packer_run :: "('z Time \<times> string \<times> 'z Time) list \<Rightarrow> 'z RecentJobPacker \<Rightarrow> 'z RecentJobPacker" where
  "packer_run [] rjp = rjp"
| "packer_run ((now, name, t) # calls) rjp = packer_run calls (AddJob now name t rjp)"

definition call_job :: "'z Time \<times> string \<times> 'z Time \<Rightarrow> 'z JobWithTime" where
  "call_job c = \<lparr>JobName = fst (snd c), RunningTime = snd (snd c)\<rparr>"

lemma packer_run_spec:
  assumes "packer_ok rjp" "sorted (map (nanos \<circ> fst) calls)" "calls \<noteq> []"
  shows "packer_ok (packer_run calls rjp) \<and>
    packed (packer_run calls rjp) =
      filter_mset (\<lambda>x. nanos (fst (last calls)) - timeWindow rjp \<le> job_key x)
        (packed rjp + mset (map call_job calls))"
  using assms
proof (induction calls rjp rule: packer_run.induct)
  case (2 now name t calls rjp)
  show ?case
  proof (cases "calls = []")
    case True
    with AddJob_spec [OF "2.prems"(1)] show ?thesis by (simp add: call_job_def)
  next
    case False
    have last: "nanos now \<le> nanos (fst (last calls))"
      using "2.prems"(2) False by auto
    have "packer_ok (packer_run calls (AddJob now name t rjp)) \<and>
        packed (packer_run calls (AddJob now name t rjp)) =
        filter_mset (\<lambda>x. nanos (fst (last calls)) - timeWindow rjp \<le> job_key x)
          (packed (AddJob now name t rjp) + mset (map call_job calls))"
      using "2.IH" [OF AddJob_spec(1) [OF "2.prems"(1)]] "2.prems" False AddJob_spec(2) [OF "2.prems"(1), of now name t] by simp
    moreover have "filter_mset (\<lambda>x. nanos (fst (last calls)) - timeWindow rjp \<le> job_key x)
          (packed (AddJob now name t rjp)) =
        filter_mset (\<lambda>x. nanos (fst (last calls)) - timeWindow rjp \<le> job_key x)
          (add_mset \<lparr>JobName = name, RunningTime = t\<rparr> (packed rjp))"
      unfolding AddJob_spec(3) [OF "2.prems"(1)] filter_filter_mset using last
      by (intro filter_mset_cong) auto
    ultimately show ?thesis using False by (simp add: call_job_def [of "(now, name, t)"])
  qed
qed simp

text \<open>
  (C18) The packer keeps what it promises. After any calls of \<^verbatim>\<open>AddJob\<close> on a new packer, with a
  clock that does not run backwards, \<^verbatim>\<open>PopAllJobs\<close> returns the names of exactly the added jobs
  that are not older than the time window at the last call, each as often as it was added, in
  the order of their running times, and leaves the packer empty.\<close>

theorem packer_keeps_the_window:
  assumes "sorted (map (nanos \<circ> fst) calls)" "calls \<noteq> []"
  shows "\<exists>js. fst (PopAllJobs (packer_run calls (NewRecentJobPacker w))) = map JobName js \<and>
      mset js = mset (map call_job (filter (\<lambda>c. nanos (fst (last calls)) - w \<le> nanos (snd (snd c))) calls)) \<and>
      sorted (map (nanos \<circ> RunningTime) js) \<and>
      recentJobs (snd (PopAllJobs (packer_run calls (NewRecentJobPacker w)))) = []"
proof -
  let ?r = "packer_run calls (NewRecentJobPacker w)"
  note run = packer_run_spec [OF NewRecentJobPacker_ok(1) assms, of w]
  obtain js where js: "fst (PopAllJobs ?r) = map JobName js" "mset js = packed ?r" "sorted (map job_key js)"
    using PopAllJobs_spec run by blast
  have "mset js = mset (map call_job (filter (\<lambda>c. nanos (fst (last calls)) - w \<le> nanos (snd (snd c))) calls))"
    using run js(2) unfolding NewRecentJobPacker_ok(2) NewRecentJobPacker_timeWindow
    by (simp add: filter_mset_image_mset job_key_def call_job_def image_mset_filter_mset_swap [symmetric])
  moreover have "sorted (map (nanos \<circ> RunningTime) js)" using js(3) by (simp add: job_key_def [abs_def] comp_def)
  ultimately show ?thesis using js(1) by (intro exI [of _ js]) (simp add: PopAllJobs_def)
qed

definition example_calls :: "(unit Time \<times> string \<times> unit Time) list" where
  "example_calls =
     [(\<lparr>nanos = 3, tloc = UTC\<rparr>, ''late'', \<lparr>nanos = 3, tloc = UTC\<rparr>),
      (\<lparr>nanos = 4, tloc = UTC\<rparr>, ''old'', \<lparr>nanos = 1, tloc = UTC\<rparr>),
      (\<lparr>nanos = 5, tloc = UTC\<rparr>, ''early'', \<lparr>nanos = 2, tloc = UTC\<rparr>)]"

lemma example_calls_jobs:
  "mset (map call_job (filter (\<lambda>c. nanos (fst (last example_calls)) - 3 \<le> nanos (snd (snd c))) example_calls)) =
     {#\<lparr>JobName = ''late'', RunningTime = \<lparr>nanos = 3, tloc = UTC\<rparr>\<rparr>,
       \<lparr>JobName = ''early'', RunningTime = \<lparr>nanos = 2, tloc = UTC\<rparr>\<rparr>#}"
  "sorted (map (nanos \<circ> fst) example_calls)" "example_calls \<noteq> []"
  by (simp_all add: example_calls_def call_job_def)

theorem packer_keeps_the_window_witness:
  "\<exists>js :: unit JobWithTime list. fst (PopAllJobs (packer_run example_calls (NewRecentJobPacker 3))) = map JobName js \<and>
      mset js = {#\<lparr>JobName = ''late'', RunningTime = \<lparr>nanos = 3, tloc = UTC\<rparr>\<rparr>,
        \<lparr>JobName = ''early'', RunningTime = \<lparr>nanos = 2, tloc = UTC\<rparr>\<rparr>#} \<and>
      sorted (map (nanos \<circ> RunningTime) js) \<and>
      recentJobs (snd (PopAllJobs (packer_run example_calls (NewRecentJobPacker 3)))) = []"
  using packer_keeps_the_window [OF example_calls_jobs(2,3), of 3] unfolding example_calls_jobs(1) .

text \<open>
  Each call of \<^verbatim>\<open>AddJob\<close> keeps the slice a heap, keeps the window, and changes the
  collection of packed jobs as its contract says: the new job joins and every job before the
  window, the new one included, leaves.\<close>

theorem AddJob_refines:
  assumes "packer_ok rjp"
  shows "packer_ok (AddJob now name t rjp) \<and> timeWindow (AddJob now name t rjp) = timeWindow rjp \<and>
    packed (AddJob now name t rjp) =
      filter_mset (\<lambda>x. nanos now - timeWindow rjp \<le> nanos (RunningTime x))
        (add_mset \<lparr>JobName = name, RunningTime = t\<rparr> (packed rjp))"
  using AddJob_spec [OF assms] by (simp add: job_key_def)

theorem AddJob_refines_witness:
  "packer_ok (AddJob \<lparr>nanos = 5, tloc = UTC\<rparr> ''j'' \<lparr>nanos = 4, tloc = UTC\<rparr> (NewRecentJobPacker 2 :: unit RecentJobPacker)) \<and>
   packed (AddJob \<lparr>nanos = 5, tloc = UTC\<rparr> ''j'' \<lparr>nanos = 4, tloc = UTC\<rparr> (NewRecentJobPacker 2 :: unit RecentJobPacker)) =
     {#\<lparr>JobName = ''j'', RunningTime = \<lparr>nanos = 4, tloc = UTC\<rparr>\<rparr>#}"
  using AddJob_refines [OF NewRecentJobPacker_ok(1), of "\<lparr>nanos = 5, tloc = UTC\<rparr>" "''j''" "\<lparr>nanos = 4, tloc = UTC\<rparr> :: unit Time" 2]
  by (simp add: NewRecentJobPacker_ok(2) NewRecentJobPacker_timeWindow)

end
