(* ===== verification/Driver.thy ===== *)
theory Driver
  imports NodePool GoStrings GoTime
begin

text \<open>
  Package driver: the two drivers that announce a node in Redis and list the nodes of a
  service (\<^verbatim>\<open>driver/util.go\<close>, \<^verbatim>\<open>option.go\<close>, \<^verbatim>\<open>redisdriver.go\<close>,
  \<^verbatim>\<open>rediszsetdriver.go\<close>). The Redis client, the generator of UUIDs and the clock are code from
  outside the repository: a record of operations on a world \<open>'w\<close>. The cursor of a scan is a
  value of type \<open>'i\<close>. A score is the integer that is sent, and the lower bound of a range of
  scores is an integer, its upper bound being \<^verbatim>\<open>+inf\<close>.
\<close>

section \<open>What the drivers use\<close>

record ('w, 'i) redis =
  Client_Exists :: "string \<Rightarrow> 'w \<Rightarrow> (go_error + int) \<times> 'w"
  Client_SetEx :: "string \<Rightarrow> string \<Rightarrow> duration \<Rightarrow> 'w \<Rightarrow> go_error option \<times> 'w"
  Client_Del :: "string list \<Rightarrow> 'w \<Rightarrow> go_error option \<times> 'w"
  Client_ZAdd :: "string \<Rightarrow> int \<Rightarrow> string \<Rightarrow> 'w \<Rightarrow> go_error option \<times> 'w"
  Client_ZRangeByScore :: "string \<Rightarrow> int \<Rightarrow> 'w \<Rightarrow> (go_error + string list) \<times> 'w"
  Client_Scan :: "string \<Rightarrow> int \<Rightarrow> 'w \<Rightarrow> 'i \<times> 'w"
  Iterator_Next :: "'i \<Rightarrow> 'w \<Rightarrow> bool \<times> 'i \<times> 'w"
  Iterator_Err :: "'i \<Rightarrow> go_error option"
  Iterator_Val :: "'i \<Rightarrow> string"
  uuid_New :: "'w \<Rightarrow> string \<times> 'w"
  time_Now :: "'w \<Rightarrow> unit Time"

section \<open>Keys\<close>

definition DefaultGlobalKeyPrefix :: string where
  "DefaultGlobalKeyPrefix = ''distributed-nodepool:''"

definition GetKeyPre :: "string \<Rightarrow> string \<Rightarrow> string" where
  "GetKeyPre globalKeyPrefix service = globalKeyPrefix @ service @ '':''"

definition GetNodeId :: "('w, 'i) redis \<Rightarrow> string \<Rightarrow> string \<Rightarrow> 'w \<Rightarrow> string \<times> 'w" where
  "GetNodeId c globalKeyPrefix service w =
     (let (u, w) = uuid_New c w in (GetKeyPre globalKeyPrefix service @ u, w))"

definition GetStableJobStore :: "string \<Rightarrow> string \<Rightarrow> string" where
  "GetStableJobStore globalKeyPrefix service = GetKeyPre globalKeyPrefix service @ ''stable-jobs''"

definition GetStableJobStoreTxKey :: "string \<Rightarrow> string \<Rightarrow> string" where
  "GetStableJobStoreTxKey globalKeyPrefix service = GetKeyPre globalKeyPrefix service @ ''TX:stable-jobs''"

text \<open>\<^verbatim>\<open>Time.Unix\<close>: seconds from January 1, 1970 UTC.\<close>

definition Time_Unix :: "'z Time \<Rightarrow> int" where
  "Time_Unix t = unix_sec t - 62135596800"

definition TimePre :: "'z Time \<Rightarrow> duration \<Rightarrow> int" where
  "TimePre t preDuration = Time_Unix (Time_Add (- preDuration) t)"

section \<open>Options\<close>

definition OptionTypeTimeout :: int where "OptionTypeTimeout = 0x600"
definition OptionTypeLogger :: int where "OptionTypeLogger = 0x601"
definition OptionTypeGlobalPrefix :: int where "OptionTypeGlobalPrefix = 0x602"

datatype DriverOption = TimeoutOption duration | LoggerOption | GlobalPrefixOption string

fun DriverOption_Type :: "DriverOption \<Rightarrow> int" where
  "DriverOption_Type (TimeoutOption t) = OptionTypeTimeout"
| "DriverOption_Type LoggerOption = OptionTypeLogger"
| "DriverOption_Type (GlobalPrefixOption p) = OptionTypeGlobalPrefix"

definition NewTimeoutOption :: "duration \<Rightarrow> DriverOption" where
  "NewTimeoutOption timeout = TimeoutOption timeout"

definition NewGlobalPrefixOption :: "string \<Rightarrow> DriverOption" where
  "NewGlobalPrefixOption prefix =
     (let prefix = (if prefix = [] then DefaultGlobalKeyPrefix
                    else if \<not> HasSuffix prefix '':'' then prefix @ '':'' else prefix)
      in GlobalPrefixOption prefix)"

section \<open>State\<close>

text \<open>
  The fields of the driver; the logger is left out. A context is a number, the place in the
  list of all contexts the driver has made; a \<^verbatim>\<open>CancelFunc\<close> is the context it cancels.
\<close>

record RedisDriver =
  GlobalKeyPrefix :: string
  rd_serviceName :: string
  rd_nodeID :: string
  rd_timeout :: duration
  rd_started :: bool
  rd_runtimeCtx :: "nat option"
  rd_runtimeCancel :: "nat option"

text \<open>
  Where a goroutine that runs \<^verbatim>\<open>heartBeat\<close> is: spawned, about to enter the \<^verbatim>\<open>select\<close>, or
  waiting in it, on the context that \<^verbatim>\<open>rd.runtimeCtx\<close> was when it entered.
\<close>

datatype beat = Spawned | AtSelect | Waiting nat

record 'w driver_sys =
  rd :: RedisDriver
  contexts :: "bool list"
  beats :: "beat list"
  world :: 'w

text \<open>\<open>contexts s ! n\<close> says whether context \<open>n\<close> is cancelled.\<close>

definition redisDefaultTimeout :: duration where
  "redisDefaultTimeout = 5 * Second_d"

definition newRedisDriver :: RedisDriver where
  "newRedisDriver =
     \<lparr>GlobalKeyPrefix = DefaultGlobalKeyPrefix, rd_serviceName = [], rd_nodeID = [],
      rd_timeout = redisDefaultTimeout, rd_started = False, rd_runtimeCtx = None, rd_runtimeCancel = None\<rparr>"

definition withOption :: "DriverOption \<Rightarrow> RedisDriver \<Rightarrow> RedisDriver" where
  "withOption opt d =
     (if DriverOption_Type opt = OptionTypeTimeout
      then (case opt of TimeoutOption t \<Rightarrow> d\<lparr>rd_timeout := t\<rparr> | _ \<Rightarrow> d)
      else if DriverOption_Type opt = OptionTypeLogger then d
      else if DriverOption_Type opt = OptionTypeGlobalPrefix
      then (case opt of GlobalPrefixOption p \<Rightarrow> d\<lparr>GlobalKeyPrefix := p\<rparr> | _ \<Rightarrow> d)
      else d)"

definition RedisDriver_Init ::
    "('w, 'i) redis \<Rightarrow> string \<Rightarrow> DriverOption list \<Rightarrow> 'w driver_sys \<Rightarrow> 'w driver_sys" where
  "RedisDriver_Init c service opts s =
     (let d = (rd s)\<lparr>rd_serviceName := service\<rparr>;
          d = fold withOption opts d;
          (id, w) = GetNodeId c (GlobalKeyPrefix d) (rd_serviceName d) (world s)
      in s\<lparr>rd := d\<lparr>rd_nodeID := id\<rparr>, world := w\<rparr>)"

definition RedisDriver_NodeID :: "'w driver_sys \<Rightarrow> string" where
  "RedisDriver_NodeID s = rd_nodeID (rd s)"

section \<open>The driver on keys that expire\<close>

text \<open>
  A heartbeat: the key of the node is set again with the timeout. When the key has gone, the
  node takes a new name.
\<close>

definition registerServiceNode :: "('w, 'i) redis \<Rightarrow> 'w driver_sys \<Rightarrow> go_error option \<times> 'w driver_sys" where
  "registerServiceNode c s =
     (case Client_Exists c (rd_nodeID (rd s)) (world s) of
        (Inl err, w) \<Rightarrow> (Some err, s\<lparr>world := w\<rparr>)
      | (Inr exists, w) \<Rightarrow>
          let (id, w) = (if rd_nodeID (rd s) = [] \<or> exists = 0
                         then GetNodeId c (GlobalKeyPrefix (rd s)) (rd_serviceName (rd s)) w
                         else (rd_nodeID (rd s), w));
              s = s\<lparr>rd := (rd s)\<lparr>rd_nodeID := id\<rparr>\<rparr>;
              (err, w) = Client_SetEx c (rd_nodeID (rd s)) (rd_nodeID (rd s)) (rd_timeout (rd s)) w
          in (err, s\<lparr>world := w\<rparr>))"

text \<open>\<^verbatim>\<open>context.WithCancel\<close>: a new context, not cancelled.\<close>

definition with_cancel :: "'w driver_sys \<Rightarrow> 'w driver_sys" where
  "with_cancel s =
     s\<lparr>rd := (rd s)\<lparr>rd_runtimeCtx := Some (length (contexts s)), rd_runtimeCancel := Some (length (contexts s))\<rparr>,
       contexts := contexts s @ [False]\<rparr>"

definition RedisDriver_Start :: "('w, 'i) redis \<Rightarrow> 'w driver_sys \<Rightarrow> go_error option \<times> 'w driver_sys" where
  "RedisDriver_Start c s =
     (if rd_started (rd s) then (Some ErrDriverStarted, s)
      else
        let s = with_cancel s;
            s = s\<lparr>rd := (rd s)\<lparr>rd_started := True\<rparr>\<rparr>
        in (case registerServiceNode c s of
              (Some err, s) \<Rightarrow> (Some err, s)
            | (None, s) \<Rightarrow> (None, s\<lparr>beats := beats s @ [Spawned]\<rparr>)))"

text \<open>Calling the \<^verbatim>\<open>CancelFunc\<close>; it is nil before the first \<^verbatim>\<open>Start\<close>.\<close>

definition RedisDriver_Stop :: "'w driver_sys \<Rightarrow> go_error option \<times> 'w driver_sys" where
  "RedisDriver_Stop s =
     (case rd_runtimeCancel (rd s) of
        None \<Rightarrow> (Some (Panic NilPointerDereference), s)
      | Some n \<Rightarrow> (None, s\<lparr>contexts := (contexts s)[n := True], rd := (rd s)\<lparr>rd_started := False\<rparr>\<rparr>))"

text \<open>The loop over the iterator; it need not end.\<close>

partial_function (option) scan_loop ::
    "('w, 'i) redis \<Rightarrow> 'i \<Rightarrow> 'w \<Rightarrow> string list \<Rightarrow> ((go_error + string list) \<times> 'w) option" where
  "scan_loop c iter w ret =
     (case Iterator_Next c iter w of
        (ok, iter, w) \<Rightarrow>
          if \<not> ok then Some (Inr ret, w)
          else (case Iterator_Err c iter of
             Some err \<Rightarrow> Some (Inl err, w)
           | None \<Rightarrow> scan_loop c iter w (ret @ [Iterator_Val c iter])))"

definition scan :: "('w, 'i) redis \<Rightarrow> string \<Rightarrow> 'w \<Rightarrow> ((go_error + string list) \<times> 'w) option" where
  "scan c matchStr w = (let (iter, w) = Client_Scan c matchStr (-1) w in scan_loop c iter w [])"

definition RedisDriver_GetNodes ::
    "('w, 'i) redis \<Rightarrow> 'w driver_sys \<Rightarrow> ((go_error + string list) \<times> 'w driver_sys) option" where
  "RedisDriver_GetNodes c s =
     (let mathStr = GetKeyPre (GlobalKeyPrefix (rd s)) (rd_serviceName (rd s)) @ ''*''
      in map_option (\<lambda>(r, w). (r, s\<lparr>world := w\<rparr>)) (scan c mathStr (world s)))"

subsection \<open>The background loop\<close>

text \<open>\<^verbatim>\<open>time.NewTicker(rd.timeout / 2)\<close> panics when its argument is not positive; which way
  the division rounds makes no difference to that.\<close>

definition heartBeat_begin :: "'w driver_sys \<Rightarrow> go_error + beat" where
  "heartBeat_begin s = (if rd_timeout (rd s) div 2 \<le> 0 then Inl (Panic NonPositiveTicker) else Inr AtSelect)"

definition heartBeat_select :: "'w driver_sys \<Rightarrow> go_error + beat" where
  "heartBeat_select s =
     (case rd_runtimeCtx (rd s) of None \<Rightarrow> Inl (Panic NilPointerDereference) | Some n \<Rightarrow> Inr (Waiting n))"

definition heartBeat_tick :: "('w, 'i) redis \<Rightarrow> 'w driver_sys \<Rightarrow> 'w driver_sys" where
  "heartBeat_tick c s = snd (registerServiceNode c s)"

definition heartBeat_done :: "('w, 'i) redis \<Rightarrow> 'w driver_sys \<Rightarrow> 'w driver_sys" where
  "heartBeat_done c s = s\<lparr>world := snd (Client_Del c [rd_nodeID (rd s), rd_nodeID (rd s)] (world s))\<rparr>"

section \<open>The driver on a sorted set\<close>

text \<open>The struct has the same fields.\<close>

type_synonym RedisZSetDriver = RedisDriver

definition newRedisZSetDriver :: RedisZSetDriver where
  "newRedisZSetDriver =
     \<lparr>GlobalKeyPrefix = DefaultGlobalKeyPrefix, rd_serviceName = [], rd_nodeID = [],
      rd_timeout = redisDefaultTimeout, rd_started = False, rd_runtimeCtx = None, rd_runtimeCancel = None\<rparr>"

definition ZSet_withOption :: "DriverOption \<Rightarrow> RedisZSetDriver \<Rightarrow> RedisZSetDriver" where
  "ZSet_withOption opt d =
     (if DriverOption_Type opt = OptionTypeTimeout
      then (case opt of TimeoutOption t \<Rightarrow> d\<lparr>rd_timeout := t\<rparr> | _ \<Rightarrow> d)
      else if DriverOption_Type opt = OptionTypeLogger then d
      else if DriverOption_Type opt = OptionTypeGlobalPrefix
      then (case opt of GlobalPrefixOption p \<Rightarrow> d\<lparr>GlobalKeyPrefix := p\<rparr> | _ \<Rightarrow> d)
      else d)"

definition ZSet_Init ::
    "('w, 'i) redis \<Rightarrow> string \<Rightarrow> DriverOption list \<Rightarrow> 'w driver_sys \<Rightarrow> 'w driver_sys" where
  "ZSet_Init c service opts s =
     (let d = (rd s)\<lparr>rd_serviceName := service\<rparr>;
          d = fold ZSet_withOption opts d;
          (id, w) = GetNodeId c (GlobalKeyPrefix d) service (world s)
      in s\<lparr>rd := d\<lparr>rd_nodeID := id\<rparr>, world := w\<rparr>)"

definition ZSet_NodeID :: "'w driver_sys \<Rightarrow> string" where
  "ZSet_NodeID s = rd_nodeID (rd s)"

definition ZSet_GetNodes ::
    "('w, 'i) redis \<Rightarrow> 'w driver_sys \<Rightarrow> (go_error + string list) \<times> 'w driver_sys" where
  "ZSet_GetNodes c s =
     (case Client_ZRangeByScore c (GetKeyPre (GlobalKeyPrefix (rd s)) (rd_serviceName (rd s)))
             (TimePre (time_Now c (world s)) (rd_timeout (rd s))) (world s) of
        (Inl err, w) \<Rightarrow> (Inl err, s\<lparr>world := w\<rparr>)
      | (Inr nodes, w) \<Rightarrow> (Inr nodes, s\<lparr>world := w\<rparr>))"

definition ZSet_registerServiceNode ::
    "('w, 'i) redis \<Rightarrow> 'w driver_sys \<Rightarrow> go_error option \<times> 'w driver_sys" where
  "ZSet_registerServiceNode c s =
     (let (err, w) = Client_ZAdd c (GetKeyPre (GlobalKeyPrefix (rd s)) (rd_serviceName (rd s)))
                       (Time_Unix (time_Now c (world s))) (rd_nodeID (rd s)) (world s)
      in (err, s\<lparr>world := w\<rparr>))"

definition ZSet_Start :: "('w, 'i) redis \<Rightarrow> 'w driver_sys \<Rightarrow> go_error option \<times> 'w driver_sys" where
  "ZSet_Start c s =
     (if rd_started (rd s) then (Some ErrDriverStarted, s)
      else
        let s = with_cancel s;
            s = s\<lparr>rd := (rd s)\<lparr>rd_started := True\<rparr>\<rparr>
        in (case ZSet_registerServiceNode c s of
              (Some err, s) \<Rightarrow> (Some err, s)
            | (None, s) \<Rightarrow> (None, s\<lparr>beats := beats s @ [Spawned]\<rparr>)))"

definition ZSet_Stop :: "'w driver_sys \<Rightarrow> go_error option \<times> 'w driver_sys" where
  "ZSet_Stop s =
     (case rd_runtimeCancel (rd s) of
        None \<Rightarrow> (Some (Panic NilPointerDereference), s)
      | Some n \<Rightarrow> (None, s\<lparr>contexts := (contexts s)[n := True], rd := (rd s)\<lparr>rd_started := False\<rparr>\<rparr>))"

definition ZSet_heartBeat_tick :: "('w, 'i) redis \<Rightarrow> 'w driver_sys \<Rightarrow> 'w driver_sys" where
  "ZSet_heartBeat_tick c s = snd (ZSet_registerServiceNode c s)"

definition ZSet_heartBeat_done :: "('w, 'i) redis \<Rightarrow> 'w driver_sys \<Rightarrow> 'w driver_sys" where
  "ZSet_heartBeat_done c s = s\<lparr>world := snd (Client_Del c [rd_nodeID (rd s), rd_nodeID (rd s)] (world s))\<rparr>"

section \<open>The interface\<close>

text \<open>The sorted set driver as the interface the pool is given; the pool passes its update
  duration as the timeout.\<close>

definition ZSet_driver :: "('w, 'i) redis \<Rightarrow> 'w driver_sys DriverV2" where
  "ZSet_driver c =
     \<lparr>Driver_Init = (\<lambda>service timeout. ZSet_Init c service [NewTimeoutOption timeout, LoggerOption]),
      Driver_NodeID = ZSet_NodeID, Driver_GetNodes = ZSet_GetNodes c,
      Driver_Start = ZSet_Start c, Driver_Stop = ZSet_Stop\<rparr>"

section \<open>A driver and its goroutines\<close>

text \<open>
  The steps of one driver: calls of \<^verbatim>\<open>Start\<close> and \<^verbatim>\<open>Stop\<close>, which hold the lock, and the steps
  of the heartbeat goroutines, which do not. A timer that has fired and a context that is
  cancelled may both be ready, and then either is taken. \<open>env\<close> is what happens to the world
  meanwhile: time passes, keys expire, other nodes act.
\<close>

datatype driver_label = DStart "go_error option" | DStop "go_error option" | DBegin nat | DSelect nat
  | DTick nat | DDone nat | DEnv

definition set_beat :: "nat \<Rightarrow> beat \<Rightarrow> 'w driver_sys \<Rightarrow> 'w driver_sys" where
  "set_beat i b s = s\<lparr>beats := (beats s)[i := b]\<rparr>"

definition end_beat :: "nat \<Rightarrow> 'w driver_sys \<Rightarrow> 'w driver_sys" where
  "end_beat i s = s\<lparr>beats := take i (beats s) @ drop (Suc i) (beats s)\<rparr>"

inductive driver_step ::
    "('w driver_sys \<Rightarrow> go_error option \<times> 'w driver_sys) \<Rightarrow> ('w driver_sys \<Rightarrow> go_error option \<times> 'w driver_sys) \<Rightarrow>
     ('w driver_sys \<Rightarrow> 'w driver_sys) \<Rightarrow> ('w driver_sys \<Rightarrow> 'w driver_sys) \<Rightarrow> ('w \<Rightarrow> 'w \<Rightarrow> bool) \<Rightarrow>
     'w driver_sys \<Rightarrow> driver_label \<Rightarrow> 'w driver_sys \<Rightarrow> bool"
  for start stop tick finish env where
  d_start: "start s = (r, s') \<Longrightarrow> driver_step start stop tick finish env s (DStart r) s'"
| d_stop: "stop s = (r, s') \<Longrightarrow> driver_step start stop tick finish env s (DStop r) s'"
| d_begin: "i < length (beats s) \<Longrightarrow> beats s ! i = Spawned \<Longrightarrow> heartBeat_begin s = Inr b \<Longrightarrow>
    driver_step start stop tick finish env s (DBegin i) (set_beat i b s)"
| d_select: "i < length (beats s) \<Longrightarrow> beats s ! i = AtSelect \<Longrightarrow> heartBeat_select s = Inr b \<Longrightarrow>
    driver_step start stop tick finish env s (DSelect i) (set_beat i b s)"
| d_tick: "i < length (beats s) \<Longrightarrow> beats s ! i = Waiting n \<Longrightarrow>
    driver_step start stop tick finish env s (DTick i) (set_beat i AtSelect (tick s))"
| d_done: "i < length (beats s) \<Longrightarrow> beats s ! i = Waiting n \<Longrightarrow> n < length (contexts s) \<Longrightarrow> contexts s ! n \<Longrightarrow>
    driver_step start stop tick finish env s (DDone i) (end_beat i (finish s))"
| d_env: "env (world s) w \<Longrightarrow> driver_step start stop tick finish env s DEnv (s\<lparr>world := w\<rparr>)"

inductive driver_run ::
    "('w driver_sys \<Rightarrow> go_error option \<times> 'w driver_sys) \<Rightarrow> ('w driver_sys \<Rightarrow> go_error option \<times> 'w driver_sys) \<Rightarrow>
     ('w driver_sys \<Rightarrow> 'w driver_sys) \<Rightarrow> ('w driver_sys \<Rightarrow> 'w driver_sys) \<Rightarrow> ('w \<Rightarrow> 'w \<Rightarrow> bool) \<Rightarrow>
     'w driver_sys \<Rightarrow> driver_label list \<Rightarrow> 'w driver_sys \<Rightarrow> bool"
  for start stop tick finish env where
  drun_refl: "driver_run start stop tick finish env s [] s"
| drun_step: "driver_run start stop tick finish env s ls s' \<Longrightarrow> driver_step start stop tick finish env s' l s'' \<Longrightarrow>
    driver_run start stop tick finish env s (ls @ [l]) s''"

inductive_cases driver_stepE: "driver_step start stop tick finish env s l s'"

end
