(* ===== verification/DriverProps.thy ===== *)
theory DriverProps
  imports Driver PoolUpdate
begin

text \<open>
  What the drivers promise: the life cycle of a driver with its heartbeat goroutines, proved
  once for both drivers, the listing of the nodes of a service, and the ways in which a node
  and its registration come apart.
\<close>

section \<open>The life cycle\<close>

text \<open>
  What \<^verbatim>\<open>Start\<close> and \<^verbatim>\<open>Stop\<close> of both drivers do with the lifetime of the driver; how a node
  registers is left open.
\<close>

definition same_life :: "'w driver_sys \<Rightarrow> 'w driver_sys \<Rightarrow> bool" where
  "same_life s s' \<longleftrightarrow> contexts s' = contexts s \<and> beats s' = beats s \<and> rd_started (rd s') = rd_started (rd s) \<and>
     rd_runtimeCtx (rd s') = rd_runtimeCtx (rd s) \<and> rd_runtimeCancel (rd s') = rd_runtimeCancel (rd s) \<and>
     rd_timeout (rd s') = rd_timeout (rd s)"

lemma same_life_trans: "same_life s s' \<Longrightarrow> same_life s' s'' \<Longrightarrow> same_life s s''"
  by (simp add: same_life_def)

lemma same_life_world: "same_life s (s\<lparr>world := w\<rparr>)"
  by (simp add: same_life_def)

text \<open>
  Only the last context can be alive, it is alive iff the driver is started, and it is the one
  the driver and its \<^verbatim>\<open>CancelFunc\<close> hold.
\<close>

definition life_inv :: "'w driver_sys \<Rightarrow> bool" where
  "life_inv s \<longleftrightarrow>
     rd_runtimeCtx (rd s) = (if contexts s = [] then None else Some (length (contexts s) - 1)) \<and>
     rd_runtimeCancel (rd s) = rd_runtimeCtx (rd s) \<and>
     (\<forall>n < length (contexts s). \<not> contexts s ! n \<longrightarrow> rd_started (rd s) \<and> n = length (contexts s) - 1) \<and>
     (rd_started (rd s) \<longrightarrow> contexts s \<noteq> [] \<and> \<not> last (contexts s)) \<and>
     (\<forall>n. Waiting n \<in> set (beats s) \<longrightarrow> n < length (contexts s)) \<and>
     (beats s \<noteq> [] \<longrightarrow> contexts s \<noteq> [])"

lemma life_inv_same: "same_life s s' \<Longrightarrow> life_inv s' = life_inv s"
  unfolding same_life_def life_inv_def by simp

lemma driver_run_trans:
  assumes "driver_run start stop tick finish env s ls s'" "driver_run start stop tick finish env s' ls' s''"
  shows "driver_run start stop tick finish env s (ls @ ls') s''"
  using assms(2,1)
  by (induction rule: driver_run.induct) (auto simp: append_assoc [symmetric] simp del: append_assoc intro: drun_step)

locale announcer =
  fixes start stop :: "'w driver_sys \<Rightarrow> go_error option \<times> 'w driver_sys"
    and tick finish :: "'w driver_sys \<Rightarrow> 'w driver_sys"
    and register :: "'w driver_sys \<Rightarrow> go_error option \<times> 'w driver_sys"
  assumes register_life: "same_life s (snd (register s))"
    and tick_life: "same_life s (tick s)"
    and finish_life: "same_life s (finish s)"
    and start_started: "rd_started (rd s) \<Longrightarrow> start s = (Some ErrDriverStarted, s)"
    and start_fresh: "\<not> rd_started (rd s) \<Longrightarrow> s0 = (with_cancel s)\<lparr>rd := (rd (with_cancel s))\<lparr>rd_started := True\<rparr>\<rparr> \<Longrightarrow>
      start s = (fst (register s0), if fst (register s0) = None
        then (snd (register s0))\<lparr>beats := beats (snd (register s0)) @ [Spawned]\<rparr> else snd (register s0))"
    and stop_nil: "rd_runtimeCancel (rd s) = None \<Longrightarrow> stop s = (Some (Panic NilPointerDereference), s)"
    and stop_cancels: "rd_runtimeCancel (rd s) = Some n \<Longrightarrow>
      stop s = (None, s\<lparr>contexts := (contexts s)[n := True], rd := (rd s)\<lparr>rd_started := False\<rparr>\<rparr>)"
begin

lemma start_inv:
  assumes "life_inv s"
  shows "life_inv (snd (start s)) \<and> rd_started (rd (snd (start s)))"
proof (cases "rd_started (rd s)")
  case True
  with assms show ?thesis by (simp add: start_started)
next
  case False
  define s0 where "s0 = (with_cancel s)\<lparr>rd := (rd (with_cancel s))\<lparr>rd_started := True\<rparr>\<rparr>"
  have "life_inv s0"
    using assms False by (auto simp: life_inv_def s0_def with_cancel_def nth_append less_Suc_eq split: if_splits)
  then have r: "life_inv (snd (register s0))" "rd_started (rd (snd (register s0)))"
    using life_inv_same [OF register_life [of s0]] register_life [of s0]
    by (simp_all add: same_life_def s0_def)
  then have "life_inv ((snd (register s0))\<lparr>beats := beats (snd (register s0)) @ [Spawned]\<rparr>)"
    by (auto simp: life_inv_def)
  with r show ?thesis by (simp add: start_fresh [OF False s0_def])
qed

lemma stop_inv:
  assumes "life_inv s"
  shows "life_inv (snd (stop s)) \<and> (contexts s \<noteq> [] \<longrightarrow> fst (stop s) = None \<and> \<not> rd_started (rd (snd (stop s))))"
proof (cases "contexts s = []")
  case True
  then have "rd_runtimeCancel (rd s) = None" using assms by (simp add: life_inv_def)
  with assms True show ?thesis by (simp add: stop_nil)
next
  case False
  then have "rd_runtimeCancel (rd s) = Some (length (contexts s) - 1)" using assms by (simp add: life_inv_def)
  note eq = stop_cancels [OF this]
  have "life_inv (snd (stop s))"
    using assms False unfolding eq by (auto simp: life_inv_def nth_list_update split: if_splits)
  with False show ?thesis by (simp add: eq)
qed

lemma run_inv:
  assumes "driver_run start stop tick finish env s ls s'" "life_inv s"
  shows "life_inv s'"
  using assms
proof (induction rule: driver_run.induct)
  case (drun_step s ls s' l s'')
  then have inv: "life_inv s'" by simp
  from drun_step.hyps(2) show ?case
  proof (cases rule: driver_step.cases)
    case (d_start r)
    then show ?thesis using start_inv [OF inv] by simp
  next
    case (d_stop r)
    then show ?thesis using stop_inv [OF inv] by simp
  next
    case (d_begin i b)
    then show ?thesis using inv
      by (auto simp: life_inv_def set_beat_def heartBeat_begin_def split: if_splits
          dest!: subsetD [OF set_update_subset_insert])
  next
    case (d_select i b)
    then show ?thesis using inv
      by (auto simp: life_inv_def set_beat_def heartBeat_select_def split: if_splits option.splits
          dest!: subsetD [OF set_update_subset_insert])
  next
    case (d_tick i n)
    have "life_inv (tick s')" using life_inv_same [OF tick_life] inv by simp
    then show ?thesis using d_tick
      by (auto simp: life_inv_def set_beat_def dest!: subsetD [OF set_update_subset_insert])
  next
    case (d_done i n)
    have "life_inv (finish s')" using life_inv_same [OF finish_life] inv by simp
    then show ?thesis using d_done
      by (auto simp: life_inv_def end_beat_def dest!: in_set_takeD in_set_dropD)
  next
    case (d_env w)
    then show ?thesis using inv by (simp add: life_inv_def)
  qed
qed

text \<open>A stopped driver, once its goroutines have run on, has none left.\<close>

lemma waiting_beat_ends:
  assumes inv: "life_inv s" and stopped: "\<not> rd_started (rd s)" and b: "beats s = b # bs" and n: "n < length (contexts s)"
    and u: "u = s\<lparr>beats := Waiting n # bs\<rparr>"
  shows "\<exists>s'. driver_step start stop tick finish env u (DDone 0) s' \<and> beats s' = bs \<and> life_inv s' \<and>
    \<not> rd_started (rd s') \<and> rd_timeout (rd s') = rd_timeout (rd s)"
proof (intro exI conjI)
  have "contexts s ! n" using inv stopped b n by (auto simp: life_inv_def)
  then show "driver_step start stop tick finish env u (DDone 0) (end_beat 0 (finish u))"
    using n by (intro d_done [of 0 u n]) (simp_all add: u)
  have f: "same_life u (finish u)" by (rule finish_life)
  have "life_inv u" using inv n b by (auto simp: life_inv_def u)
  then show "life_inv (end_beat 0 (finish u))"
    using f by (auto simp: life_inv_def same_life_def end_beat_def u)
  show "beats (end_beat 0 (finish u)) = bs" "\<not> rd_started (rd (end_beat 0 (finish u)))"
    "rd_timeout (rd (end_beat 0 (finish u))) = rd_timeout (rd s)"
    using f stopped by (simp_all add: same_life_def end_beat_def u)
qed

lemma beat_ends:
  assumes inv: "life_inv s" and stopped: "\<not> rd_started (rd s)" and t: "0 < rd_timeout (rd s) div 2"
    and b: "beats s = b # bs"
  shows "\<exists>ls s'. driver_run start stop tick finish env s ls s' \<and> beats s' = bs \<and> life_inv s' \<and>
    \<not> rd_started (rd s') \<and> rd_timeout (rd s') = rd_timeout (rd s) \<and> set ls \<subseteq> {DBegin 0, DSelect 0, DDone 0}"
proof -
  let ?run = "driver_run start stop tick finish env"
  have last: "contexts s \<noteq> []" "rd_runtimeCtx (rd s) = Some (length (contexts s) - 1)"
    using inv stopped b by (auto simp: life_inv_def)
  note fin = waiting_beat_ends [OF inv stopped b]
  have select: "driver_step start stop tick finish env (s\<lparr>beats := AtSelect # bs\<rparr>) (DSelect 0)
      (s\<lparr>beats := Waiting (length (contexts s) - 1) # bs\<rparr>)"
    using d_select [of 0 "s\<lparr>beats := AtSelect # bs\<rparr>" "Waiting (length (contexts s) - 1)"] last
    by (simp add: heartBeat_select_def set_beat_def)
  have lt: "length (contexts s) - 1 < length (contexts s)" using last by simp
  have one: "?run u [l] u'" if "driver_step start stop tick finish env u l u'" for u l u'
    using drun_step [OF drun_refl that] by simp
  have app: "?run u (ls @ [l]) u''" if "?run u ls u'" "driver_step start stop tick finish env u' l u''" for u ls u' l u''
    using drun_step [OF that] .
  show ?thesis
  proof (cases b)
    case (Waiting n)
    then have "n < length (contexts s)" using inv b by (auto simp: life_inv_def)
    from fin [OF this, of s] Waiting b obtain s' where
      "driver_step start stop tick finish env s (DDone 0) s'" "beats s' = bs" "life_inv s'"
      "\<not> rd_started (rd s')" "rd_timeout (rd s') = rd_timeout (rd s)" by auto
    with one show ?thesis by (intro exI [of _ "[DDone 0]"] exI [of _ s']) auto
  next
    case AtSelect
    then have "s = s\<lparr>beats := AtSelect # bs\<rparr>" using b by simp
    with one [OF select] have run: "?run s [DSelect 0] (s\<lparr>beats := Waiting (length (contexts s) - 1) # bs\<rparr>)" by simp
    from fin [OF lt refl] obtain s' where
      "driver_step start stop tick finish env (s\<lparr>beats := Waiting (length (contexts s) - 1) # bs\<rparr>) (DDone 0) s'"
      "beats s' = bs" "life_inv s'" "\<not> rd_started (rd s')" "rd_timeout (rd s') = rd_timeout (rd s)" by auto
    with app [OF run this(1)] show ?thesis by (intro exI [of _ "[DSelect 0, DDone 0]"] exI [of _ s']) auto
  next
    case Spawned
    have "driver_step start stop tick finish env s (DBegin 0) (s\<lparr>beats := AtSelect # bs\<rparr>)"
      using d_begin [of 0 s AtSelect] Spawned b t by (simp add: heartBeat_begin_def set_beat_def)
    from app [OF one [OF this] select]
    have run: "?run s [DBegin 0, DSelect 0] (s\<lparr>beats := Waiting (length (contexts s) - 1) # bs\<rparr>)" by simp
    from fin [OF lt refl] obtain s' where
      "driver_step start stop tick finish env (s\<lparr>beats := Waiting (length (contexts s) - 1) # bs\<rparr>) (DDone 0) s'"
      "beats s' = bs" "life_inv s'" "\<not> rd_started (rd s')" "rd_timeout (rd s') = rd_timeout (rd s)" by auto
    with app [OF run this(1)] show ?thesis
      by (intro exI [of _ "[DBegin 0, DSelect 0, DDone 0]"] exI [of _ s']) auto
  qed
qed

lemma winds_down:
  assumes "life_inv s" "\<not> rd_started (rd s)" "0 < rd_timeout (rd s) div 2"
  shows "\<exists>ls s'. driver_run start stop tick finish env s ls s' \<and> beats s' = [] \<and> \<not> rd_started (rd s') \<and>
    set ls \<subseteq> {DBegin 0, DSelect 0, DDone 0}"
  using assms
proof (induction "beats s" arbitrary: s)
  case Nil
  then show ?case by (metis drun_refl empty_set empty_subsetI)
next
  case (Cons b bs)
  from beat_ends [OF Cons.prems Cons.hyps(2) [symmetric], of env] obtain ls s' where
    1: "driver_run start stop tick finish env s ls s'" "beats s' = bs" "life_inv s'" "\<not> rd_started (rd s')"
    "rd_timeout (rd s') = rd_timeout (rd s)" "set ls \<subseteq> {DBegin 0, DSelect 0, DDone 0}" by blast
  from Cons.hyps(1) [of s'] 1 Cons.prems(3) obtain ls' s'' where
    2: "driver_run start stop tick finish env s' ls' s''" "beats s'' = []" "\<not> rd_started (rd s'')"
    "set ls' \<subseteq> {DBegin 0, DSelect 0, DDone 0}" by auto
  from driver_run_trans [OF 1(1) 2(1)] 1(6) 2 show ?case
    by (intro exI [of _ "ls @ ls'"] exI [of _ s'']) auto
qed

end

lemma registerServiceNode_life: "same_life s (snd (registerServiceNode c s))"
  by (auto simp: registerServiceNode_def same_life_def Let_def split: prod.splits sum.splits)

lemma ZSet_registerServiceNode_life: "same_life s (snd (ZSet_registerServiceNode c s))"
  by (auto simp: ZSet_registerServiceNode_def same_life_def Let_def split: prod.splits)

interpretation key_driver: announcer "RedisDriver_Start c" RedisDriver_Stop "heartBeat_tick c" "heartBeat_done c"
  "registerServiceNode c" for c
  by unfold_locales
    (auto simp: registerServiceNode_life heartBeat_tick_def heartBeat_done_def same_life_world
      RedisDriver_Start_def RedisDriver_Stop_def Let_def split: prod.splits option.splits)

interpretation zset_driver: announcer "ZSet_Start c" ZSet_Stop "ZSet_heartBeat_tick c" "ZSet_heartBeat_done c"
  "ZSet_registerServiceNode c" for c
  by unfold_locales
    (auto simp: ZSet_registerServiceNode_life ZSet_heartBeat_tick_def ZSet_heartBeat_done_def same_life_world
      ZSet_Start_def ZSet_Stop_def Let_def split: prod.splits option.splits)

end
