(* ===== verification/DriverListing.thy ===== *)
theory DriverListing
  imports DriverProps PoolProps
begin

text \<open>
  What the drivers list. The documented behaviour of Redis that this rests on is stated as
  predicates on the client, which the theorems have as hypotheses, and a small server in
  memory satisfies them.
\<close>

section \<open>Redis\<close>


text \<open>Keys that expire: \<open>live w\<close> are those that exist.\<close>

definition key_server :: "('w, 'i) redis \<Rightarrow> ('w \<Rightarrow> string set) \<Rightarrow> bool" where
  "key_server c live \<longleftrightarrow>
     (\<forall>k w n w'. Client_Exists c k w = (Inr n, w') \<longrightarrow> n = (if k \<in> live w then 1 else 0) \<and> live w' = live w) \<and>
     (\<forall>k v d w w'. Client_SetEx c k v d w = (None, w') \<longrightarrow> live w' = insert k (live w)) \<and>
     (\<forall>ks w w'. Client_Del c ks w = (None, w') \<longrightarrow> live w' = live w - set ks) \<and>
     (\<forall>w u w'. uuid_New c w = (u, w') \<longrightarrow> live w' = live w)"

lemma key_serverD:
  assumes "key_server c live"
  shows "Client_Exists c k w = (Inr n, w') \<Longrightarrow> n = (if k \<in> live w then 1 else 0)"
    "Client_Exists c k w = (Inr n, w') \<Longrightarrow> live w' = live w"
    "Client_SetEx c k v d w = (None, w') \<Longrightarrow> live w' = insert k (live w)"
    "Client_Del c ks w = (None, w') \<Longrightarrow> live w' = live w - set ks"
    "uuid_New c w = (u, w') \<Longrightarrow> live w' = live w"
  using assms by (simp_all add: key_server_def)

text \<open>
  What an iterator yields, and the error it ends with. \<^verbatim>\<open>Next\<close> answers false both at the end
  of the scan and when a request fails, which \<^verbatim>\<open>Err\<close> then tells.
\<close>

inductive yields :: "('w, 'i) redis \<Rightarrow> 'i \<Rightarrow> 'w \<Rightarrow> string list \<Rightarrow> go_error option \<Rightarrow> 'w \<Rightarrow> bool" for c where
  yields_end: "Iterator_Next c iter w = (False, iter', w') \<Longrightarrow> yields c iter w [] (Iterator_Err c iter') w'"
| yields_val: "Iterator_Next c iter w = (True, iter1, w1) \<Longrightarrow> Iterator_Err c iter1 = None \<Longrightarrow>
    yields c iter1 w1 vs e w' \<Longrightarrow> yields c iter w (Iterator_Val c iter1 # vs) e w'"

section \<open>A server in memory\<close>

text \<open>Keys with the time they expire at, members of sorted sets with their scores, a clock in
  nanoseconds, a counter for UUIDs, and whether the connection breaks in a scan.\<close>

record demo_world =
  dw_now :: int
  dw_keys :: "(string \<times> int) list"
  dw_zset :: "((string \<times> string) \<times> int) list"
  dw_uuid :: nat
  dw_broken :: bool

definition dw_live :: "demo_world \<Rightarrow> string set" where
  "dw_live w = fst ` {x \<in> set (dw_keys w). dw_now w < snd x}"

definition dw_scores :: "demo_world \<Rightarrow> string \<Rightarrow> string \<rightharpoonup> int" where
  "dw_scores w key m = map_of (dw_zset w) (key, m)"

type_synonym demo_iter = "string \<times> (go_error + string) list \<times> go_error option"

fun demo_next :: "demo_iter \<Rightarrow> demo_world \<Rightarrow> bool \<times> demo_iter \<times> demo_world" where
  "demo_next (v, [], e) w = (False, (v, [], None), w)"
| "demo_next (v, Inl err # xs, e) w = (False, (v, xs, Some err), w)"
| "demo_next (v, Inr x # xs, e) w = (True, (x, xs, None), w)"

definition demo_redis :: "(demo_world, demo_iter) redis" where
  "demo_redis =
     \<lparr>Client_Exists = (\<lambda>k w. (Inr (if k \<in> dw_live w then 1 else 0), w)),
      Client_SetEx = (\<lambda>k v d w. if 0 < d then (None, w\<lparr>dw_keys := (k, dw_now w + d) # dw_keys w\<rparr>)
        else (Some (ErrRemote ''ERR invalid expire time''), w)),
      Client_Del = (\<lambda>ks w. (None, w\<lparr>dw_keys := filter (\<lambda>x. fst x \<notin> set ks) (dw_keys w)\<rparr>)),
      Client_ZAdd = (\<lambda>key sc m w. (None, w\<lparr>dw_zset := ((key, m), sc) # dw_zset w\<rparr>)),
      Client_ZRangeByScore = (\<lambda>key lo w. (Inr (filter (\<lambda>m. case dw_scores w key m of None \<Rightarrow> False | Some sc \<Rightarrow> lo \<le> sc)
        (remdups (map (snd \<circ> fst) (dw_zset w)))), w)),
      Client_Scan = (\<lambda>pat n w. (([], map Inr (filter (\<lambda>k. HasPrefix k (butlast pat)) (map fst (filter (\<lambda>x. dw_now w < snd x) (dw_keys w)))) @
        (if dw_broken w then [Inl (ErrRemote ''i/o timeout'')] else []), None), w)),
      Iterator_Next = demo_next, Iterator_Err = snd \<circ> snd, Iterator_Val = fst,
      uuid_New = (\<lambda>w. (itoa (dw_uuid w), w\<lparr>dw_uuid := dw_uuid w + 1\<rparr>)),
      time_Now = (\<lambda>w. \<lparr>nanos = dw_now w, tloc = Local\<rparr>)\<rparr>"


lemma demo_key_server: "key_server demo_redis dw_live"
proof -
  have "dw_live (w\<lparr>dw_keys := (k, dw_now w + d) # dw_keys w\<rparr>) = insert k (dw_live w)" if "0 < d" for w k d
    using that by (auto simp: dw_live_def image_iff) (metis fst_conv snd_conv less_add_same_cancel1)
  moreover have "dw_live (w\<lparr>dw_uuid := n\<rparr>) = dw_live w" for w n by (simp add: dw_live_def)
  moreover have "dw_live (w\<lparr>dw_keys := filter (\<lambda>x. fst x \<notin> set ks) (dw_keys w)\<rparr>) = dw_live w - set ks" for w ks
    by (force simp: dw_live_def)
  ultimately show ?thesis by (auto simp: key_server_def demo_redis_def split: if_splits)
qed

lemma demo_yields:
  "yields demo_redis (v, map Inr xs @ (case err of None \<Rightarrow> [] | Some e \<Rightarrow> [Inl e]), e0) w xs err w"
proof (induction xs arbitrary: v e0)
  case Nil
  show ?case
  proof (cases err)
    case None
    with yields_end [of demo_redis "(v, [], e0)" w] show ?thesis by (simp add: demo_redis_def)
  next
    case (Some e)
    with yields_end [of demo_redis "(v, [Inl e], e0)" w] show ?thesis by (simp add: demo_redis_def)
  qed
next
  case (Cons x xs)
  from yields_val [OF _ _ Cons [of x None]] show ?case by (simp add: demo_redis_def)
qed

section \<open>The driver on a sorted set\<close>

definition driver_key :: "RedisDriver \<Rightarrow> string" where
  "driver_key d = GetKeyPre (GlobalKeyPrefix d) (rd_serviceName d)"





text \<open>Two nodes of a service: one registered ten seconds before the other and has been silent.\<close>

definition demo_node :: "string \<Rightarrow> RedisDriver" where
  "demo_node me = newRedisZSetDriver\<lparr>rd_serviceName := ''svc'', rd_nodeID := me\<rparr>"

definition demo_world0 :: "int \<Rightarrow> demo_world" where
  "demo_world0 t = \<lparr>dw_now = t, dw_keys = [], dw_zset = [], dw_uuid = 0, dw_broken = False\<rparr>"

definition demo_at :: "string \<Rightarrow> demo_world \<Rightarrow> demo_world driver_sys" where
  "demo_at me w = \<lparr>rd = demo_node me, contexts = [], beats = [], world = w\<rparr>"






section \<open>The driver on keys that expire\<close>

lemma scan_loop_yields:
  assumes "yields c iter w vs e w'"
  shows "scan_loop c iter w ret = Some (Inr (ret @ vs), w')"
  using assms
proof (induction arbitrary: ret rule: yields.induct)
  case (yields_end iter w iter' w')
  then show ?case by (subst scan_loop.simps) simp
next
  case (yields_val iter w iter1 w1 vs e w')
  then show ?case by (subst scan_loop.simps) simp
qed

text \<open>
  \<^verbatim>\<open>GetNodes\<close> of the driver on keys returns what the scan has yielded, in that order and
  as often as it was yielded, and it returns it without an error also when the scan broke off
  with one: a failed request looks like a shorter list of nodes.
\<close>

theorem GetNodes_ignores_scan_errors:
  assumes "Client_Scan c (driver_key (rd s) @ ''*'') (-1) (world s) = (iter, w)" "yields c iter w vs e w'"
  shows "RedisDriver_GetNodes c s = Some (Inr vs, s\<lparr>world := w'\<rparr>)"
  using assms scan_loop_yields [OF assms(2)]
  by (simp add: RedisDriver_GetNodes_def scan_def driver_key_def Let_def)

theorem GetNodes_ignores_scan_errors_witness:
  "RedisDriver_GetNodes demo_redis (demo_at ''a'' ((demo_world0 0)\<lparr>dw_broken := True\<rparr>)) =
     Some (Inr [], demo_at ''a'' ((demo_world0 0)\<lparr>dw_broken := True\<rparr>))"
proof -
  let ?s = "demo_at ''a'' ((demo_world0 0)\<lparr>dw_broken := True\<rparr>)"
  have "Client_Scan demo_redis (driver_key (rd ?s) @ ''*'') (-1) (world ?s) =
      (([], [Inl (ErrRemote ''i/o timeout'')], None), world ?s)"
    by (simp add: demo_redis_def demo_at_def demo_world0_def)
  moreover have "yields demo_redis ([], [Inl (ErrRemote ''i/o timeout'')], None) (world ?s) [] (Some (ErrRemote ''i/o timeout'')) (world ?s)"
    using demo_yields [of "[]" "[]" "Some (ErrRemote ''i/o timeout'')"] by simp
  ultimately show ?thesis using GetNodes_ignores_scan_errors by fastforce
qed





section \<open>Starting and stopping\<close>

definition fresh_driver :: "'w driver_sys \<Rightarrow> bool" where
  "fresh_driver s \<longleftrightarrow> contexts s = [] \<and> beats s = [] \<and> \<not> rd_started (rd s) \<and>
     rd_runtimeCtx (rd s) = None \<and> rd_runtimeCancel (rd s) = None"

lemma fresh_driver_inv: "fresh_driver s \<Longrightarrow> life_inv s"
  by (simp add: fresh_driver_def life_inv_def)

text \<open>
  (C27) \<^verbatim>\<open>Stop\<close> stops. In every run of either driver, whatever the interleaving of its calls
  and its goroutines, the only context that can be alive is the one the driver holds, and it is
  alive iff the driver is started; and from every state in which the driver is stopped, its
  goroutines, on their own, can run to their ends until none is left.
\<close>

theorem stopped_driver_winds_down:
  assumes "(start, stop, tick, finish) \<in>
      {(RedisDriver_Start c, RedisDriver_Stop, heartBeat_tick c, heartBeat_done c),
       (ZSet_Start c, ZSet_Stop, ZSet_heartBeat_tick c, ZSet_heartBeat_done c)}"
    and "driver_run start stop tick finish env s0 ls s" "fresh_driver s0"
  shows "(\<forall>n < length (contexts s). \<not> contexts s ! n \<longrightarrow> rd_started (rd s) \<and> rd_runtimeCancel (rd s) = Some n) \<and>
    (\<not> rd_started (rd s) \<and> 0 < rd_timeout (rd s) div 2 \<longrightarrow>
      (\<exists>ls' s'. driver_run start stop tick finish env s ls' s' \<and> beats s' = [] \<and> \<not> rd_started (rd s') \<and>
        set ls' \<subseteq> {DBegin 0, DSelect 0, DDone 0}))"
proof -
  note fresh = fresh_driver_inv [OF assms(3)]
  have inv: "life_inv s"
    using assms(1,2) key_driver.run_inv [OF _ fresh] zset_driver.run_inv [OF _ fresh] by auto
  then have "\<forall>n < length (contexts s). \<not> contexts s ! n \<longrightarrow> rd_started (rd s) \<and> rd_runtimeCancel (rd s) = Some n"
    by (auto simp: life_inv_def)
  moreover have "\<exists>ls' s'. driver_run start stop tick finish env s ls' s' \<and> beats s' = [] \<and> \<not> rd_started (rd s') \<and>
      set ls' \<subseteq> {DBegin 0, DSelect 0, DDone 0}" if "\<not> rd_started (rd s)" "0 < rd_timeout (rd s) div 2"
    using assms(1) key_driver.winds_down [OF inv that, of c env] zset_driver.winds_down [OF inv that, of c env]
    by auto
  ultimately show ?thesis by blast
qed

text \<open>Every request succeeds.\<close>

definition reliable :: "('w, 'i) redis \<Rightarrow> bool" where
  "reliable c \<longleftrightarrow> (\<forall>k w. \<exists>n. fst (Client_Exists c k w) = Inr n) \<and>
     (\<forall>k v d w. 0 < d \<longrightarrow> fst (Client_SetEx c k v d w) = None) \<and> (\<forall>ks w. fst (Client_Del c ks w) = None)"

lemma register_reliable:
  assumes "reliable c" "0 < rd_timeout (rd s)"
  shows "fst (registerServiceNode c s) = None"
proof -
  obtain n w where ex: "Client_Exists c (rd_nodeID (rd s)) (world s) = (Inr n, w)"
    using assms(1) unfolding reliable_def by (metis prod.collapse)
  have set: "fst (Client_SetEx c k v (rd_timeout (rd s)) w') = None" for k v w'
    using assms by (simp add: reliable_def)
  show ?thesis using set by (simp add: registerServiceNode_def ex split_beta Let_def)
qed

lemma start_reliable:
  assumes "reliable c" "\<not> rd_started (rd s)" "0 < rd_timeout (rd s)"
  shows "\<exists>s'. RedisDriver_Start c s = (None, s') \<and> contexts s' = contexts s @ [False] \<and>
    beats s' = beats s @ [Spawned] \<and> rd_runtimeCtx (rd s') = Some (length (contexts s)) \<and>
    rd_runtimeCancel (rd s') = Some (length (contexts s)) \<and> rd_started (rd s') \<and> rd_timeout (rd s') = rd_timeout (rd s)"
proof -
  define s0 where "s0 = (with_cancel s)\<lparr>rd := (rd (with_cancel s))\<lparr>rd_started := True\<rparr>\<rparr>"
  have "fst (registerServiceNode c s0) = None"
    using assms by (intro register_reliable) (simp_all add: s0_def with_cancel_def)
  then show ?thesis
    using key_driver.register_life [of s0 c] key_driver.start_fresh [OF assms(2) s0_def, of c]
    by (simp add: same_life_def s0_def with_cancel_def)
qed

text \<open>
  (C37) A restart can unregister the node. When a driver on keys is stopped and started again
  before the old heartbeat goroutine has seen its context cancelled, that goroutine deletes the
  key which the new start has just set, and the started driver is left without a registration.
\<close>

theorem restart_race_unregisters_node:
  assumes "key_server c live" "reliable c" "fresh_driver s" "0 < rd_timeout (rd s) div 2"
  shows "\<exists>s'. driver_run (RedisDriver_Start c) RedisDriver_Stop (heartBeat_tick c) (heartBeat_done c) env s
      [DStart None, DBegin 0, DSelect 0, DStop None, DStart None, DDone 0] s' \<and>
    rd_started (rd s') \<and> beats s' = [Spawned] \<and> rd_nodeID (rd s') \<notin> live (world s')"
proof -
  let ?step = "driver_step (RedisDriver_Start c) RedisDriver_Stop (heartBeat_tick c) (heartBeat_done c) env"
  have t: "0 < rd_timeout (rd s)" using assms(4) by linarith
  note fresh = assms(3) [unfolded fresh_driver_def]
  obtain s1 where s1: "RedisDriver_Start c s = (None, s1)" "contexts s1 = [False]" "beats s1 = [Spawned]"
    "rd_runtimeCtx (rd s1) = Some 0" "rd_runtimeCancel (rd s1) = Some 0" "rd_timeout (rd s1) = rd_timeout (rd s)"
    using start_reliable [OF assms(2) _ t] fresh by auto
  define s2 where "s2 = s1\<lparr>beats := [AtSelect]\<rparr>"
  define s3 where "s3 = s1\<lparr>beats := [Waiting 0]\<rparr>"
  define s4 where "s4 = s3\<lparr>contexts := [True], rd := (rd s3)\<lparr>rd_started := False\<rparr>\<rparr>"
  have 1: "?step s (DStart None) s1" using s1(1) by (rule d_start)
  have 2: "?step s1 (DBegin 0) s2"
    using d_begin [of 0 s1 AtSelect] s1 assms(4) by (simp add: heartBeat_begin_def set_beat_def s2_def)
  have 3: "?step s2 (DSelect 0) s3"
    using d_select [of 0 s2 "Waiting 0"] s1 by (simp add: heartBeat_select_def set_beat_def s2_def s3_def)
  have "RedisDriver_Stop s3 = (None, s4)" using s1 by (simp add: RedisDriver_Stop_def s3_def s4_def)
  then have 4: "?step s3 (DStop None) s4" by (rule d_stop)
  obtain s5 where s5: "RedisDriver_Start c s4 = (None, s5)" "contexts s5 = [True, False]"
    "beats s5 = [Waiting 0, Spawned]" "rd_started (rd s5)"
    using start_reliable [OF assms(2), of s4] s1(6) t by (auto simp: s4_def s3_def)
  have 5: "?step s4 (DStart None) s5" using s5(1) by (rule d_start)
  have 6: "?step s5 (DDone 0) (end_beat 0 (heartBeat_done c s5))"
    using s5 by (intro d_done [of 0 s5 0]) simp_all
  obtain w where "Client_Del c [rd_nodeID (rd s5), rd_nodeID (rd s5)] (world s5) = (None, w)"
    using assms(2) unfolding reliable_def by (metis prod.collapse)
  with key_serverD(4) [OF assms(1) this] have
    "rd_nodeID (rd (end_beat 0 (heartBeat_done c s5))) \<notin> live (world (end_beat 0 (heartBeat_done c s5)))"
    by (simp add: end_beat_def heartBeat_done_def)
  moreover have "rd_started (rd (end_beat 0 (heartBeat_done c s5)))" "beats (end_beat 0 (heartBeat_done c s5)) = [Spawned]"
    using s5 by (simp_all add: end_beat_def heartBeat_done_def)
  moreover note drun_step [OF drun_step [OF drun_step [OF drun_step [OF drun_step [OF drun_step [OF drun_refl 1] 2] 3] 4] 5] 6]
  ultimately show ?thesis by auto
qed

definition demo_fresh :: "demo_world driver_sys" where
  "demo_fresh = demo_at ''x'' (demo_world0 0)"

lemma demo_fresh_facts:
  "fresh_driver demo_fresh" "0 < rd_timeout (rd demo_fresh) div 2" "reliable demo_redis"
  by (simp_all add: demo_fresh_def demo_at_def fresh_driver_def demo_node_def newRedisZSetDriver_def
      redisDefaultTimeout_def Second_d_def reliable_def demo_redis_def)

theorem restart_race_unregisters_node_witness:
  "\<exists>s' ls. driver_run (RedisDriver_Start demo_redis) RedisDriver_Stop (heartBeat_tick demo_redis)
      (heartBeat_done demo_redis) (\<lambda>_ _. False) demo_fresh ls s' \<and> rd_started (rd s') \<and>
    rd_nodeID (rd s') \<notin> dw_live (world s')"
  using restart_race_unregisters_node [OF demo_key_server demo_fresh_facts(3,1,2), of "\<lambda>_ _. False"] by blast

text \<open>The driver after a start and a stop; its goroutine has not run yet.\<close>

definition demo_stopped :: "demo_world driver_sys" where
  "demo_stopped = snd (ZSet_Stop (snd (ZSet_Start demo_redis demo_fresh)))"

lemma demo_stopped_facts:
  "driver_run (ZSet_Start demo_redis) ZSet_Stop tick finish env demo_fresh [DStart None, DStop None] demo_stopped"
  "\<not> rd_started (rd demo_stopped)" "0 < rd_timeout (rd demo_stopped) div 2" "beats demo_stopped = [Spawned]"
proof -
  note defs = demo_stopped_def ZSet_Start_def ZSet_Stop_def ZSet_registerServiceNode_def demo_redis_def demo_fresh_def
    demo_at_def demo_node_def newRedisZSetDriver_def redisDefaultTimeout_def Second_d_def with_cancel_def Let_def
  let ?s = "snd (ZSet_Start demo_redis demo_fresh)"
  have 1: "driver_step (ZSet_Start demo_redis) ZSet_Stop tick finish env demo_fresh (DStart None) ?s"
    by (rule d_start) (simp add: defs)
  have 2: "driver_step (ZSet_Start demo_redis) ZSet_Stop tick finish env ?s (DStop None) demo_stopped"
    by (rule d_stop) (simp add: defs)
  from drun_step [OF drun_step [OF drun_refl 1] 2]
  show "driver_run (ZSet_Start demo_redis) ZSet_Stop tick finish env demo_fresh [DStart None, DStop None] demo_stopped"
    by simp
  show "\<not> rd_started (rd demo_stopped)" "0 < rd_timeout (rd demo_stopped) div 2" "beats demo_stopped = [Spawned]"
    by (simp_all add: defs)
qed

theorem stopped_driver_winds_down_witness:
  "beats demo_stopped = [Spawned] \<and>
   (\<exists>s' ls'. driver_run (ZSet_Start demo_redis) ZSet_Stop (ZSet_heartBeat_tick demo_redis)
      (ZSet_heartBeat_done demo_redis) (\<lambda>_ _. False) demo_stopped ls' s' \<and> beats s' = [])"
  using stopped_driver_winds_down [OF _ demo_stopped_facts(1) demo_fresh_facts(1),
      of "ZSet_heartBeat_tick demo_redis" "ZSet_heartBeat_done demo_redis" demo_redis "\<lambda>_ _. False"]
    demo_stopped_facts(2-4) by blast

end
