(* ===== verification/Chain.thy ===== *)
theory Chain
  imports Prelude
begin

text \<open>
  Job wrappers (\<^verbatim>\<open>cron/chain.go\<close>) and the goroutines in which wrapped jobs run. A wrapper is a
  function that is run once, when the job is submitted, and may then make the mutex or the
  channel its closure shares between all runs of the job. A run of a wrapped job is a thread
  with a stack of the deferred calls it has still to make.
\<close>

section \<open>Wrapping\<close>

text \<open>
  A job: a function of the user, or the closure that one of the three wrappers of the package
  returns, with the mutex or channel it has captured.
\<close>

datatype 'j job = FuncJob 'j | RecoverJob "'j job" | DelayJob nat "'j job" | SkipJob nat "'j job"

text \<open>The mutexes, locked or not, and the channels of capacity 1, with the number of values in them.\<close>

record chain_heap =
  mutexes :: "bool list"
  channels :: "nat list"

type_synonym 'j JobWrapper = "'j job \<Rightarrow> chain_heap \<Rightarrow> 'j job \<times> chain_heap"

record 'j Chain =
  wrappers :: "'j JobWrapper list"

definition NewChain :: "'j JobWrapper list \<Rightarrow> 'j Chain" where
  "NewChain c = \<lparr>wrappers = c\<rparr>"

definition Then :: "'j Chain \<Rightarrow> 'j job \<Rightarrow> chain_heap \<Rightarrow> 'j job \<times> chain_heap" where
  "Then c j h =
     fold (\<lambda>i (j, h). (wrappers c ! (length (wrappers c) - i - 1)) j h) [0..<length (wrappers c)] (j, h)"

definition Recover :: "'j JobWrapper" where
  "Recover j h = (RecoverJob j, h)"

definition DelayIfStillRunning :: "'j JobWrapper" where
  "DelayIfStillRunning j h = (DelayJob (length (mutexes h)) j, h\<lparr>mutexes := mutexes h @ [False]\<rparr>)"

text \<open>The channel is made and one value is sent to it.\<close>

definition SkipIfStillRunning :: "'j JobWrapper" where
  "SkipIfStillRunning j h = (SkipJob (length (channels h)) j, h\<lparr>channels := channels h @ [1]\<rparr>)"

section \<open>Running\<close>

datatype outcome = Normal | Panicked

text \<open>
  What a thread is about to do: call \<^verbatim>\<open>Run\<close> of a job, carry on in the user's function, or
  return. And the deferred calls on its stack: \<^verbatim>\<open>recover\<close>, \<^verbatim>\<open>mu.Unlock\<close>, and sending the
  value back to the channel.
\<close>

datatype 'j control = Enter "'j job" | Running 'j | Return outcome

datatype frame = DeferRecover | DeferUnlock nat | DeferSend nat

type_synonym 'j thread = "'j control \<times> frame list"

datatype 'j event = Silent | Call 'j | LogPanic | LogSkip

text \<open>
  One step of a thread. Locking waits until the mutex is free. The body of the user's function
  is one step, which returns or panics, but other threads may run while it is under way. How
  long the thread has waited for the mutex is only logged.
\<close>

inductive thread_step ::
    "chain_heap \<Rightarrow> 'j thread \<Rightarrow> 'j event \<Rightarrow> chain_heap \<Rightarrow> 'j thread \<Rightarrow> bool" where
  enter_func: "thread_step h (Enter (FuncJob f), k) (Call f) h (Running f, k)"
| func_ends: "thread_step h (Running f, k) Silent h (Return r, k)"
| enter_recover: "thread_step h (Enter (RecoverJob j), k) Silent h (Enter j, DeferRecover # k)"
| enter_delay: "m < length (mutexes h) \<Longrightarrow> \<not> mutexes h ! m \<Longrightarrow>
    thread_step h (Enter (DelayJob m j), k) Silent (h\<lparr>mutexes := (mutexes h)[m := True]\<rparr>) (Enter j, DeferUnlock m # k)"
| enter_skip: "c < length (channels h) \<Longrightarrow> channels h ! c > 0 \<Longrightarrow>
    thread_step h (Enter (SkipJob c j), k) Silent (h\<lparr>channels := (channels h)[c := channels h ! c - 1]\<rparr>)
      (Enter j, DeferSend c # k)"
| skip: "c < length (channels h) \<Longrightarrow> channels h ! c = 0 \<Longrightarrow>
    thread_step h (Enter (SkipJob c j), k) LogSkip h (Return Normal, k)"
| recovered: "thread_step h (Return r, DeferRecover # k) (if r = Panicked then LogPanic else Silent) h (Return Normal, k)"
| unlock: "m < length (mutexes h) \<Longrightarrow>
    thread_step h (Return r, DeferUnlock m # k) Silent (h\<lparr>mutexes := (mutexes h)[m := False]\<rparr>) (Return r, k)"
| send_back: "c < length (channels h) \<Longrightarrow> channels h ! c < 1 \<Longrightarrow>
    thread_step h (Return r, DeferSend c # k) Silent (h\<lparr>channels := (channels h)[c := channels h ! c + 1]\<rparr>) (Return r, k)"

inductive_cases thread_stepE: "thread_step h t e h' t'"

section \<open>The goroutines of a process\<close>

text \<open>
  \<open>jobs\<close> are the wrapped jobs that have been submitted; any of them may be started, in its own
  goroutine, at any time. A panic that nobody recovers ends the process.
\<close>

record 'j job_sys =
  heap :: chain_heap
  jobs :: "'j job list"
  threads :: "'j thread list"
  crashed :: bool

datatype 'j sys_label = Submit 'j | Spawn nat | Step nat "'j event" | Finish nat | Crash nat

definition remove_at :: "nat \<Rightarrow> 'a list \<Rightarrow> 'a list" where
  "remove_at i xs = take i xs @ drop (Suc i) xs"

inductive job_step :: "'j Chain \<Rightarrow> 'j job_sys \<Rightarrow> 'j sys_label \<Rightarrow> 'j job_sys \<Rightarrow> bool" for c where
  submit: "\<not> crashed s \<Longrightarrow> Then c (FuncJob f) (heap s) = (j, h) \<Longrightarrow>
    job_step c s (Submit f) (s\<lparr>heap := h, jobs := jobs s @ [j]\<rparr>)"
| spawn: "\<not> crashed s \<Longrightarrow> i < length (jobs s) \<Longrightarrow>
    job_step c s (Spawn i) (s\<lparr>threads := threads s @ [(Enter (jobs s ! i), [])]\<rparr>)"
| step: "\<not> crashed s \<Longrightarrow> i < length (threads s) \<Longrightarrow> thread_step (heap s) (threads s ! i) e h t \<Longrightarrow>
    job_step c s (Step i e) (s\<lparr>heap := h, threads := (threads s)[i := t]\<rparr>)"
| finish: "\<not> crashed s \<Longrightarrow> i < length (threads s) \<Longrightarrow> threads s ! i = (Return Normal, []) \<Longrightarrow>
    job_step c s (Finish i) (s\<lparr>threads := remove_at i (threads s)\<rparr>)"
| crash: "\<not> crashed s \<Longrightarrow> i < length (threads s) \<Longrightarrow> threads s ! i = (Return Panicked, []) \<Longrightarrow>
    job_step c s (Crash i) (s\<lparr>crashed := True\<rparr>)"

inductive job_run :: "'j Chain \<Rightarrow> 'j job_sys \<Rightarrow> 'j sys_label list \<Rightarrow> 'j job_sys \<Rightarrow> bool" for c where
  jrun_refl: "job_run c s [] s"
| jrun_step: "job_run c s ls s' \<Longrightarrow> job_step c s' l s'' \<Longrightarrow> job_run c s (ls @ [l]) s''"

definition no_jobs :: "'j job_sys" where
  "no_jobs = \<lparr>heap = \<lparr>mutexes = [], channels = []\<rparr>, jobs = [], threads = [], crashed = False\<rparr>"

end
