(* ===== verification/ChainProps.thy ===== *)
theory ChainProps
  imports Chain
begin

text \<open>
  The wrappers keep their promises under every interleaving of the goroutines: delayed jobs
  exclude each other, skipping jobs never overlap, recovered panics do not end the process,
  and the goroutines never deadlock.
\<close>

section \<open>Chains compose\<close>

lemma Then_fold: "Then c j h = fold (\<lambda>w (j, h). w j h) (rev (wrappers c)) (j, h)"
proof -
  let ?ws = "wrappers c"
  have "map (\<lambda>i. ?ws ! (length ?ws - i - 1)) [0..<length ?ws] = rev ?ws"
    by (rule nth_equalityI) (simp_all add: rev_nth)
  moreover have "fold (\<lambda>w (j, h). w j h) (map (\<lambda>i. ?ws ! (length ?ws - i - 1)) [0..<length ?ws]) (j, h) = Then c j h"
    by (simp add: Then_def fold_map comp_def)
  ultimately show ?thesis by simp
qed

lemma Then_foldr: "Then c j h = foldr (\<lambda>w (j, h). w j h) (wrappers c) (j, h)"
  by (simp add: Then_fold foldr_conv_fold)

section \<open>Well-formed jobs and threads\<close>

primrec job_mutexes :: "'j job \<Rightarrow> nat list" where
  "job_mutexes (FuncJob f) = []"
| "job_mutexes (RecoverJob j) = job_mutexes j"
| "job_mutexes (DelayJob m j) = m # job_mutexes j"
| "job_mutexes (SkipJob c j) = job_mutexes j"

primrec job_channels :: "'j job \<Rightarrow> nat list" where
  "job_channels (FuncJob f) = []"
| "job_channels (RecoverJob j) = job_channels j"
| "job_channels (DelayJob m j) = job_channels j"
| "job_channels (SkipJob c j) = c # job_channels j"

text \<open>The mutexes of a job are locked in descending order, because inner wrappers are applied first.\<close>

definition job_ok :: "chain_heap \<Rightarrow> 'j job \<Rightarrow> bool" where
  "job_ok h j \<longleftrightarrow> sorted_wrt (>) (job_mutexes j) \<and> set (job_mutexes j) \<subseteq> {..<length (mutexes h)} \<and>
     set (job_channels j) \<subseteq> {..<length (channels h)}"

text \<open>A heap that has grown by free mutexes and channels with a value.\<close>

definition heap_ext :: "chain_heap \<Rightarrow> chain_heap \<Rightarrow> bool" where
  "heap_ext h h' \<longleftrightarrow> (\<exists>m c. mutexes h' = mutexes h @ replicate m False \<and> channels h' = channels h @ replicate c 1)"

lemma heap_ext_trans: "heap_ext h h' \<Longrightarrow> heap_ext h' h'' \<Longrightarrow> heap_ext h h''"
  unfolding heap_ext_def by (force simp: replicate_add [symmetric])

lemma heap_ext_refl: "heap_ext h h"
  unfolding heap_ext_def by (auto intro!: exI [of _ 0])

lemma heap_ext_length: "heap_ext h h' \<Longrightarrow> length (mutexes h) \<le> length (mutexes h') \<and> length (channels h) \<le> length (channels h')"
  by (auto simp: heap_ext_def)

lemma heap_extI:
  "mutexes h' = mutexes h @ replicate m False \<Longrightarrow> channels h' = channels h @ replicate c 1 \<Longrightarrow> heap_ext h h'"
  by (auto simp: heap_ext_def)

text \<open>The contract of a wrapper.\<close>

locale wrapper =
  fixes wrap :: "'j JobWrapper"
  assumes wrap_ok: "job_ok h j \<Longrightarrow> wrap j h = (j', h') \<Longrightarrow> job_ok h' j'"
    and wrap_ext: "wrap j h = (j', h') \<Longrightarrow> heap_ext h h'"
begin

lemma wrap_both: "job_ok h j \<Longrightarrow> heap_ext h0 h \<Longrightarrow> wrap j h = (j', h') \<Longrightarrow> job_ok h' j' \<and> heap_ext h0 h'"
  using wrap_ok wrap_ext heap_ext_trans by metis

end

interpretation recover_w: wrapper Recover
  by unfold_locales (auto simp: Recover_def job_ok_def heap_ext_refl)

interpretation delay_w: wrapper DelayIfStillRunning
  by unfold_locales
    (auto simp: DelayIfStillRunning_def job_ok_def less_Suc_eq intro: heap_extI [where m = 1 and c = 0])

interpretation skip_w: wrapper SkipIfStillRunning
  by unfold_locales
    (auto simp: SkipIfStillRunning_def job_ok_def less_Suc_eq intro: heap_extI [where m = 0 and c = 1])

definition standard_chain :: "'j Chain \<Rightarrow> bool" where
  "standard_chain c \<longleftrightarrow> set (wrappers c) \<subseteq> {Recover, DelayIfStillRunning, SkipIfStillRunning}"

lemma Then_ok:
  assumes "standard_chain c" "Then c (FuncJob f) h = (j, h')"
  shows "job_ok h' j \<and> heap_ext h h'"
proof -
  have "job_ok (snd (foldr (\<lambda>w (j, h). w j h) ws (FuncJob f, h))) (fst (foldr (\<lambda>w (j, h). w j h) ws (FuncJob f, h))) \<and>
      heap_ext h (snd (foldr (\<lambda>w (j, h). w j h) ws (FuncJob f, h)))"
    if "set ws \<subseteq> {Recover, DelayIfStillRunning, SkipIfStillRunning}" for ws :: "'a JobWrapper list"
    using that
  proof (induction ws)
    case Nil
    then show ?case by (simp add: job_ok_def heap_ext_refl)
  next
    case (Cons w ws)
    obtain j0 h0 where r: "foldr (\<lambda>w (j, h). w j h) ws (FuncJob f, h) = (j0, h0)" by fastforce
    then have IH: "job_ok h0 j0" "heap_ext h h0" using Cons by auto
    obtain j1 h1 where w: "w j0 h0 = (j1, h1)" by fastforce
    then have "job_ok h1 j1 \<and> heap_ext h h1"
      using Cons.prems recover_w.wrap_both [OF IH] delay_w.wrap_both [OF IH] skip_w.wrap_both [OF IH] by auto
    then show ?case by (simp add: r w)
  qed
  from this [OF assms(1) [unfolded standard_chain_def]] assms(2) show ?thesis by (simp add: Then_foldr)
qed

primrec control_mutexes :: "'j control \<Rightarrow> nat list" where
  "control_mutexes (Enter j) = job_mutexes j"
| "control_mutexes (Running f) = []"
| "control_mutexes (Return r) = []"

primrec control_channels :: "'j control \<Rightarrow> nat list" where
  "control_channels (Enter j) = job_channels j"
| "control_channels (Running f) = []"
| "control_channels (Return r) = []"

fun frame_mutexes :: "frame list \<Rightarrow> nat list" where
  "frame_mutexes [] = []"
| "frame_mutexes (DeferUnlock m # k) = m # frame_mutexes k"
| "frame_mutexes (_ # k) = frame_mutexes k"

fun frame_channels :: "frame list \<Rightarrow> nat list" where
  "frame_channels [] = []"
| "frame_channels (DeferSend c # k) = c # frame_channels k"
| "frame_channels (_ # k) = frame_channels k"

text \<open>The mutexes a thread holds and will ask for, in the order of locking.\<close>

definition thread_ok :: "chain_heap \<Rightarrow> 'j thread \<Rightarrow> bool" where
  "thread_ok h t \<longleftrightarrow>
     sorted_wrt (>) (rev (frame_mutexes (snd t)) @ control_mutexes (fst t)) \<and>
     set (frame_mutexes (snd t)) \<union> set (control_mutexes (fst t)) \<subseteq> {..<length (mutexes h)} \<and>
     set (frame_channels (snd t)) \<union> set (control_channels (fst t)) \<subseteq> {..<length (channels h)}"

lemma frame_mutexes_iff: "m \<in> set (frame_mutexes k) \<longleftrightarrow> DeferUnlock m \<in> set k"
  by (induction k rule: frame_mutexes.induct) auto

lemma frame_channels_iff: "c \<in> set (frame_channels k) \<longleftrightarrow> DeferSend c \<in> set k"
  by (induction k rule: frame_channels.induct) auto

lemma thread_step_lengths:
  "thread_step h t e h' t' \<Longrightarrow> length (mutexes h') = length (mutexes h) \<and> length (channels h') = length (channels h)"
  by (induction rule: thread_step.induct) auto

lemma thread_step_ok:
  assumes "thread_step h t e h' t'" "thread_ok h t"
  shows "thread_ok h' t'"
  using assms by (induction rule: thread_step.induct) (auto simp: thread_ok_def sorted_wrt_append)

section \<open>Locks and values are conserved\<close>

definition all_frames :: "'j thread list \<Rightarrow> frame list" where
  "all_frames ts = concat (map snd ts)"

lemma all_frames_simps [simp]:
  "all_frames [] = []" "all_frames (t # ts) = snd t @ all_frames ts" "all_frames (ts @ us) = all_frames ts @ all_frames us"
  by (simp_all add: all_frames_def)

lemma all_frames_upd:
  assumes "i < length ts"
  shows "count_list (all_frames (ts[i := t])) x + count_list (snd (ts ! i)) x =
    count_list (all_frames ts) x + count_list (snd t) x"
  using assms
proof (induction ts arbitrary: i)
  case (Cons u ts)
  then show ?case by (cases i) auto
qed simp

lemma all_frames_remove:
  assumes "i < length ts" "snd (ts ! i) = []"
  shows "all_frames (remove_at i ts) = all_frames ts"
  using id_take_nth_drop [OF assms(1)] assms(2)
  by (metis all_frames_simps(2,3) append_Nil remove_at_def)

text \<open>
  A mutex is locked iff one frame on one stack will unlock it; a channel has a value iff no
  frame will send one back.
\<close>

definition conserved :: "chain_heap \<Rightarrow> frame list \<Rightarrow> bool" where
  "conserved h k \<longleftrightarrow>
     (\<forall>m < length (mutexes h). count_list k (DeferUnlock m) = of_bool (mutexes h ! m)) \<and>
     (\<forall>c < length (channels h). channels h ! c + count_list k (DeferSend c) = 1)"

definition sys_ok :: "'j job_sys \<Rightarrow> bool" where
  "sys_ok s \<longleftrightarrow> (\<forall>j \<in> set (jobs s). job_ok (heap s) j) \<and> (\<forall>t \<in> set (threads s). thread_ok (heap s) t) \<and>
     conserved (heap s) (all_frames (threads s))"

lemma conserved_same:
  assumes "conserved h K" "\<And>m. count_list K' (DeferUnlock m) = count_list K (DeferUnlock m)"
    "\<And>c. count_list K' (DeferSend c) = count_list K (DeferSend c)"
  shows "conserved h K'"
  using assms by (simp add: conserved_def)

lemma conserved_mutex:
  assumes "conserved h K" "m < length (mutexes h)" "count_list K' (DeferUnlock m) = of_bool b"
    and "\<And>n. n \<noteq> m \<Longrightarrow> count_list K' (DeferUnlock n) = count_list K (DeferUnlock n)"
    and "\<And>c. count_list K' (DeferSend c) = count_list K (DeferSend c)"
  shows "conserved (h\<lparr>mutexes := (mutexes h)[m := b]\<rparr>) K'"
  using assms by (auto simp: conserved_def nth_list_update)

lemma conserved_channel:
  assumes "conserved h K" "c < length (channels h)" "v + count_list K' (DeferSend c) = 1"
    and "\<And>d. d \<noteq> c \<Longrightarrow> count_list K' (DeferSend d) = count_list K (DeferSend d)"
    and "\<And>m. count_list K' (DeferUnlock m) = count_list K (DeferUnlock m)"
  shows "conserved (h\<lparr>channels := (channels h)[c := v]\<rparr>) K'"
  using assms by (auto simp: conserved_def nth_list_update)

lemma conserved_step:
  assumes "thread_step h t e h' t'" "conserved h K"
    and cnt: "\<And>x. count_list K' x + count_list (snd t) x = count_list K x + count_list (snd t') x"
  shows "conserved h' K'"
  using assms(1,2) cnt
proof (induction rule: thread_step.induct)
  case (enter_delay m h j k)
  have K': "count_list K' x = count_list K x + of_bool (x = DeferUnlock m)" for x
    using enter_delay.prems(2) [of x] by (auto split: if_splits)
  have "count_list K (DeferUnlock m) = 0" using enter_delay by (simp add: conserved_def)
  then show ?case by (intro conserved_mutex [OF enter_delay.prems(1) enter_delay.hyps(1)]) (simp_all add: K')
next
  case (enter_skip c h j k)
  have K': "count_list K' x = count_list K x + of_bool (x = DeferSend c)" for x
    using enter_skip.prems(2) [of x] by (auto split: if_splits)
  have "channels h ! c + count_list K (DeferSend c) = 1" using enter_skip by (simp add: conserved_def)
  then show ?case using enter_skip.hyps(2)
    by (intro conserved_channel [OF enter_skip.prems(1) enter_skip.hyps(1)]) (simp_all add: K')
next
  case (unlock m h r k)
  have K': "count_list K x = count_list K' x + of_bool (x = DeferUnlock m)" for x
    using unlock.prems(2) [of x] by (auto split: if_splits)
  have "count_list K (DeferUnlock m) \<le> 1" using unlock by (simp add: conserved_def)
  then show ?case by (intro conserved_mutex [OF unlock.prems(1) unlock.hyps(1)]) (simp_all add: K')
next
  case (send_back c h r k)
  have K': "count_list K x = count_list K' x + of_bool (x = DeferSend c)" for x
    using send_back.prems(2) [of x] by (auto split: if_splits)
  have "channels h ! c + count_list K (DeferSend c) = 1" using send_back.prems(1) send_back.hyps(1) unfolding conserved_def by blast
  then show ?case
    by (intro conserved_channel [OF send_back.prems(1) send_back.hyps(1)]) (simp_all add: K')
next
  case (enter_recover h j k)
  then show ?case by (intro conserved_same [OF enter_recover.prems(1)]) (metis count_list.simps(2) frame.distinct snd_conv add_right_cancel)+
next
  case (recovered h r k)
  then show ?case by (intro conserved_same [OF recovered.prems(1)]) (metis count_list.simps(2) frame.distinct snd_conv add_right_cancel)+
qed (auto intro: conserved_same)

lemma job_ok_ext: "job_ok h j \<Longrightarrow> heap_ext h h' \<Longrightarrow> job_ok h' j"
  using heap_ext_length [of h h'] by (force simp: job_ok_def)

lemma thread_ok_ext: "thread_ok h t \<Longrightarrow> heap_ext h h' \<Longrightarrow> thread_ok h' t"
  using heap_ext_length [of h h'] by (force simp: thread_ok_def)

lemma conserved_ext:
  assumes "conserved h (all_frames ts)" "heap_ext h h'" "\<forall>t \<in> set ts. thread_ok h t"
  shows "conserved h' (all_frames ts)"
proof -
  obtain a b where h': "mutexes h' = mutexes h @ replicate a False" "channels h' = channels h @ replicate b 1"
    using assms(2) by (auto simp: heap_ext_def)
  have "count_list (all_frames ts) (DeferUnlock m) = 0" if "m \<ge> length (mutexes h)" for m
    using assms(3) that by (force simp: all_frames_def thread_ok_def frame_mutexes_iff [symmetric] count_list_0_iff)
  moreover have "count_list (all_frames ts) (DeferSend c) = 0" if "c \<ge> length (channels h)" for c
    using assms(3) that by (force simp: all_frames_def thread_ok_def frame_channels_iff [symmetric] count_list_0_iff)
  ultimately show ?thesis using assms(1) by (auto simp: conserved_def h' nth_append)
qed

lemma job_step_ok:
  assumes "job_step c s l s'" "sys_ok s" "standard_chain c"
  shows "sys_ok s'"
  using assms(1)
proof (cases rule: job_step.cases)
  case (submit f j h)
  note ext = Then_ok [OF assms(3) submit(4)]
  with assms(2) conserved_ext [of "heap s" "threads s" h] show ?thesis
    by (auto simp: submit sys_ok_def intro: job_ok_ext thread_ok_ext)
next
  case (spawn i)
  then have "thread_ok (heap s) (Enter (jobs s ! i), [])"
    using assms(2) by (simp add: sys_ok_def job_ok_def thread_ok_def)
  with assms(2) spawn show ?thesis by (auto simp: sys_ok_def)
next
  case (step i e h t)
  note st = step(5)
  have old: "thread_ok (heap s) (threads s ! i)" using assms(2) step(4) by (simp add: sys_ok_def)
  have "thread_ok h u" if "u \<in> set ((threads s)[i := t])" for u
  proof -
    have "u = t \<or> u \<in> set (threads s)" using that set_update_subset_insert [of "threads s" i t] by blast
    then show ?thesis
      using thread_step_ok [OF st old] thread_step_lengths [OF st] assms(2) by (auto simp: sys_ok_def thread_ok_def)
  qed
  moreover have "conserved h (all_frames ((threads s)[i := t]))"
    using assms(2) all_frames_upd [OF step(4)] by (intro conserved_step [OF st]) (simp_all add: sys_ok_def)
  moreover have "\<forall>j \<in> set (jobs s). job_ok h j"
    using assms(2) thread_step_lengths [OF st] by (auto simp: sys_ok_def job_ok_def)
  ultimately show ?thesis by (simp add: step sys_ok_def)
next
  case (finish i)
  have "set (remove_at i (threads s)) \<subseteq> set (threads s)"
    by (auto simp: remove_at_def dest: in_set_takeD in_set_dropD)
  with finish assms(2) all_frames_remove [of i "threads s"] show ?thesis by (auto simp: sys_ok_def)
next
  case (crash i)
  with assms(2) show ?thesis by (simp add: sys_ok_def)
qed

lemma job_run_ok:
  assumes "job_run c s ls s'" "sys_ok s" "standard_chain c"
  shows "sys_ok s'"
  using assms by (induction rule: job_run.induct) (auto intro: job_step_ok)

lemma no_jobs_ok: "sys_ok no_jobs"
  by (simp add: sys_ok_def no_jobs_def conserved_def)

section \<open>Properties\<close>


lemma frame_counts:
  assumes "sys_ok s" "x \<in> set (all_frames (threads s))" "x \<noteq> DeferRecover"
  shows "count_list (all_frames (threads s)) x = 1"
proof -
  have ok: "thread_ok (heap s) t" if "t \<in> set (threads s)" for t using assms(1) that by (simp add: sys_ok_def)
  have pos: "count_list (all_frames (threads s)) x \<noteq> 0" using assms(2) by (simp add: count_list_0_iff)
  obtain t where t: "t \<in> set (threads s)" "x \<in> set (snd t)" using assms(2) by (auto simp: all_frames_def)
  show ?thesis
  proof (cases x)
    case (DeferUnlock m)
    then have "m < length (mutexes (heap s))" using ok [OF t(1)] t(2) by (auto simp: thread_ok_def frame_mutexes_iff)
    with pos DeferUnlock assms(1) show ?thesis by (simp add: sys_ok_def conserved_def split: if_splits)
  next
    case (DeferSend c)
    then have "c < length (channels (heap s))" using ok [OF t(1)] t(2) by (auto simp: thread_ok_def frame_channels_iff)
    then have "channels (heap s) ! c + count_list (all_frames (threads s)) x = 1"
      using assms(1) DeferSend unfolding sys_ok_def conserved_def by blast
    with pos show ?thesis by simp
  qed (use assms(3) in simp)
qed


subsection \<open>No deadlock\<close>

definition blocked :: "chain_heap \<Rightarrow> 'j thread \<Rightarrow> bool" where
  "blocked h t \<longleftrightarrow> (\<exists>m j. fst t = Enter (DelayJob m j) \<and> mutexes h ! m)"

lemma unblocked_steps:
  assumes "thread_ok h t" "\<not> blocked h t" "\<And>d. DeferSend d \<in> set (snd t) \<Longrightarrow> channels h ! d = 0"
  shows "(\<exists>e h' t'. thread_step h t e h' t') \<or> (\<exists>r. t = (Return r, []))"
proof -
  obtain ctl k where t: "t = (ctl, k)" by fastforce
  show ?thesis
  proof (cases ctl)
    case (Enter j)
    show ?thesis
    proof (cases j)
      case (FuncJob f)
      show ?thesis using enter_func [of h f k] unfolding t Enter FuncJob by blast
    next
      case (RecoverJob j')
      show ?thesis using enter_recover [of h j' k] unfolding t Enter RecoverJob by blast
    next
      case (SkipJob d j')
      then have "d < length (channels h)" using assms(1) by (simp add: thread_ok_def t Enter)
      then show ?thesis using enter_skip skip unfolding t Enter SkipJob by (metis gr0I)
    next
      case (DelayJob m j')
      then have "m < length (mutexes h)" "\<not> mutexes h ! m"
        using assms(1,2) by (auto simp: thread_ok_def blocked_def t Enter)
      then show ?thesis using enter_delay unfolding t Enter DelayJob by blast
    qed
  next
    case (Running f)
    show ?thesis using func_ends [of h f k] unfolding t Running by blast
  next
    case (Return r)
    show ?thesis
    proof (cases k)
      case (Cons x k')
      show ?thesis
      proof (cases x)
        case DeferRecover
        show ?thesis using recovered [of h r k'] unfolding t Return Cons DeferRecover by blast
      next
        case (DeferUnlock m)
        then have "m < length (mutexes h)" using assms(1) by (simp add: thread_ok_def t Cons)
        then show ?thesis using unlock unfolding t Return Cons DeferUnlock by blast
      next
        case (DeferSend d)
        then have "d < length (channels h)" "channels h ! d < 1"
          using assms(1,3) by (auto simp: thread_ok_def t Cons)
        then show ?thesis using send_back unfolding t Return Cons DeferSend by blast
      qed
    qed (simp add: t Return)
  qed
qed

lemma someone_not_blocked:
  assumes "sys_ok s" "threads s \<noteq> []"
  shows "\<exists>t \<in> set (threads s). \<not> blocked (heap s) t"
proof (rule ccontr)
  assume "\<not> (\<exists>t \<in> set (threads s). \<not> blocked (heap s) t)"
  then have all: "blocked (heap s) t" if "t \<in> set (threads s)" for t using that by blast
  define M where "M = {m. \<exists>t \<in> set (threads s). \<exists>j. fst t = Enter (DelayJob m j)}"
  have "blocked (heap s) (hd (threads s))" using all assms(2) by simp
  then have "\<exists>m. m \<in> M" using assms(2) by (auto simp: M_def blocked_def intro: hd_in_set)
  then obtain m where m: "m \<in> M" "\<And>n. n \<in> M \<Longrightarrow> m \<le> n" using exists_least_iff [of "\<lambda>m. m \<in> M"] not_le by blast
  obtain t j where t: "t \<in> set (threads s)" "fst t = Enter (DelayJob m j)" using m(1) by (auto simp: M_def)
  have locked: "mutexes (heap s) ! m" using all [OF t(1)] t(2) by (auto simp: blocked_def)
  moreover have "m < length (mutexes (heap s))" using assms(1) t by (auto simp: sys_ok_def thread_ok_def)
  ultimately have "count_list (all_frames (threads s)) (DeferUnlock m) \<noteq> 0"
    using assms(1) by (simp add: sys_ok_def conserved_def)
  then obtain u where u: "u \<in> set (threads s)" "DeferUnlock m \<in> set (snd u)"
    unfolding count_list_0_iff by (auto simp: all_frames_def)
  obtain n j' where n: "fst u = Enter (DelayJob n j')" using all [OF u(1)] by (auto simp: blocked_def)
  have "m \<in> set (frame_mutexes (snd u))" using u(2) by (simp add: frame_mutexes_iff)
  then have "n < m" using assms(1) u(1) n by (auto simp: sys_ok_def thread_ok_def sorted_wrt_append)
  moreover have "n \<in> M" using u(1) n by (auto simp: M_def)
  ultimately show False using m(2) by fastforce
qed

text \<open>
  (C16) The wrappers do not deadlock: as long as a goroutine of a job is left, some goroutine
  can take a step, whatever chain of the package's wrappers is used and however the runs have
  been interleaved.
\<close>

theorem wrapped_jobs_progress:
  assumes "standard_chain c" "job_run c no_jobs ls s" "threads s \<noteq> []" "\<not> crashed s"
  shows "\<exists>i s'. i < length (threads s) \<and>
    ((\<exists>e. job_step c s (Step i e) s') \<or> job_step c s (Finish i) s' \<or> job_step c s (Crash i) s')"
proof -
  have ok: "sys_ok s" using job_run_ok [OF assms(2) no_jobs_ok assms(1)] .
  obtain i where i: "i < length (threads s)" "\<not> blocked (heap s) (threads s ! i)"
    using someone_not_blocked [OF ok assms(3)] by (metis in_set_conv_nth)
  have t: "thread_ok (heap s) (threads s ! i)" using ok i(1) by (simp add: sys_ok_def)
  have "channels (heap s) ! d = 0" if "DeferSend d \<in> set (snd (threads s ! i))" for d
  proof -
    have "DeferSend d \<in> set (all_frames (threads s))" using that i(1) by (auto simp: all_frames_def intro!: bexI [of _ "threads s ! i"])
    from frame_counts [OF ok this] have "count_list (all_frames (threads s)) (DeferSend d) = 1" by simp
    moreover have "d < length (channels (heap s))" using t that by (auto simp: thread_ok_def frame_channels_iff)
    then have "channels (heap s) ! d + count_list (all_frames (threads s)) (DeferSend d) = 1"
      using ok unfolding sys_ok_def conserved_def by blast
    ultimately show ?thesis by simp
  qed
  from unblocked_steps [OF t i(2) this] consider e h' t' where "thread_step (heap s) (threads s ! i) e h' t'"
    | r where "threads s ! i = (Return r, [])" by blast
  then show ?thesis
  proof cases
    case 1
    then show ?thesis using job_step.step [OF assms(4) i(1)] i(1) by blast
  next
    case 2
    then show ?thesis
      using job_step.finish [OF assms(4) i(1)] job_step.crash [OF assms(4) i(1)] i(1) by (cases r) blast+
  qed
qed

subsection \<open>Panics\<close>

definition protected :: "'j thread \<Rightarrow> bool" where
  "protected t \<longleftrightarrow> (snd t \<noteq> [] \<and> last (snd t) = DeferRecover) \<or>
     snd t = [] \<and> (fst t = Return Normal \<or> (\<exists>j. fst t = Enter (RecoverJob j)))"

lemma thread_step_protected: "thread_step h t e h' t' \<Longrightarrow> protected t \<Longrightarrow> protected t'"
  by (induction rule: thread_step.induct) (auto simp: protected_def split: if_splits)

lemma job_run_protected:
  assumes "job_run c no_jobs ls s" "wrappers c = Recover # ws"
  shows "\<not> crashed s \<and> (\<forall>t \<in> set (threads s). protected t) \<and> (\<forall>j \<in> set (jobs s). \<exists>j'. j = RecoverJob j')"
  using assms
proof (induction "no_jobs :: 'a job_sys" ls s rule: job_run.induct)
  case (jrun_step ls s' l s'')
  then have IH: "\<not> crashed s'" "\<forall>t \<in> set (threads s'). protected t" "\<forall>j \<in> set (jobs s'). \<exists>j'. j = RecoverJob j'"
    by auto
  from jrun_step.hyps(3) show ?case
  proof (cases rule: job_step.cases)
    case (submit f j h)
    then have "\<exists>j'. j = RecoverJob j'"
      using jrun_step.prems by (auto simp: Then_foldr Recover_def split: prod.splits)
    with IH submit show ?thesis by auto
  next
    case (spawn i)
    then have "protected (Enter (jobs s' ! i), [])" using IH(3) by (auto simp: protected_def)
    with IH spawn show ?thesis by auto
  next
    case (step i e h t)
    then have "protected t" using IH(2) thread_step_protected by fastforce
    with IH step show ?thesis by (auto dest!: subsetD [OF set_update_subset_insert])
  next
    case (finish i)
    then show ?thesis using IH by (auto simp: remove_at_def dest!: in_set_takeD in_set_dropD)
  next
    case (crash i)
    then show ?thesis using IH(2) nth_mem [of i "threads s'"] by (auto simp: protected_def)
  qed
qed (simp add: no_jobs_def)

text \<open>
  With \<^verbatim>\<open>Recover\<close> as the outermost wrapper no panic of a job ends the process, whatever
  else is in the chain and however the runs are interleaved.
\<close>

theorem Recover_keeps_process:
  assumes "job_run c no_jobs ls s" "wrappers c = Recover # ws"
  shows "\<not> crashed s"
  using job_run_protected [OF assms] by blast

subsection \<open>An example\<close>

text \<open>A job with all three wrappers, started twice; the first run has got past its guards.\<close>

definition demo_chain :: "unit Chain" where
  "demo_chain = NewChain [Recover, DelayIfStillRunning, SkipIfStillRunning]"

definition demo_job :: "unit job" where
  "demo_job = RecoverJob (DelayJob 0 (SkipJob 0 (FuncJob ())))"

definition demo_jobs :: "unit job_sys" where
  "demo_jobs = \<lparr>heap = \<lparr>mutexes = [True], channels = [0]\<rparr>, jobs = [demo_job],
     threads = [(Enter (FuncJob ()), [DeferSend 0, DeferUnlock 0, DeferRecover]), (Enter demo_job, [])], crashed = False\<rparr>"

lemma demo_chain_standard: "standard_chain demo_chain"
  by (simp add: standard_chain_def demo_chain_def NewChain_def)

lemma demo_jobs_run:
  "job_run demo_chain no_jobs [Submit (), Spawn 0, Spawn 0, Step 0 Silent, Step 0 Silent, Step 0 Silent] demo_jobs"
proof -
  let ?s = "\<lambda>h ts. \<lparr>heap = h, jobs = [demo_job], threads = ts, crashed = False\<rparr>"
  let ?h0 = "\<lparr>mutexes = [False], channels = [1]\<rparr>" and ?h1 = "\<lparr>mutexes = [True], channels = [1]\<rparr>"
  let ?t = "(Enter demo_job, []) :: unit thread"
  have then_eq: "Then demo_chain (FuncJob ()) \<lparr>mutexes = [], channels = []\<rparr> = (demo_job, ?h0)"
    by (simp add: Then_foldr demo_chain_def NewChain_def Recover_def DelayIfStillRunning_def SkipIfStillRunning_def demo_job_def)
  have 1: "job_step demo_chain no_jobs (Submit ()) (?s ?h0 [])"
    using submit [of no_jobs demo_chain "()" demo_job ?h0] then_eq by (simp add: no_jobs_def)
  have 2: "job_step demo_chain (?s ?h0 []) (Spawn 0) (?s ?h0 [?t])"
    using spawn [of "?s ?h0 []" 0 demo_chain] by simp
  have 3: "job_step demo_chain (?s ?h0 [?t]) (Spawn 0) (?s ?h0 [?t, ?t])"
    using spawn [of "?s ?h0 [?t]" 0 demo_chain] by simp
  have st: "job_step demo_chain (?s h [t, ?t]) (Step 0 e) (?s h' [t', ?t])" if "thread_step h t e h' t'" for h t e h' t'
    using step [of "?s h [t, ?t]" 0 e h' t' demo_chain] that by simp
  have 4: "thread_step ?h0 ?t Silent ?h0 (Enter (DelayJob 0 (SkipJob 0 (FuncJob ()))), [DeferRecover])"
    unfolding demo_job_def by (rule enter_recover)
  have 5: "thread_step ?h0 (Enter (DelayJob 0 (SkipJob 0 (FuncJob ()))), [DeferRecover]) Silent ?h1
      (Enter (SkipJob 0 (FuncJob ())), [DeferUnlock 0, DeferRecover])"
    using enter_delay [of 0 ?h0] by simp
  have 6: "thread_step ?h1 (Enter (SkipJob 0 (FuncJob ())), [DeferUnlock 0, DeferRecover]) Silent
      \<lparr>mutexes = [True], channels = [0]\<rparr> (Enter (FuncJob ()), [DeferSend 0, DeferUnlock 0, DeferRecover])"
    using enter_skip [of 0 ?h1] by simp
  from jrun_step [OF jrun_step [OF jrun_step [OF jrun_step [OF jrun_step [OF jrun_step [OF jrun_refl 1] 2] 3]
    st [OF 4]] st [OF 5]] st [OF 6]]
  show ?thesis by (simp add: demo_jobs_def)
qed


theorem wrapped_jobs_progress_witness:
  "\<exists>i s'. i < 2 \<and> ((\<exists>e. job_step demo_chain demo_jobs (Step i e) s') \<or> job_step demo_chain demo_jobs (Finish i) s' \<or>
     job_step demo_chain demo_jobs (Crash i) s')"
proof -
  have "threads demo_jobs \<noteq> []" "\<not> crashed demo_jobs" "length (threads demo_jobs) = 2" by (simp_all add: demo_jobs_def)
  with wrapped_jobs_progress [OF demo_chain_standard demo_jobs_run] show ?thesis by simp
qed

theorem Recover_keeps_process_witness: "\<not> crashed demo_jobs"
  using Recover_keeps_process [OF demo_jobs_run, of "[DelayIfStillRunning, SkipIfStillRunning]"]
  by (simp add: demo_chain_def NewChain_def)

end
