(* ===== verification/Cron.thy ===== *)
theory Cron
  imports SpecNext CronParser Chain
begin

text \<open>
  The scheduler (\<^verbatim>\<open>cron/cron.go\<close>, \<^verbatim>\<open>cron/option.go\<close>). \<^verbatim>\<open>Schedule\<close> and
  \<^verbatim>\<open>ScheduleParser\<close> are interfaces: a schedule is a value of type \<open>'s\<close> and its method
  \<^verbatim>\<open>Next\<close> the parameter \<open>nxt\<close>; a parser is a function from specs. \<^verbatim>\<open>sort.Sort\<close> is not
  stable, so the order it gives to entries that tie is a parameter too.
\<close>

section \<open>Entries\<close>

record ('s, 'z, 'j) Entry =
  ID :: int
  Entry_Schedule :: 's
  Next_at :: "'z Time"
  Prev_at :: "'z Time"
  WrappedJob :: "'j job"
  Entry_Job :: 'j

definition IsZero :: "'z Time \<Rightarrow> bool" where
  "IsZero t \<longleftrightarrow> nanos t = 0"

definition Time_After :: "'z Time \<Rightarrow> 'z Time \<Rightarrow> bool" where
  "Time_After t u \<longleftrightarrow> nanos u < nanos t"

definition Entry_Valid :: "('s, 'z, 'j) Entry \<Rightarrow> bool" where
  "Entry_Valid e \<longleftrightarrow> ID e \<noteq> 0"

definition byTime_Less :: "('s, 'z, 'j) Entry \<Rightarrow> ('s, 'z, 'j) Entry \<Rightarrow> bool" where
  "byTime_Less e f =
     (if IsZero (Next_at e) then False
      else if IsZero (Next_at f) then True
      else Time_Before (Next_at e) (Next_at f))"

type_synonym ('s, 'z, 'j) sorter = "('s, 'z, 'j) Entry list \<Rightarrow> ('s, 'z, 'j) Entry list"

text \<open>What \<^verbatim>\<open>sort.Sort\<close> promises: a permutation in which no element is less than one before it.\<close>

definition sorts :: "('s, 'z, 'j) sorter \<Rightarrow> bool" where
  "sorts sorter \<longleftrightarrow> (\<forall>es. mset (sorter es) = mset es \<and> sorted_wrt (\<lambda>e f. \<not> byTime_Less f e) (sorter es))"

section \<open>The scheduler\<close>

text \<open>
  The struct without its channels and its logger, with the mutexes and channels the wrappers
  of its jobs have made. \<open>jobWaiter\<close> is the counter of the wait group.
\<close>

record ('s, 'z, 'j) Cron =
  entries :: "('s, 'z, 'j) Entry list"
  chain :: "'j Chain"
  running :: bool
  cron_location :: "'z location"
  parser :: "string \<Rightarrow> parse_error + 's"
  nextID :: int
  jobWaiter :: nat
  cron_heap :: chain_heap

type_synonym ('s, 'z, 'j) cron_opt = "('s, 'z, 'j) Cron \<Rightarrow> ('s, 'z, 'j) Cron"

definition WithLocation :: "'z location \<Rightarrow> ('s, 'z, 'j) cron_opt" where
  "WithLocation loc c = c\<lparr>cron_location := loc\<rparr>"

definition WithParser :: "(string \<Rightarrow> parse_error + 's) \<Rightarrow> ('s, 'z, 'j) cron_opt" where
  "WithParser p c = c\<lparr>parser := p\<rparr>"

text \<open>A parser of the package as a \<^verbatim>\<open>ScheduleParser\<close>; its \<^verbatim>\<open>Parse\<close> always returns.\<close>

definition schedule_parser ::
    "(string \<Rightarrow> string + 'z) \<Rightarrow> Parser \<Rightarrow> string \<Rightarrow> parse_error + 'z schedule" where
  "schedule_parser tzload p spec =
     (case Parser_Parse tzload p spec of Some r \<Rightarrow> r | None \<Rightarrow> Inl EmptySpec)"

definition WithSeconds :: "(string \<Rightarrow> string + 'z) \<Rightarrow> ('z schedule, 'z, 'j) cron_opt" where
  "WithSeconds tzload =
     (case NewParser (Second_opt OR Minute_opt OR Hour_opt OR Dom_opt OR Month_opt OR Dow_opt OR Descriptor) of
        Inl _ \<Rightarrow> id
      | Inr p \<Rightarrow> WithParser (schedule_parser tzload p))"

definition WithChain :: "'j JobWrapper list \<Rightarrow> ('s, 'z, 'j) cron_opt" where
  "WithChain ws c = c\<lparr>chain := NewChain ws\<rparr>"

text \<open>\<open>std\<close> is the standard parser as a \<^verbatim>\<open>ScheduleParser\<close>.\<close>

definition Cron_New :: "(string \<Rightarrow> parse_error + 's) \<Rightarrow> ('s, 'z, 'j) cron_opt list \<Rightarrow> ('s, 'z, 'j) Cron" where
  "Cron_New std opts =
     fold (\<lambda>opt c. opt c) opts
       \<lparr>entries = [], chain = NewChain [], running = False, cron_location = Local, parser = std,
        nextID = 0, jobWaiter = 0, cron_heap = \<lparr>mutexes = [], channels = []\<rparr>\<rparr>"

text \<open>\<^verbatim>\<open>Schedule\<close> up to the point where the entry is appended or sent to the running loop.\<close>

definition Schedule_entry ::
    "'s \<Rightarrow> 'j \<Rightarrow> ('s, 'z, 'j) Cron \<Rightarrow> ('s, 'z, 'j) Entry \<times> ('s, 'z, 'j) Cron" where
  "Schedule_entry schedule cmd c =
     (let c = c\<lparr>nextID := nextID c + 1\<rparr>;
          (wrapped, h) = Then (chain c) (FuncJob cmd) (cron_heap c)
      in (\<lparr>ID = nextID c, Entry_Schedule = schedule, Next_at = zero_Time, Prev_at = zero_Time,
           WrappedJob = wrapped, Entry_Job = cmd\<rparr>, c\<lparr>cron_heap := h\<rparr>))"

definition removeEntry :: "int \<Rightarrow> ('s, 'z, 'j) Cron \<Rightarrow> ('s, 'z, 'j) Cron" where
  "removeEntry eid c = c\<lparr>entries := filter (\<lambda>e. ID e \<noteq> eid) (entries c)\<rparr>"

definition entrySnapshot :: "('s, 'z, 'j) Cron \<Rightarrow> ('s, 'z, 'j) Entry list" where
  "entrySnapshot c = entries c"

definition now_in :: "('s, 'z, 'j) Cron \<Rightarrow> 'z Time \<Rightarrow> 'z Time" where
  "now_in c t = Time_In (cron_location c) t"

section \<open>The loop\<close>

definition run_init :: "('s \<Rightarrow> 'z Time \<Rightarrow> 'z Time) \<Rightarrow> 'z Time \<Rightarrow> ('s, 'z, 'j) Cron \<Rightarrow> ('s, 'z, 'j) Cron" where
  "run_init nxt now c = c\<lparr>entries := map (\<lambda>e. e\<lparr>Next_at := nxt (Entry_Schedule e) now\<rparr>) (entries c)\<rparr>"

definition startJob :: "'j job \<Rightarrow> ('s, 'z, 'j) Cron \<Rightarrow> ('s, 'z, 'j) Cron" where
  "startJob j c = c\<lparr>jobWaiter := jobWaiter c + 1\<rparr>"

text \<open>The entries that run at \<open>now\<close>, up to the first that does not, and all entries afterwards.\<close>

fun run_due ::
    "('s \<Rightarrow> 'z Time \<Rightarrow> 'z Time) \<Rightarrow> 'z Time \<Rightarrow> ('s, 'z, 'j) Entry list \<Rightarrow>
     ('s, 'z, 'j) Entry list \<times> ('s, 'z, 'j) Entry list" where
  "run_due nxt now [] = ([], [])"
| "run_due nxt now (e # es) =
     (if Time_After (Next_at e) now \<or> IsZero (Next_at e) then ([], e # es)
      else let (due, rest) = run_due nxt now es
           in (e # due, e\<lparr>Prev_at := Next_at e, Next_at := nxt (Entry_Schedule e) now\<rparr> # rest))"

definition wake ::
    "('s \<Rightarrow> 'z Time \<Rightarrow> 'z Time) \<Rightarrow> 'z Time \<Rightarrow> ('s, 'z, 'j) Cron \<Rightarrow>
     ('s, 'z, 'j) Entry list \<times> ('s, 'z, 'j) Cron" where
  "wake nxt t c =
     (let now = now_in c t;
          (due, es) = run_due nxt now (entries c);
          c = fold (\<lambda>e c. startJob (WrappedJob e) c) due c
      in (due, c\<lparr>entries := es\<rparr>))"

text \<open>
  The top of the loop: the entries are sorted and the timer is set. The timer is for the time
  between \<^verbatim>\<open>now\<close> and the first activation, so it does not fire before it.
\<close>

datatype 'z timer = Sleep | Until "'z Time"

definition loop_top :: "('s, 'z, 'j) sorter \<Rightarrow> ('s, 'z, 'j) Cron \<Rightarrow> 'z timer \<times> ('s, 'z, 'j) Cron" where
  "loop_top sorter c =
     (let c = c\<lparr>entries := sorter (entries c)\<rparr>
      in (if entries c = [] \<or> IsZero (Next_at (hd (entries c))) then Sleep else Until (Next_at (hd (entries c))), c))"

definition timer_fires :: "'z timer \<Rightarrow> 'z Time \<Rightarrow> bool" where
  "timer_fires tm t = (case tm of Sleep \<Rightarrow> True | Until d \<Rightarrow> nanos d \<le> nanos t)"

text \<open>
  The cases of the \<^verbatim>\<open>select\<close> that receive a message, each up to the \<^verbatim>\<open>break\<close>.
\<close>

definition on_add ::
    "('s \<Rightarrow> 'z Time \<Rightarrow> 'z Time) \<Rightarrow> 'z Time \<Rightarrow> ('s, 'z, 'j) Entry \<Rightarrow> ('s, 'z, 'j) Cron \<Rightarrow> ('s, 'z, 'j) Cron" where
  "on_add nxt t newEntry c =
     c\<lparr>entries := entries c @ [newEntry\<lparr>Next_at := nxt (Entry_Schedule newEntry) (now_in c t)\<rparr>]\<rparr>"

text \<open>The case that would receive from the channel \<^verbatim>\<open>reset\<close>.\<close>

definition on_reset :: "('s, 'z, 'j) Cron \<Rightarrow> ('s, 'z, 'j) Cron" where
  "on_reset c = c\<lparr>entries := []\<rparr>"

definition on_remove :: "int \<Rightarrow> ('s, 'z, 'j) Cron \<Rightarrow> ('s, 'z, 'j) Cron" where
  "on_remove eid c = removeEntry eid c"

section \<open>The scheduler and its callers\<close>

text \<open>
  The loop is not running, has been started and not yet reached its \<^verbatim>\<open>select\<close>, or waits
  there on a timer. The channels have no buffer: a call on a running scheduler and the case of
  the \<^verbatim>\<open>select\<close> that receives from it are one step, which the loop and the caller take
  together. All calls hold \<^verbatim>\<open>runningMu\<close>; \<open>locked\<close> says that a call has blocked for good
  while it holds it.
\<close>

datatype 'z loop = Off | Starting | Select "'z timer"

record ('s, 'z, 'j) cron_sys =
  cron :: "('s, 'z, 'j) Cron"
  loop :: "'z loop"
  locked :: bool

definition new_sys :: "('s, 'z, 'j) Cron \<Rightarrow> ('s, 'z, 'j) cron_sys" where
  "new_sys c = \<lparr>cron = c, loop = Off, locked = False\<rparr>"

definition at_select :: "('s, 'z, 'j) cron_sys \<Rightarrow> bool" where
  "at_select s \<longleftrightarrow> (case loop s of Select _ \<Rightarrow> True | _ \<Rightarrow> False)"

definition enter_select ::
    "('s, 'z, 'j) sorter \<Rightarrow> ('s, 'z, 'j) Cron \<Rightarrow> ('s, 'z, 'j) cron_sys \<Rightarrow> ('s, 'z, 'j) cron_sys" where
  "enter_select sorter c s = (let (tm, c) = loop_top sorter c in s\<lparr>cron := c, loop := Select tm\<rparr>)"

text \<open>The calls; \<^const>\<open>None\<close> is a call that waits, for the mutex or for the loop.\<close>

definition Cron_Schedule ::
    "('s \<Rightarrow> 'z Time \<Rightarrow> 'z Time) \<Rightarrow> ('s, 'z, 'j) sorter \<Rightarrow> 'z Time \<Rightarrow> 's \<Rightarrow> 'j \<Rightarrow>
     ('s, 'z, 'j) cron_sys \<Rightarrow> (int \<times> ('s, 'z, 'j) cron_sys) option" where
  "Cron_Schedule nxt sorter t schedule cmd s =
     (if locked s then None
      else
        let (e, c) = Schedule_entry schedule cmd (cron s)
        in if \<not> running c then Some (ID e, s\<lparr>cron := c\<lparr>entries := entries c @ [e]\<rparr>\<rparr>)
           else if at_select s then Some (ID e, enter_select sorter (on_add nxt t e c) s)
           else None)"

definition Cron_AddJob ::
    "('s \<Rightarrow> 'z Time \<Rightarrow> 'z Time) \<Rightarrow> ('s, 'z, 'j) sorter \<Rightarrow> 'z Time \<Rightarrow> string \<Rightarrow> 'j \<Rightarrow>
     ('s, 'z, 'j) cron_sys \<Rightarrow> ((parse_error + int) \<times> ('s, 'z, 'j) cron_sys) option" where
  "Cron_AddJob nxt sorter t spec cmd s =
     (case parser (cron s) spec of
        Inl err \<Rightarrow> Some (Inl err, s)
      | Inr schedule \<Rightarrow> map_option (\<lambda>(eid, s). (Inr eid, s)) (Cron_Schedule nxt sorter t schedule cmd s))"

text \<open>\<^verbatim>\<open>AddFunc\<close>: a \<^verbatim>\<open>FuncJob\<close> is a job.\<close>

definition Cron_AddFunc ::
    "('s \<Rightarrow> 'z Time \<Rightarrow> 'z Time) \<Rightarrow> ('s, 'z, 'j) sorter \<Rightarrow> 'z Time \<Rightarrow> string \<Rightarrow> 'j \<Rightarrow>
     ('s, 'z, 'j) cron_sys \<Rightarrow> ((parse_error + int) \<times> ('s, 'z, 'j) cron_sys) option" where
  "Cron_AddFunc nxt sorter t spec cmd s = Cron_AddJob nxt sorter t spec cmd s"

text \<open>
  \<^verbatim>\<open>New\<close> does not make the channel \<^verbatim>\<open>reset\<close>, so the send of a running scheduler never ends:
  the result says whether the call returns.
\<close>

definition ResetEntries :: "('s, 'z, 'j) cron_sys \<Rightarrow> (bool \<times> ('s, 'z, 'j) cron_sys) option" where
  "ResetEntries s =
     (if locked s then None
      else if running (cron s) then Some (False, s\<lparr>locked := True\<rparr>)
      else Some (True, s\<lparr>cron := (cron s)\<lparr>entries := []\<rparr>\<rparr>))"

definition Entries :: "('s, 'z, 'j) cron_sys \<Rightarrow> ('s, 'z, 'j) Entry list option" where
  "Entries s =
     (if locked s then None
      else if running (cron s) then (if at_select s then Some (entrySnapshot (cron s)) else None)
      else Some (entrySnapshot (cron s)))"

text \<open>\<^verbatim>\<open>Entry\<close>: \<^const>\<open>None\<close> inside is the zero entry.\<close>

definition Cron_Entry :: "int \<Rightarrow> ('s, 'z, 'j) cron_sys \<Rightarrow> ('s, 'z, 'j) Entry option option" where
  "Cron_Entry eid s = map_option (List.find (\<lambda>e. eid = ID e)) (Entries s)"

definition Cron_Location :: "('s, 'z, 'j) Cron \<Rightarrow> 'z location" where
  "Cron_Location c = cron_location c"

definition Cron_Remove ::
    "('s, 'z, 'j) sorter \<Rightarrow> int \<Rightarrow> ('s, 'z, 'j) cron_sys \<Rightarrow> ('s, 'z, 'j) cron_sys option" where
  "Cron_Remove sorter eid s =
     (if locked s then None
      else if running (cron s)
      then (if at_select s then Some (enter_select sorter (on_remove eid (cron s)) s) else None)
      else Some (s\<lparr>cron := removeEntry eid (cron s)\<rparr>))"

text \<open>\<^verbatim>\<open>Start\<close> and \<^verbatim>\<open>Run\<close>: they differ in the goroutine that goes on with the loop.\<close>

definition Cron_Start :: "('s, 'z, 'j) cron_sys \<Rightarrow> ('s, 'z, 'j) cron_sys option" where
  "Cron_Start s =
     (if locked s then None
      else if running (cron s) then Some s
      else Some (s\<lparr>cron := (cron s)\<lparr>running := True\<rparr>, loop := Starting\<rparr>))"

definition Cron_Run :: "('s, 'z, 'j) cron_sys \<Rightarrow> ('s, 'z, 'j) cron_sys option" where
  "Cron_Run s =
     (if locked s then None
      else if running (cron s) then Some s
      else Some (s\<lparr>cron := (cron s)\<lparr>running := True\<rparr>, loop := Starting\<rparr>))"

text \<open>The context that \<^verbatim>\<open>Stop\<close> returns is done once the wait group counts no job.\<close>

definition Cron_Stop :: "('s, 'z, 'j) cron_sys \<Rightarrow> ('s, 'z, 'j) cron_sys option" where
  "Cron_Stop s =
     (if locked s then None
      else if running (cron s)
      then (if at_select s then Some (s\<lparr>cron := (cron s)\<lparr>running := False\<rparr>, loop := Off\<rparr>) else None)
      else Some s)"

definition stop_context_done :: "('s, 'z, 'j) cron_sys \<Rightarrow> bool" where
  "stop_context_done s \<longleftrightarrow> jobWaiter (cron s) = 0"

section \<open>Runs\<close>

datatype ('s, 'z, 'j) cron_label =
    LSchedule 's 'j int | LRemove int | LReset bool | LEntries "('s, 'z, 'j) Entry list"
  | LStart | LStop | LInit "'z Time" | LWake "'z Time" "('s, 'z, 'j) Entry list" | LJobDone

inductive cron_step ::
    "('s \<Rightarrow> 'z Time \<Rightarrow> 'z Time) \<Rightarrow> ('s, 'z, 'j) sorter \<Rightarrow>
     ('s, 'z, 'j) cron_sys \<Rightarrow> ('s, 'z, 'j) cron_label \<Rightarrow> ('s, 'z, 'j) cron_sys \<Rightarrow> bool"
  for nxt sorter where
  schedule: "Cron_Schedule nxt sorter t sch cmd s = Some (eid, s') \<Longrightarrow>
    cron_step nxt sorter s (LSchedule sch cmd eid) s'"
| remove: "Cron_Remove sorter eid s = Some s' \<Longrightarrow> cron_step nxt sorter s (LRemove eid) s'"
| reset: "ResetEntries s = Some (ret, s') \<Longrightarrow> cron_step nxt sorter s (LReset ret) s'"
| look: "Entries s = Some es \<Longrightarrow> cron_step nxt sorter s (LEntries es) s"
| start: "Cron_Start s = Some s' \<or> Cron_Run s = Some s' \<Longrightarrow> cron_step nxt sorter s LStart s'"
| stop: "Cron_Stop s = Some s' \<Longrightarrow> cron_step nxt sorter s LStop s'"
| loop_init: "loop s = Starting \<Longrightarrow>
    cron_step nxt sorter s (LInit t) (enter_select sorter (run_init nxt (now_in (cron s) t) (cron s)) s)"
| loop_wake: "loop s = Select tm \<Longrightarrow> timer_fires tm t \<Longrightarrow> wake nxt t (cron s) = (due, c) \<Longrightarrow>
    cron_step nxt sorter s (LWake t due) (enter_select sorter c s)"
| job_done: "jobWaiter (cron s) > 0 \<Longrightarrow>
    cron_step nxt sorter s LJobDone (s\<lparr>cron := (cron s)\<lparr>jobWaiter := jobWaiter (cron s) - 1\<rparr>\<rparr>)"

inductive cron_run ::
    "('s \<Rightarrow> 'z Time \<Rightarrow> 'z Time) \<Rightarrow> ('s, 'z, 'j) sorter \<Rightarrow>
     ('s, 'z, 'j) cron_sys \<Rightarrow> ('s, 'z, 'j) cron_label list \<Rightarrow> ('s, 'z, 'j) cron_sys \<Rightarrow> bool"
  for nxt sorter where
  crun_refl: "cron_run nxt sorter s [] s"
| crun_step: "cron_run nxt sorter s ls s' \<Longrightarrow> cron_step nxt sorter s' l s'' \<Longrightarrow> cron_run nxt sorter s (ls @ [l]) s''"

end
