(* ===== verification/CronProps.thy ===== *)
theory CronProps
  imports Cron SpecProps
begin

text \<open>
  The scheduler in every run: its entries, its timer, and what a wake-up runs.
\<close>

section \<open>Sorted entries\<close>

abbreviation in_order :: "('s, 'z, 'j) Entry list \<Rightarrow> bool" where
  "in_order es \<equiv> sorted_wrt (\<lambda>e f. \<not> byTime_Less f e) es"

definition due_at :: "'z Time \<Rightarrow> ('s, 'z, 'j) Entry \<Rightarrow> bool" where
  "due_at now e \<longleftrightarrow> \<not> IsZero (Next_at e) \<and> nanos (Next_at e) \<le> nanos now"

definition fired :: "('s \<Rightarrow> 'z Time \<Rightarrow> 'z Time) \<Rightarrow> 'z Time \<Rightarrow> ('s, 'z, 'j) Entry \<Rightarrow> ('s, 'z, 'j) Entry" where
  "fired nxt now e =
     (if due_at now e then e\<lparr>Prev_at := Next_at e, Next_at := nxt (Entry_Schedule e) now\<rparr> else e)"

lemma not_due_after:
  assumes "\<not> byTime_Less f e" "\<not> due_at now e"
  shows "\<not> due_at now f"
  using assms by (auto simp: byTime_Less_def due_at_def Time_Before_def split: if_splits)

lemma run_due_spec:
  assumes "in_order es"
  shows "run_due nxt now es = (filter (due_at now) es, map (fired nxt now) es)"
  using assms
proof (induction es)
  case (Cons e es)
  show ?case
  proof (cases "due_at now e")
    case True
    then have "\<not> (Time_After (Next_at e) now \<or> IsZero (Next_at e))" by (auto simp: due_at_def Time_After_def)
    with Cons True show ?thesis by (simp add: fired_def)
  next
    case False
    then have "\<not> due_at now f" if "f \<in> set (e # es)" for f using Cons.prems not_due_after that by auto
    then have "filter (due_at now) (e # es) = []" "map (fired nxt now) (e # es) = e # es"
      by (auto simp: fired_def filter_empty_conv intro: map_idI)
    moreover have "Time_After (Next_at e) now \<or> IsZero (Next_at e)"
      using False by (auto simp: due_at_def Time_After_def)
    ultimately show ?thesis by simp
  qed
qed simp

text \<open>The timer is for the earliest activation.\<close>

definition timer_ok :: "'z timer \<Rightarrow> ('s, 'z, 'j) Entry list \<Rightarrow> bool" where
  "timer_ok tm es =
     (case tm of
        Sleep \<Rightarrow> \<forall>e \<in> set es. IsZero (Next_at e)
      | Until d \<Rightarrow> \<not> IsZero d \<and> d \<in> Next_at ` set es \<and> (\<forall>e \<in> set es. \<not> IsZero (Next_at e) \<longrightarrow> nanos d \<le> nanos (Next_at e)))"

lemma in_order_hd:
  assumes "in_order es" "e \<in> set es"
  shows "e = hd es \<or> \<not> byTime_Less e (hd es)"
  using assms by (cases es) auto

lemma loop_top_spec:
  assumes "sorts sorter" "loop_top sorter c = (tm, c')"
  shows "c' = c\<lparr>entries := sorter (entries c)\<rparr>" "in_order (entries c')" "mset (entries c') = mset (entries c)"
    "timer_ok tm (entries c')"
proof -
  show c': "c' = c\<lparr>entries := sorter (entries c)\<rparr>" using assms(2) by (auto simp: loop_top_def Let_def)
  then show ord: "in_order (entries c')" and "mset (entries c') = mset (entries c)"
    using assms(1) by (simp_all add: sorts_def)
  let ?es = "entries c'"
  have tm: "tm = (if ?es = [] \<or> IsZero (Next_at (hd ?es)) then Sleep else Until (Next_at (hd ?es)))"
    using assms(2) c' by (auto simp: loop_top_def Let_def)
  have "IsZero (Next_at (hd ?es)) \<Longrightarrow> e \<in> set ?es \<Longrightarrow> IsZero (Next_at e)" for e
    using in_order_hd [OF ord, of e] by (auto simp: byTime_Less_def split: if_splits)
  moreover have "\<not> IsZero (Next_at (hd ?es)) \<Longrightarrow> e \<in> set ?es \<Longrightarrow> \<not> IsZero (Next_at e) \<Longrightarrow>
      nanos (Next_at (hd ?es)) \<le> nanos (Next_at e)" for e
    using in_order_hd [OF ord, of e] by (auto simp: byTime_Less_def Time_Before_def split: if_splits)
  ultimately show "timer_ok tm ?es" by (auto simp: timer_ok_def tm)
qed

section \<open>The invariant\<close>

definition ids_ok :: "('s, 'z, 'j) Cron \<Rightarrow> bool" where
  "ids_ok c \<longleftrightarrow> 0 \<le> nextID c \<and> distinct (map ID (entries c)) \<and> (\<forall>e \<in> set (entries c). 0 < ID e \<and> ID e \<le> nextID c)"

definition cron_inv :: "('s, 'z, 'j) cron_sys \<Rightarrow> bool" where
  "cron_inv s \<longleftrightarrow> ids_ok (cron s) \<and> (running (cron s) \<longleftrightarrow> loop s \<noteq> Off) \<and>
     (case loop s of Select tm \<Rightarrow> in_order (entries (cron s)) \<and> timer_ok tm (entries (cron s)) | _ \<Rightarrow> True)"

lemma ids_ok_mset: "ids_ok c \<Longrightarrow> mset es = mset (entries c) \<Longrightarrow> ids_ok (c\<lparr>entries := es\<rparr>)"
proof -
  assume "ids_ok c" and es: "mset es = mset (entries c)"
  moreover have "set es = set (entries c)" using es by (rule mset_eq_setD)
  moreover have "mset (map ID es) = mset (map ID (entries c))" using es by simp
  then have "distinct (map ID es) = distinct (map ID (entries c))" by (rule mset_eq_imp_distinct_iff)
  ultimately show ?thesis by (simp add: ids_ok_def)
qed

lemma enter_select_inv:
  assumes "sorts sorter" "ids_ok c" "running c"
  shows "cron_inv (enter_select sorter c s)"
    and "mset (entries (cron (enter_select sorter c s))) = mset (entries c)"
    and "locked (enter_select sorter c s) = locked s"
proof -
  obtain tm c' where top: "loop_top sorter c = (tm, c')" by fastforce
  note spec = loop_top_spec [OF assms(1) top]
  have "ids_ok c'" using ids_ok_mset [OF assms(2)] spec(1,3) by simp
  then show "cron_inv (enter_select sorter c s)"
    using spec assms(3) by (simp add: cron_inv_def enter_select_def top)
  show "mset (entries (cron (enter_select sorter c s))) = mset (entries c)"
    "locked (enter_select sorter c s) = locked s"
    using spec(3) by (simp_all add: enter_select_def top)
qed

lemma Schedule_entry_spec:
  assumes "Schedule_entry sch cmd c = (e, c')"
  shows "ID e = nextID c + 1" "nextID c' = nextID c + 1" "entries c' = entries c" "running c' = running c"
    "Entry_Schedule e = sch" "Entry_Job e = cmd" "jobWaiter c' = jobWaiter c" "cron_location c' = cron_location c"
  using assms by (auto simp: Schedule_entry_def Let_def split: prod.splits)

lemma ids_ok_new:
  assumes "ids_ok c" "Schedule_entry sch cmd c = (e, c')" "ID e' = ID e"
  shows "ids_ok (c'\<lparr>entries := entries c' @ [e']\<rparr>)"
  using assms(1,3) Schedule_entry_spec(1-3) [OF assms(2)] by (force simp: ids_ok_def)

lemma ids_ok_filter: "ids_ok c \<Longrightarrow> ids_ok (removeEntry eid c)"
  by (auto simp: ids_ok_def removeEntry_def distinct_map_filter)

lemma ids_ok_map: "ids_ok c \<Longrightarrow> (\<And>e. ID (f e) = ID e) \<Longrightarrow> ids_ok (c\<lparr>entries := map f (entries c)\<rparr>)"
  by (auto simp: ids_ok_def comp_def)

lemma wake_spec:
  assumes "in_order (entries c)" "wake nxt t c = (due, c')"
  shows "due = filter (due_at (now_in c t)) (entries c)"
    "c' = c\<lparr>entries := map (fired nxt (now_in c t)) (entries c), jobWaiter := jobWaiter c + length due\<rparr>"
proof -
  have fold: "fold (\<lambda>e c. startJob (WrappedJob e) c) es c = c\<lparr>jobWaiter := jobWaiter c + length es\<rparr>"
    for es and c :: "('s, 'z, 'j) Cron"
    by (induction es arbitrary: c) (simp_all add: startJob_def)
  show "due = filter (due_at (now_in c t)) (entries c)"
    "c' = c\<lparr>entries := map (fired nxt (now_in c t)) (entries c), jobWaiter := jobWaiter c + length due\<rparr>"
    using assms(2) by (auto simp: wake_def run_due_spec [OF assms(1)] fold Let_def)
qed

lemma cron_step_inv:
  assumes "cron_step nxt sorter s l s'" "cron_inv s" "sorts sorter"
  shows "cron_inv s'"
  using assms(1)
proof (cases rule: cron_step.cases)
  case (schedule t sch cmd eid)
  obtain e c where e: "Schedule_entry sch cmd (cron s) = (e, c)" by fastforce
  have ids: "ids_ok (cron s)" using assms(2) by (simp add: cron_inv_def)
  have "ids_ok (c\<lparr>entries := entries c @ [e]\<rparr>)" by (rule ids_ok_new [OF ids e refl])
  moreover have "ids_ok (on_add nxt t e c)" unfolding on_add_def by (rule ids_ok_new [OF ids e]) simp
  ultimately show ?thesis
    using schedule(2) assms(2) Schedule_entry_spec(4) [OF e] enter_select_inv(1) [OF assms(3), of "on_add nxt t e c" s]
    by (auto simp: Cron_Schedule_def e cron_inv_def on_add_def split: if_splits)
next
  case (remove eid)
  have ids: "ids_ok (removeEntry eid (cron s))" using assms(2) by (simp add: cron_inv_def ids_ok_filter)
  show ?thesis
    using remove(2) assms(2) ids enter_select_inv(1) [OF assms(3) ids, of s]
    by (auto simp: Cron_Remove_def on_remove_def cron_inv_def removeEntry_def split: if_splits loop.splits)
next
  case (reset ret)
  then show ?thesis using assms(2)
    by (auto simp: ResetEntries_def cron_inv_def ids_ok_def split: if_splits loop.splits)
next
  case (look es)
  then show ?thesis using assms(2) by simp
next
  case start
  then show ?thesis using assms(2) by (auto simp: Cron_Start_def Cron_Run_def cron_inv_def ids_ok_def split: if_splits)
next
  case stop
  then show ?thesis using assms(2) by (auto simp: Cron_Stop_def cron_inv_def ids_ok_def split: if_splits)
next
  case (loop_init t)
  have "ids_ok (run_init nxt (now_in (cron s) t) (cron s))"
    unfolding run_init_def using assms(2) by (intro ids_ok_map) (simp_all add: cron_inv_def)
  moreover have "running (run_init nxt (now_in (cron s) t) (cron s))"
    using assms(2) loop_init(3) by (simp add: run_init_def cron_inv_def)
  ultimately show ?thesis unfolding loop_init(2) by (rule enter_select_inv(1) [OF assms(3)])
next
  case (loop_wake tm t due c)
  have ord: "in_order (entries (cron s))" and ids: "ids_ok (cron s)" and run: "running (cron s)"
    using assms(2) loop_wake(3) by (auto simp: cron_inv_def)
  note spec = wake_spec [OF ord loop_wake(5)]
  have "ids_ok ((cron s)\<lparr>entries := map (fired nxt (now_in (cron s) t)) (entries (cron s))\<rparr>)"
    using ids by (intro ids_ok_map) (simp_all add: fired_def)
  then have "ids_ok c" by (simp add: spec(2) ids_ok_def)
  moreover have "running c" using run by (simp add: spec(2))
  ultimately show ?thesis unfolding loop_wake(2) by (rule enter_select_inv(1) [OF assms(3)])
next
  case job_done
  then show ?thesis using assms(2) by (auto simp: cron_inv_def ids_ok_def split: loop.splits)
qed

lemma cron_run_inv:
  assumes "cron_run nxt sorter s ls s'" "cron_inv s" "sorts sorter"
  shows "cron_inv s'"
  using assms by (induction rule: cron_run.induct) (auto intro: cron_step_inv)

text \<open>A new scheduler, with any of the options of the package.\<close>

definition package_opts :: "('s, 'z, 'j) cron_opt list \<Rightarrow> bool" where
  "package_opts opts \<longleftrightarrow> set opts \<subseteq> range WithLocation \<union> range WithParser \<union> range WithChain"

lemma Cron_New_fields:
  assumes "package_opts opts"
  shows "entries (Cron_New std opts) = []" "\<not> running (Cron_New std opts)" "nextID (Cron_New std opts) = 0"
proof -
  have "entries (fold (\<lambda>opt c. opt c) opts c) = entries c \<and> running (fold (\<lambda>opt c. opt c) opts c) = running c \<and>
      nextID (fold (\<lambda>opt c. opt c) opts c) = nextID c" for c
    using assms unfolding package_opts_def
    by (induction opts arbitrary: c) (auto simp: WithLocation_def WithParser_def WithChain_def)
  then show "entries (Cron_New std opts) = []" "\<not> running (Cron_New std opts)" "nextID (Cron_New std opts) = 0"
    by (simp_all add: Cron_New_def)
qed

lemma Cron_New_inv:
  assumes "package_opts opts"
  shows "cron_inv (new_sys (Cron_New std opts))"
  using Cron_New_fields [OF assms] by (simp add: cron_inv_def new_sys_def ids_ok_def)

section \<open>The contract of schedules\<close>

text \<open>
  \<^verbatim>\<open>Next\<close> returns \<^emph>\<open>the next activation time, later than the given time\<close>, or the zero time.
\<close>

locale schedule_contract =
  fixes nxt :: "'s \<Rightarrow> 'z Time \<Rightarrow> 'z Time" and ok :: "'s \<Rightarrow> bool"
  assumes later: "ok sch \<Longrightarrow> \<not> IsZero (nxt sch t) \<Longrightarrow> nanos t < nanos (nxt sch t)"
begin

lemma fired_not_due: "ok (Entry_Schedule e) \<Longrightarrow> \<not> due_at now (fired nxt now e)"
  using later [of "Entry_Schedule e" now] by (cases "due_at now e") (auto simp: fired_def due_at_def)

lemma none_due_after:
  assumes "\<forall>e \<in> set es. ok (Entry_Schedule e)" "mset es' = mset (map (fired nxt now) es)" "e \<in> set es'"
  shows "\<not> due_at now e"
  using assms(1,3) mset_eq_setD [OF assms(2)] fired_not_due by auto

end

text \<open>The schedules of the package, with zones of fixed offsets in minutes.\<close>

definition fixed_lookup :: "('z location \<Rightarrow> int) \<Rightarrow> 'z lookup" where
  "fixed_lookup zone loc sec = (60 * zone loc, 0, 0)"

definition package_next :: "'z lookup \<Rightarrow> 'z schedule \<Rightarrow> 'z Time \<Rightarrow> 'z Time" where
  "package_next lookup sch t = (case Schedule_Next lookup sch t of None \<Rightarrow> zero_Time | Some r \<Rightarrow> r)"

definition package_ok :: "'z schedule \<Rightarrow> bool" where
  "package_ok sch = (case sch of Spec _ \<Rightarrow> True | ConstantDelay d \<Rightarrow> Second_d \<le> Delay d)"

lemma fixed_lookup_Next: "\<exists>r. SpecSchedule_Next (fixed_lookup zone) s t = Some r \<and> (r = zero_Time \<or> nanos t < nanos r)"
proof (rule Next_later)
  show "offset (fixed_lookup zone) (sched_loc s t) x = (case sched_loc s t of UTC \<Rightarrow> 0 | loc \<Rightarrow> 60 * zone loc)" for x
    by (simp add: offset_def fixed_lookup_def split: location.splits)
  show "60 dvd (case sched_loc s t of UTC \<Rightarrow> 0 | loc \<Rightarrow> 60 * zone loc)" by (simp split: location.splits)
qed

lemma package_Next_returns: "Schedule_Next (fixed_lookup zone) sch t = Some (package_next (fixed_lookup zone) sch t)"
proof (cases sch)
  case (Spec sp)
  with fixed_lookup_Next [of zone sp t] show ?thesis by (auto simp: package_next_def Schedule_Next_def)
qed (simp add: package_next_def Schedule_Next_def)

lemma ConstantDelay_later:
  assumes "Second_d \<le> Delay d"
  shows "nanos t < nanos (ConstantDelaySchedule_Next d t)"
proof -
  have "Nanosecond_t t < Second_d" by (simp add: Nanosecond_t_def Second_d_def)
  with assms show ?thesis by (simp add: ConstantDelaySchedule_Next_def Time_Add_def Nanosecond_def)
qed

interpretation package: schedule_contract "package_next (fixed_lookup zone)" package_ok for zone
proof
  fix sch :: "'a schedule" and t
  assume "package_ok sch" "\<not> IsZero (package_next (fixed_lookup zone) sch t)"
  then show "nanos t < nanos (package_next (fixed_lookup zone) sch t)"
  proof (cases sch)
    case (Spec sp)
    with \<open>\<not> IsZero (package_next (fixed_lookup zone) sch t)\<close> fixed_lookup_Next [of zone sp t] show ?thesis
      by (auto simp: package_next_def Schedule_Next_def IsZero_def zero_Time_def)
  next
    case (ConstantDelay d)
    with \<open>package_ok sch\<close> ConstantDelay_later [of d t] show ?thesis
      by (simp add: package_next_def Schedule_Next_def package_ok_def)
  qed
qed

section \<open>Properties\<close>

text \<open>
  (C3) The heart of the scheduler. In every run of a new scheduler, whatever calls are made and
  whatever order the sort gives to ties: while it waits, its timer is for the earliest
  activation of its entries; and when it wakes, it runs exactly the entries that are due, each
  once, moves exactly these to their next activation, and leaves the others as they are.
\<close>

theorem wake_runs_exactly_the_due:
  assumes "sorts sorter" "package_opts opts" "cron_run nxt sorter (new_sys (Cron_New std opts)) ls s"
  shows "(\<forall>tm. loop s = Select tm \<longrightarrow> timer_ok tm (entries (cron s))) \<and>
    (\<forall>t due s'. cron_step nxt sorter s (LWake t due) s' \<longrightarrow>
      mset due = filter_mset (due_at (now_in (cron s) t)) (mset (entries (cron s))) \<and>
      mset (entries (cron s')) = image_mset (fired nxt (now_in (cron s) t)) (mset (entries (cron s))) \<and>
      jobWaiter (cron s') = jobWaiter (cron s) + length due)"
proof -
  have inv: "cron_inv s" using cron_run_inv [OF assms(3) Cron_New_inv [OF assms(2)] assms(1)] .
  have "mset due = filter_mset (due_at (now_in (cron s) t)) (mset (entries (cron s))) \<and>
      mset (entries (cron s')) = image_mset (fired nxt (now_in (cron s) t)) (mset (entries (cron s))) \<and>
      jobWaiter (cron s') = jobWaiter (cron s) + length due"
    if "cron_step nxt sorter s (LWake t due) s'" for t due s'
    using that
  proof (cases rule: cron_step.cases)
    case (loop_wake tm c)
    have ord: "in_order (entries (cron s))" using inv loop_wake(2) by (simp add: cron_inv_def)
    note spec = wake_spec [OF ord loop_wake(4)]
    obtain tm' c' where top: "loop_top sorter c = (tm', c')" by fastforce
    have s': "cron s' = c'" by (simp add: loop_wake(1) enter_select_def top)
    have "mset (entries c') = mset (entries c)" "jobWaiter c' = jobWaiter c"
      using loop_top_spec(1,3) [OF assms(1) top] by simp_all
    moreover have "mset due = filter_mset (due_at (now_in (cron s) t)) (mset (entries (cron s)))"
      by (simp add: spec(1))
    ultimately show ?thesis by (simp add: s' spec(2))
  qed
  with inv show ?thesis by (auto simp: cron_inv_def split: loop.splits)
qed

text \<open>
  (C21) With the schedules of the package, in zones of fixed offsets, no activation runs twice:
  their \<^verbatim>\<open>Next\<close> returns, and after a wake-up no entry of the scheduler is due at the time of the
  wake-up, so that the loop goes back to sleep.
\<close>

theorem no_entry_due_after_wake:
  assumes "sorts sorter" "package_opts opts"
    and "cron_run (package_next (fixed_lookup zone)) sorter (new_sys (Cron_New std opts)) ls s"
    and "\<forall>e \<in> set (entries (cron s)). package_ok (Entry_Schedule e)"
    and "cron_step (package_next (fixed_lookup zone)) sorter s (LWake t due) s'" "e \<in> set (entries (cron s'))"
  shows "\<not> due_at (now_in (cron s) t) e \<and> package_ok (Entry_Schedule e) \<and>
    Schedule_Next (fixed_lookup zone) (Entry_Schedule e) (now_in (cron s) t) \<noteq> None"
proof -
  have inv: "cron_inv s" using cron_run_inv [OF assms(3) Cron_New_inv [OF assms(2)] assms(1)] .
  from assms(5) have es: "mset (entries (cron s')) = mset (map (fired (package_next (fixed_lookup zone)) (now_in (cron s) t)) (entries (cron s)))"
  proof (cases rule: cron_step.cases)
    case (loop_wake tm c)
    have ord: "in_order (entries (cron s))" using inv loop_wake(2) by (simp add: cron_inv_def)
    obtain tm' c' where top: "loop_top sorter c = (tm', c')" by fastforce
    have "cron s' = c'" by (simp add: loop_wake(1) enter_select_def top)
    with loop_top_spec(3) [OF assms(1) top] wake_spec(2) [OF ord loop_wake(4)] show ?thesis by simp
  qed
  then have "e \<in> fired (package_next (fixed_lookup zone)) (now_in (cron s) t) ` set (entries (cron s))"
    using assms(6) by (metis mset_eq_setD set_map)
  then have "package_ok (Entry_Schedule e)" using assms(4) by (auto simp: fired_def)
  with package.none_due_after [OF assms(4) es assms(6)] package_Next_returns [of zone] show ?thesis by simp
qed

lemma Cron_Schedule_new:
  assumes "sorts sorter" "Cron_Schedule nxt sorter t sch cmd s = Some (eid, s')"
  obtains e where "mset (entries (cron s')) = add_mset e (mset (entries (cron s)))" "eid = nextID (cron s) + 1"
    "ID e = eid" "Entry_Schedule e = sch" "Entry_Job e = cmd" "\<not> locked s'" "running (cron s') \<longrightarrow> at_select s'"
proof -
  obtain e c where e: "Schedule_entry sch cmd (cron s) = (e, c)" by fastforce
  note new = Schedule_entry_spec [OF e]
  have eid: "eid = ID e" and unlocked: "\<not> locked s" using assms(2) by (auto simp: Cron_Schedule_def e split: if_splits)
  show thesis
  proof (cases "running c")
    case False
    with assms(2) unlocked have "s' = s\<lparr>cron := c\<lparr>entries := entries c @ [e]\<rparr>\<rparr>" by (simp add: Cron_Schedule_def e)
    with False new eid unlocked show thesis by (intro that [of e]) simp_all
  next
    case True
    obtain tm c' where top: "loop_top sorter (on_add nxt t e c) = (tm, c')" by fastforce
    have "s' = s\<lparr>cron := c', loop := Select tm\<rparr>"
      using assms(2) unlocked True by (auto simp: Cron_Schedule_def e enter_select_def top split: if_splits)
    with loop_top_spec(1,3) [OF assms(1) top] new eid unlocked show thesis
      by (intro that [of "e\<lparr>Next_at := nxt (Entry_Schedule e) (now_in c t)\<rparr>"]) (simp_all add: on_add_def at_select_def)
  qed
qed

lemma Cron_Remove_spec:
  assumes "sorts sorter" "\<not> locked s" "running (cron s) \<longrightarrow> at_select s"
  obtains s' where "Cron_Remove sorter eid s = Some s'"
    "mset (entries (cron s')) = filter_mset (\<lambda>e. ID e \<noteq> eid) (mset (entries (cron s)))"
proof (cases "running (cron s)")
  case True
  obtain tm c where top: "loop_top sorter (on_remove eid (cron s)) = (tm, c)" by fastforce
  have "Cron_Remove sorter eid s = Some (s\<lparr>cron := c, loop := Select tm\<rparr>)"
    using True assms(2,3) by (simp add: Cron_Remove_def enter_select_def top)
  with that loop_top_spec(3) [OF assms(1) top] show thesis by (simp add: on_remove_def removeEntry_def)
next
  case False
  then show thesis using assms(2)
    by (intro that [of "s\<lparr>cron := removeEntry eid (cron s)\<rparr>"]) (simp_all add: Cron_Remove_def removeEntry_def)
qed

lemma find_unique:
  assumes "set es = insert e es'" "ID e = eid" "eid \<notin> ID ` es'"
  shows "List.find (\<lambda>x. eid = ID x) es = Some e"
proof (cases "List.find (\<lambda>x. eid = ID x) es")
  case None
  then show ?thesis using assms by (auto simp: find_None_iff)
next
  case (Some x)
  then have "x \<in> set es" "ID x = eid" by (auto simp: find_Some_iff)
  with assms have "x = e" by (metis image_eqI insert_iff)
  with Some show ?thesis by simp
qed

text \<open>
  (C22) Adding an entry and removing it again: in every run, \<^verbatim>\<open>Schedule\<close> returns an id that no
  entry of the scheduler has, \<^verbatim>\<open>Entry\<close> then finds the entry under it, and \<^verbatim>\<open>Remove\<close> of the
  id, running or not, leaves the entries as they were.
\<close>

theorem schedule_remove_roundtrip:
  assumes "sorts sorter" "package_opts opts" "cron_run nxt sorter (new_sys (Cron_New std opts)) ls s"
    and "Cron_Schedule nxt sorter t sch cmd s = Some (eid, s')"
  shows "eid \<notin> ID ` set (entries (cron s)) \<and>
    (\<exists>e. Cron_Entry eid s' = Some (Some e) \<and> Entry_Schedule e = sch \<and> Entry_Job e = cmd \<and> Entry_Valid e) \<and>
    (\<exists>s''. Cron_Remove sorter eid s' = Some s'' \<and> mset (entries (cron s'')) = mset (entries (cron s)))"
proof -
  have ids: "ids_ok (cron s)"
    using cron_run_inv [OF assms(3) Cron_New_inv [OF assms(2)] assms(1)] by (simp add: cron_inv_def)
  obtain e where e: "mset (entries (cron s')) = add_mset e (mset (entries (cron s)))" "eid = nextID (cron s) + 1"
    "ID e = eid" "Entry_Schedule e = sch" "Entry_Job e = cmd" "\<not> locked s'" "running (cron s') \<longrightarrow> at_select s'"
    by (rule Cron_Schedule_new [OF assms(1,4)])
  have fresh: "eid \<notin> ID ` set (entries (cron s))" "eid \<noteq> 0" using ids e(2) by (force simp: ids_ok_def)+
  have "set (entries (cron s')) = insert e (set (entries (cron s)))" using arg_cong [OF e(1), of set_mset] by simp
  from find_unique [OF this e(3) fresh(1)] e(6,7) have look: "Cron_Entry eid s' = Some (Some e)"
    by (auto simp: Cron_Entry_def Entries_def entrySnapshot_def)
  have "filter_mset (\<lambda>x. ID x \<noteq> eid) (mset (entries (cron s))) = mset (entries (cron s))"
    using fresh(1) by (intro filter_mset_eq_conv [THEN iffD2]) auto
  then have rem: "filter_mset (\<lambda>x. ID x \<noteq> eid) (mset (entries (cron s'))) = mset (entries (cron s))"
    using e(1,3) by simp
  obtain s'' where "Cron_Remove sorter eid s' = Some s''"
    "mset (entries (cron s'')) = filter_mset (\<lambda>x. ID x \<noteq> eid) (mset (entries (cron s')))"
    by (rule Cron_Remove_spec [OF assms(1) e(6,7)])
  with rem look fresh e(3-5) show ?thesis by (auto simp: Entry_Valid_def)
qed



text \<open>
  \<^verbatim>\<open>New\<close> installs an empty chain, not one that recovers panics: on a scheduler made
  without options, a job is not wrapped at all, and a run of it that panics ends the process.
\<close>

theorem default_chain_does_not_recover:
  "WrappedJob (fst (Schedule_entry sch cmd (Cron_New std []))) = FuncJob cmd \<and>
   (\<exists>s. job_run (chain (Cron_New std [] :: ('s, 'z, 'j) Cron)) no_jobs
      [Submit cmd, Spawn 0, Step 0 (Call cmd), Step 0 Silent, Crash 0] s \<and> crashed s)"
proof -
  let ?c = "chain (Cron_New std [] :: ('s, 'z, 'j) Cron)" and ?h = "\<lparr>mutexes = [], channels = []\<rparr>"
  let ?s = "\<lambda>ts b. \<lparr>heap = ?h, jobs = [FuncJob cmd], threads = ts, crashed = b\<rparr>"
  have nowrap: "Then ?c (FuncJob cmd) h = (FuncJob cmd, h)" for h by (simp add: Cron_New_def NewChain_def Then_def)
  have 1: "job_step ?c no_jobs (Submit cmd) (?s [] False)"
    using submit [of no_jobs ?c cmd "FuncJob cmd" ?h] by (simp add: nowrap no_jobs_def)
  have 2: "job_step ?c (?s [] False) (Spawn 0) (?s [(Enter (FuncJob cmd), [])] False)"
    using spawn [of "?s [] False" 0 ?c] by simp
  have 3: "job_step ?c (?s [(Enter (FuncJob cmd), [])] False) (Step 0 (Call cmd)) (?s [(Running cmd, [])] False)"
    using step [of "?s [(Enter (FuncJob cmd), [])] False" 0 "Call cmd" ?h "(Running cmd, [])" ?c] enter_func [of ?h cmd "[]"] by simp
  have 4: "job_step ?c (?s [(Running cmd, [])] False) (Step 0 Silent) (?s [(Return Panicked, [])] False)"
    using step [of "?s [(Running cmd, [])] False" 0 Silent ?h "(Return Panicked, [])" ?c] func_ends [of ?h cmd "[]" Panicked] by simp
  have 5: "job_step ?c (?s [(Return Panicked, [])] False) (Crash 0) (?s [(Return Panicked, [])] True)"
    using crash [of "?s [(Return Panicked, [])] False" 0 ?c] by simp
  from jrun_step [OF jrun_step [OF jrun_step [OF jrun_step [OF jrun_step [OF jrun_refl 1] 2] 3] 4] 5]
  show ?thesis
    by (intro conjI exI [of _ "?s [(Return Panicked, [])] True"])
      (simp_all add: Schedule_entry_def Cron_New_def NewChain_def Then_def)
qed

section \<open>An example\<close>

definition demo_sorter :: "('s, 'z, 'j) sorter" where
  "demo_sorter es =
     sort_key (\<lambda>e. nanos (Next_at e)) (filter (\<lambda>e. \<not> IsZero (Next_at e)) es) @ filter (\<lambda>e. IsZero (Next_at e)) es"

lemma demo_sorter_sorts: "sorts demo_sorter"
proof -
  have "in_order (sort_key (\<lambda>e. nanos (Next_at e)) (filter (\<lambda>e. \<not> IsZero (Next_at e)) es))" for es :: "('a, 'b, 'c) Entry list"
  proof -
    have "sorted_wrt (\<lambda>e f. nanos (Next_at e) \<le> nanos (Next_at f)) (sort_key (\<lambda>e. nanos (Next_at e)) (filter (\<lambda>e. \<not> IsZero (Next_at e)) es))"
      using sorted_sort_key [of "\<lambda>e. nanos (Next_at e)"] by (simp add: sorted_wrt_map)
    then show ?thesis
      by (rule sorted_wrt_mono_rel [rotated]) (auto simp: byTime_Less_def Time_Before_def)
  qed
  moreover have "in_order (filter (\<lambda>e. IsZero (Next_at e)) es)" for es :: "('a, 'b, 'c) Entry list"
    by (induction es) (auto simp: byTime_Less_def)
  moreover have "mset (filter (\<lambda>e. \<not> IsZero (Next_at e)) es) + mset (filter (\<lambda>e. IsZero (Next_at e)) es) = mset es"
    for es :: "('a, 'b, 'c) Entry list"
    using multiset_partition [of "mset es" "\<lambda>e. IsZero (Next_at e)"] by (simp add: union_commute)
  ultimately show ?thesis by (auto simp: sorts_def demo_sorter_def sorted_wrt_append byTime_Less_def)
qed

text \<open>A scheduler with one job every second, at a number of seconds after the zero time.\<close>

definition at_sec :: "int \<Rightarrow> unit Time" where
  "at_sec k = \<lparr>nanos = k * Second_d, tloc = UTC\<rparr>"

lemma at_sec_simps [simp]:
  "nanos (at_sec k) = k * Second_d" "Time_In UTC (at_sec k) = at_sec k" "IsZero (at_sec k) \<longleftrightarrow> k = 0"
  by (simp_all add: at_sec_def Time_In_def IsZero_def Second_d_def)

definition demo_entry :: "unit Time \<Rightarrow> unit Time \<Rightarrow> (unit schedule, unit, unit) Entry" where
  "demo_entry n p = \<lparr>ID = 1, Entry_Schedule = ConstantDelay (Every Second_d), Next_at = n, Prev_at = p,
     WrappedJob = FuncJob (), Entry_Job = ()\<rparr>"

definition demo_sched :: "(unit schedule, unit, unit) Entry list \<Rightarrow> bool \<Rightarrow> int \<Rightarrow> nat \<Rightarrow> (unit schedule, unit, unit) Cron" where
  "demo_sched es run n w = \<lparr>entries = es, chain = NewChain [], running = run, cron_location = UTC,
     parser = (\<lambda>_. Inl EmptySpec), nextID = n, jobWaiter = w, cron_heap = \<lparr>mutexes = [], channels = []\<rparr>\<rparr>"

definition demo_idle :: "(unit schedule, unit, unit) cron_sys" where
  "demo_idle = new_sys (demo_sched [demo_entry zero_Time zero_Time] False 1 0)"

definition demo_waiting :: "(unit schedule, unit, unit) cron_sys" where
  "demo_waiting = \<lparr>cron = demo_sched [demo_entry (at_sec 2) zero_Time] True 1 0, loop = Select (Until (at_sec 2)), locked = False\<rparr>"

definition demo_woken :: "(unit schedule, unit, unit) cron_sys" where
  "demo_woken = \<lparr>cron = demo_sched [demo_entry (at_sec 3) (at_sec 2)] True 1 1, loop = Select (Until (at_sec 3)), locked = False\<rparr>"

abbreviation demo_nxt :: "unit schedule \<Rightarrow> unit Time \<Rightarrow> unit Time" where
  "demo_nxt \<equiv> package_next (fixed_lookup (\<lambda>_. 0))"

abbreviation demo_new :: "(unit schedule, unit, unit) cron_sys" where
  "demo_new \<equiv> new_sys (Cron_New (\<lambda>_. Inl EmptySpec) [WithLocation UTC])"

lemma demo_opts: "package_opts [WithLocation UTC]"
  by (simp add: package_opts_def)

lemma demo_nxt_second: "demo_nxt (ConstantDelay (Every Second_d)) (at_sec k) = at_sec (k + 1)"
  by (simp add: package_next_def Schedule_Next_def ConstantDelaySchedule_Next_def Every_def Time_Add_def
      Nanosecond_t_def Nanosecond_def Second_d_def at_sec_def)

lemma enter_select_one:
  "\<not> IsZero (Next_at e) \<Longrightarrow> enter_select demo_sorter (demo_sched [e] run n w) s =
     s\<lparr>cron := demo_sched [e] run n w, loop := Select (Until (Next_at e))\<rparr>"
  by (simp add: enter_select_def loop_top_def demo_sorter_def demo_sched_def)

lemma demo_add: "Cron_Schedule demo_nxt demo_sorter t (ConstantDelay (Every Second_d)) () demo_new = Some (1, demo_idle)"
  by (simp add: Cron_Schedule_def new_sys_def Cron_New_def WithLocation_def Schedule_entry_def Then_def NewChain_def
      demo_idle_def demo_sched_def demo_entry_def)

lemma demo_run:
  "cron_run demo_nxt demo_sorter demo_new [LSchedule (ConstantDelay (Every Second_d)) () 1, LStart, LInit (at_sec 1)] demo_waiting"
proof -
  let ?s = "\<lparr>cron = demo_sched [demo_entry zero_Time zero_Time] True 1 0, loop = Starting, locked = False\<rparr>"
  have 2: "cron_step demo_nxt demo_sorter demo_idle LStart ?s"
    by (rule start) (simp add: Cron_Start_def demo_idle_def new_sys_def demo_sched_def)
  have "run_init demo_nxt (now_in (cron ?s) (at_sec 1)) (cron ?s) = demo_sched [demo_entry (at_sec 2) zero_Time] True 1 0"
    by (simp add: run_init_def demo_sched_def now_in_def demo_entry_def demo_nxt_second)
  moreover have "\<not> IsZero (Next_at (demo_entry (at_sec 2) zero_Time))" by (simp add: demo_entry_def)
  ultimately have 3: "cron_step demo_nxt demo_sorter ?s (LInit (at_sec 1)) demo_waiting"
    using loop_init [of ?s demo_nxt demo_sorter "at_sec 1"]
    by (simp add: enter_select_one demo_waiting_def) (simp add: demo_entry_def)
  from crun_step [OF crun_step [OF crun_step [OF crun_refl schedule [OF demo_add]] 2] 3] show ?thesis by simp
qed

lemma demo_wake: "cron_step demo_nxt demo_sorter demo_waiting (LWake (at_sec 2) [demo_entry (at_sec 2) zero_Time]) demo_woken"
proof -
  have nz: "\<not> IsZero (at_sec 2)" "\<not> IsZero (Next_at (demo_entry (at_sec 3) (at_sec 2)))"
    by (simp_all add: demo_entry_def)
  have "wake demo_nxt (at_sec 2) (cron demo_waiting) =
      ([demo_entry (at_sec 2) zero_Time], demo_sched [demo_entry (at_sec 3) (at_sec 2)] True 1 1)"
    using nz(1) by (simp add: wake_def demo_waiting_def demo_sched_def demo_entry_def now_in_def Time_After_def
        demo_nxt_second startJob_def Let_def)
  moreover have "loop demo_waiting = Select (Until (at_sec 2))" "timer_fires (Until (at_sec 2)) (at_sec 2)"
    by (simp_all add: demo_waiting_def timer_fires_def)
  moreover have "enter_select demo_sorter (demo_sched [demo_entry (at_sec 3) (at_sec 2)] True 1 1) demo_waiting = demo_woken"
    unfolding enter_select_one [OF nz(2)] by (simp add: demo_waiting_def demo_woken_def demo_entry_def)
  ultimately show ?thesis
    using loop_wake [of demo_waiting "Until (at_sec 2)" "at_sec 2" demo_nxt "[demo_entry (at_sec 2) zero_Time]"
        "demo_sched [demo_entry (at_sec 3) (at_sec 2)] True 1 1" demo_sorter] by simp
qed

theorem wake_runs_exactly_the_due_witness:
  "cron_step demo_nxt demo_sorter demo_waiting (LWake (at_sec 2) [demo_entry (at_sec 2) zero_Time]) demo_woken \<and>
   jobWaiter (cron demo_woken) = jobWaiter (cron demo_waiting) + 1"
  using wake_runs_exactly_the_due [OF demo_sorter_sorts demo_opts demo_run] demo_wake by fastforce

theorem no_entry_due_after_wake_witness: "\<not> due_at (now_in (cron demo_waiting) (at_sec 2)) (demo_entry (at_sec 3) (at_sec 2))"
proof -
  have "\<forall>e \<in> set (entries (cron demo_waiting)). package_ok (Entry_Schedule e)"
    by (simp add: demo_waiting_def demo_sched_def demo_entry_def package_ok_def Every_def Second_d_def)
  moreover have "demo_entry (at_sec 3) (at_sec 2) \<in> set (entries (cron demo_woken))"
    by (simp add: demo_woken_def demo_sched_def)
  ultimately show ?thesis using no_entry_due_after_wake [OF demo_sorter_sorts demo_opts demo_run _ demo_wake] by blast
qed

theorem schedule_remove_roundtrip_witness:
  "\<exists>s''. Cron_Remove demo_sorter 1 demo_idle = Some s'' \<and> mset (entries (cron s'')) = mset (entries (cron demo_new))"
  using schedule_remove_roundtrip [OF demo_sorter_sorts demo_opts crun_refl demo_add] by blast


end
