(* ===== verification/Dcron.thy ===== *)
theory Dcron
  imports Cron JobPacker NodePool
begin

text \<open>
  Package dcron: the scheduler of one node of a cluster (\<^verbatim>\<open>dcron/dcron.go\<close>,
  \<^verbatim>\<open>option.go\<close>, \<^verbatim>\<open>job_warpper.go\<close>). It puts the cron scheduler, the node pool and the packer
  of recent jobs together: every node schedules every job, and when a job is due each node asks
  its pool whether it is the one to run it.
\<close>

section \<open>Jobs\<close>

text \<open>
  The wrapper that is submitted to the cron scheduler. Its pointer to the \<^verbatim>\<open>Dcron\<close> is left out,
  there is one; \<open>Job\<close> is \<^const>\<open>None\<close> for a nil interface.
\<close>

record 'u JobWarpper =
  JW_ID :: int
  Name :: string
  CronStr :: string
  Job :: "'u option"

section \<open>Construction\<close>

definition dcronRunning :: int where "dcronRunning = 1"
definition dcronStopped :: int where "dcronStopped = 0"
definition dcronStateSteady :: string where "dcronStateSteady = ''dcronStateSteady''"
definition dcronStateUpgrade :: string where "dcronStateUpgrade = ''dcronStateUpgrade''"
definition defaultReplicas :: int where "defaultReplicas = 50"
definition defaultDuration :: duration where "defaultDuration = 3 * Second_d"

text \<open>The fields that options set. \<open>RecoverFunc\<close> says whether there is one.\<close>

record ('s, 'z, 'u) dcron_conf =
  ServerName :: string
  nodeUpdateDuration :: duration
  dc_hashReplicas :: int
  dc_capacityLoad :: bool
  crOptions :: "('s, 'z, 'u JobWarpper) cron_opt list"
  RecoverFunc :: bool
  dc_recentJobs :: "'z RecentJobPacker option"

text \<open>
  And the others. \<open>dc_jobsRWMut\<close> says that a call has blocked for good while it holds the
  mutex; \<open>dc_state\<close> is the content of the \<^verbatim>\<open>atomic.Value\<close>.
\<close>

record ('s, 'z, 'u, 'd) Dcron = "('s, 'z, 'u) dcron_conf" +
  dc_jobs :: "string \<rightharpoonup> 'u JobWarpper"
  dc_pool :: "'d pool_sys"
  dc_running :: int
  cr :: "('s, 'z, 'u JobWarpper) cron_sys"
  dc_state :: "string option"
  dc_jobsRWMut :: bool

definition newDcron :: "string \<Rightarrow> ('s, 'z, 'u) dcron_conf" where
  "newDcron serverName =
     \<lparr>ServerName = serverName, nodeUpdateDuration = defaultDuration, dc_hashReplicas = defaultReplicas,
      dc_capacityLoad = False, crOptions = [], RecoverFunc = False, dc_recentJobs = None\<rparr>"

type_synonym ('s, 'z, 'u) dcron_opt = "('s, 'z, 'u) dcron_conf \<Rightarrow> ('s, 'z, 'u) dcron_conf"

definition WithNodeUpdateDuration :: "duration \<Rightarrow> ('s, 'z, 'u) dcron_opt" where
  "WithNodeUpdateDuration d c = c\<lparr>nodeUpdateDuration := d\<rparr>"

definition WithHashReplicas :: "int \<Rightarrow> ('s, 'z, 'u) dcron_opt" where
  "WithHashReplicas n c = c\<lparr>dc_hashReplicas := n\<rparr>"

definition Dcron_WithCapacityLoad :: "('s, 'z, 'u) dcron_opt" where
  "Dcron_WithCapacityLoad c = c\<lparr>dc_capacityLoad := True\<rparr>"

definition CronOptionLocation :: "'z location \<Rightarrow> ('s, 'z, 'u) dcron_opt" where
  "CronOptionLocation loc c = (let f = WithLocation loc in c\<lparr>crOptions := crOptions c @ [f]\<rparr>)"

definition CronOptionSeconds :: "(string \<Rightarrow> string + 'z) \<Rightarrow> ('z schedule, 'z, 'u) dcron_opt" where
  "CronOptionSeconds tzload c = (let f = WithSeconds tzload in c\<lparr>crOptions := crOptions c @ [f]\<rparr>)"

definition CronOptionParser :: "(string \<Rightarrow> parse_error + 's) \<Rightarrow> ('s, 'z, 'u) dcron_opt" where
  "CronOptionParser p c = (let f = WithParser p in c\<lparr>crOptions := crOptions c @ [f]\<rparr>)"

definition CronOptionChain :: "'u JobWarpper JobWrapper list \<Rightarrow> ('s, 'z, 'u) dcron_opt" where
  "CronOptionChain ws c = (let f = WithChain ws in c\<lparr>crOptions := crOptions c @ [f]\<rparr>)"

definition WithRecoverFunc :: "('s, 'z, 'u) dcron_opt" where
  "WithRecoverFunc c = c\<lparr>RecoverFunc := True\<rparr>"

definition WithClusterStable :: "duration \<Rightarrow> ('s, 'z, 'u) dcron_opt" where
  "WithClusterStable window c = c\<lparr>dc_recentJobs := Some (NewRecentJobPacker window)\<rparr>"

definition new_pool ::
    "'d DriverV2 \<Rightarrow> 'd \<Rightarrow> 'd pool_opt list \<Rightarrow> ('s, 'z, 'u) dcron_conf \<Rightarrow> 'd pool_sys" where
  "new_pool drv d opts c =
     \<lparr>pool = NewNodePool drv (ServerName c) d (nodeUpdateDuration c) (dc_hashReplicas c) opts, loops = 0, waiting = 0\<rparr>"

definition NewDcron ::
    "'d DriverV2 \<Rightarrow> (string \<Rightarrow> parse_error + 's) \<Rightarrow> string \<Rightarrow> 'd \<Rightarrow> ('s, 'z, 'u JobWarpper) cron_opt list \<Rightarrow>
     ('s, 'z, 'u, 'd) Dcron" where
  "NewDcron drv std serverName driver cronOpts =
     (let c = (newDcron serverName)\<lparr>crOptions := cronOpts\<rparr>
      in dcron_conf.extend c
           \<lparr>dc_jobs = Map.empty, dc_pool = new_pool drv driver [] c, dc_running = dcronStopped,
            cr = new_sys (Cron_New std cronOpts), dc_state = None, dc_jobsRWMut = False\<rparr>)"

definition NewDcronWithOption ::
    "'d DriverV2 \<Rightarrow> (string \<Rightarrow> parse_error + 's) \<Rightarrow> string \<Rightarrow> 'd \<Rightarrow> ('s, 'z, 'u) dcron_opt list \<Rightarrow>
     ('s, 'z, 'u, 'd) Dcron" where
  "NewDcronWithOption drv std serverName driver dcronOpts =
     (let c = fold (\<lambda>opt c. opt c) dcronOpts (newDcron serverName);
          nodepoolOpts = (if dc_capacityLoad c then [WithCapacityLoad] else [])
      in dcron_conf.extend c
           \<lparr>dc_jobs = Map.empty, dc_pool = new_pool drv driver nodepoolOpts c, dc_running = dcronStopped,
            cr = new_sys (Cron_New std (crOptions c)), dc_state = None, dc_jobsRWMut = False\<rparr>)"

section \<open>The table of jobs\<close>

datatype dcron_error = JobNameExists | AddJobFailed parse_error

text \<open>
  The calls on the table; \<^const>\<open>None\<close> is a call that waits, for the mutex or in the cron
  scheduler.
\<close>

definition addJob ::
    "('s \<Rightarrow> 'z Time \<Rightarrow> 'z Time) \<Rightarrow> ('s, 'z, 'u JobWarpper) sorter \<Rightarrow> 'z Time \<Rightarrow> string \<Rightarrow> string \<Rightarrow> 'u option \<Rightarrow>
     ('s, 'z, 'u, 'd) Dcron \<Rightarrow> (dcron_error option \<times> ('s, 'z, 'u, 'd) Dcron) option" where
  "addJob nxt sorter t jobName cronStr job d =
     (if dc_jobsRWMut d then None
      else if dc_jobs d jobName \<noteq> None then Some (Some JobNameExists, d)
      else
        let innerJob = \<lparr>JW_ID = 0, Name = jobName, CronStr = cronStr, Job = job\<rparr>
        in (case Cron_AddJob nxt sorter t cronStr innerJob (cr d) of
              None \<Rightarrow> None
            | Some (Inl err, c) \<Rightarrow> Some (Some (AddJobFailed err), d\<lparr>cr := c\<rparr>)
            | Some (Inr entryID, c) \<Rightarrow>
                Some (None, d\<lparr>cr := c, dc_jobs := (dc_jobs d)(jobName \<mapsto> innerJob\<lparr>JW_ID := entryID\<rparr>)\<rparr>)))"

text \<open>\<^verbatim>\<open>AddJob\<close> and \<^verbatim>\<open>AddFunc\<close>, whose function is never nil as a job.\<close>

definition Dcron_AddJob ::
    "('s \<Rightarrow> 'z Time \<Rightarrow> 'z Time) \<Rightarrow> ('s, 'z, 'u JobWarpper) sorter \<Rightarrow> 'z Time \<Rightarrow> string \<Rightarrow> string \<Rightarrow> 'u option \<Rightarrow>
     ('s, 'z, 'u, 'd) Dcron \<Rightarrow> (dcron_error option \<times> ('s, 'z, 'u, 'd) Dcron) option" where
  "Dcron_AddJob nxt sorter t jobName cronStr job d = addJob nxt sorter t jobName cronStr job d"

definition Dcron_AddFunc ::
    "('s \<Rightarrow> 'z Time \<Rightarrow> 'z Time) \<Rightarrow> ('s, 'z, 'u JobWarpper) sorter \<Rightarrow> 'z Time \<Rightarrow> string \<Rightarrow> string \<Rightarrow> 'u \<Rightarrow>
     ('s, 'z, 'u, 'd) Dcron \<Rightarrow> (dcron_error option \<times> ('s, 'z, 'u, 'd) Dcron) option" where
  "Dcron_AddFunc nxt sorter t jobName cronStr cmd d = addJob nxt sorter t jobName cronStr (Some cmd) d"

definition Dcron_Remove ::
    "('s, 'z, 'u JobWarpper) sorter \<Rightarrow> string \<Rightarrow> ('s, 'z, 'u, 'd) Dcron \<Rightarrow> ('s, 'z, 'u, 'd) Dcron option" where
  "Dcron_Remove sorter jobName d =
     (if dc_jobsRWMut d then None
      else
        (case dc_jobs d jobName of
           None \<Rightarrow> Some d
         | Some job \<Rightarrow>
             (case Cron_Remove sorter (JW_ID job) (cr d) of
                None \<Rightarrow> None
              | Some c \<Rightarrow> Some (d\<lparr>dc_jobs := (dc_jobs d)(jobName := None), cr := c\<rparr>))))"

definition List_jobs :: "('s, 'z, 'u, 'd) Dcron \<Rightarrow> string \<rightharpoonup> 'u JobWarpper" where
  "List_jobs d = dc_jobs d"

text \<open>\<^verbatim>\<open>CleanJobs\<close>; the result says whether the call returns.\<close>

definition CleanJobs :: "('s, 'z, 'u, 'd) Dcron \<Rightarrow> (bool \<times> ('s, 'z, 'u, 'd) Dcron) option" where
  "CleanJobs d =
     (if dc_jobsRWMut d then None
      else
        let d = d\<lparr>dc_jobs := Map.empty\<rparr>
        in (case ResetEntries (cr d) of
              None \<Rightarrow> Some (False, d\<lparr>dc_jobsRWMut := True\<rparr>)
            | Some (False, c) \<Rightarrow> Some (False, d\<lparr>cr := c, dc_jobsRWMut := True\<rparr>)
            | Some (True, c) \<Rightarrow> Some (True, d\<lparr>cr := c\<rparr>)))"

section \<open>Running a job\<close>

definition IsLoadCapacityEnabled :: "('s, 'z, 'u, 'd) Dcron \<Rightarrow> bool" where
  "IsLoadCapacityEnabled d = dc_capacityLoad d"

definition set_pool :: "'d NodePool \<Rightarrow> ('s, 'z, 'u, 'd) Dcron \<Rightarrow> ('s, 'z, 'u, 'd) Dcron" where
  "set_pool np d = d\<lparr>dc_pool := (dc_pool d)\<lparr>pool := np\<rparr>\<rparr>"

text \<open>
  \<^verbatim>\<open>allowThisNodeRun\<close>: whether this node is to run the job, and the lists of jobs for which a
  goroutine of \<^verbatim>\<open>reRunRecentJobs\<close> is started. \<^const>\<open>None\<close> when the pool does not answer; a
  panic of the pool is passed on. \<open>t\<close> and \<open>t'\<close> are the two readings of the clock.
\<close>

definition allowThisNodeRun ::
    "hashfun \<Rightarrow> 'z Time \<Rightarrow> 'z Time \<Rightarrow> string \<Rightarrow> ('s, 'z, 'u, 'd) Dcron \<Rightarrow>
     ((go_panic + bool \<times> string list list) \<times> ('s, 'z, 'u, 'd) Dcron) option" where
  "allowThisNodeRun hash t t' jobName d =
     (case IsEligible hash jobName (pool (dc_pool d)) of
        None \<Rightarrow> None
      | Some (Inl (Panic p), np) \<Rightarrow> Some (Inl p, set_pool np d)
      | Some (r, np) \<Rightarrow>
          let d = set_pool np d;
              (ok, reruns, d) =
                (case r of
                   Inl err \<Rightarrow> (False, [], d\<lparr>dc_state := Some dcronStateUpgrade\<rparr>)
                 | Inr ok \<Rightarrow>
                     let d = d\<lparr>dc_state := Some dcronStateSteady\<rparr>
                     in (case dc_recentJobs d of
                           None \<Rightarrow> (ok, [], d)
                         | Some rjp \<Rightarrow>
                             let (jobNames, rjp) = PopAllJobs rjp
                             in (ok, [jobNames], d\<lparr>dc_recentJobs := Some rjp\<rparr>)));
              d = (case dc_recentJobs d of
                     None \<Rightarrow> d
                   | Some rjp \<Rightarrow>
                       if dc_state d = Some dcronStateUpgrade
                       then d\<lparr>dc_recentJobs := Some (AddJob t' jobName t rjp)\<rparr> else d)
          in Some (Inr (ok, reruns), d))"

text \<open>\<^verbatim>\<open>Execute\<close>: the function of the user that is called, if any.\<close>

definition Execute :: "'u JobWarpper \<Rightarrow> 'u list" where
  "Execute job = (case Job job of None \<Rightarrow> [] | Some j \<Rightarrow> [j])"

definition JobWarpper_Run ::
    "hashfun \<Rightarrow> 'z Time \<Rightarrow> 'z Time \<Rightarrow> 'u JobWarpper \<Rightarrow> ('s, 'z, 'u, 'd) Dcron \<Rightarrow>
     ((go_panic + 'u list \<times> string list list) \<times> ('s, 'z, 'u, 'd) Dcron) option" where
  "JobWarpper_Run hash t t' job d =
     (if IsLoadCapacityEnabled d then Some (Inr (Execute job, []), d)
      else
        (case allowThisNodeRun hash t t' (Name job) d of
           None \<Rightarrow> None
         | Some (Inl p, d) \<Rightarrow> Some (Inl p, d)
         | Some (Inr (ok, reruns), d) \<Rightarrow> Some (Inr (if ok then Execute job else [], reruns), d)))"

text \<open>
  The goroutines that \<^verbatim>\<open>startJob\<close> of the scheduler starts for jobs that are not wrapped, in the
  order in which they get to run: for each the name of its job and the functions of the user
  that it calls. \<open>t\<close> and \<open>t'\<close> give the readings of the clock for each name.
\<close>

fun run_started ::
    "hashfun \<Rightarrow> (string \<Rightarrow> 'z Time) \<Rightarrow> (string \<Rightarrow> 'z Time) \<Rightarrow> 'u JobWarpper list \<Rightarrow> ('s, 'z, 'u, 'd) Dcron \<Rightarrow>
     ((go_panic + (string \<times> 'u list) list) \<times> ('s, 'z, 'u, 'd) Dcron) option" where
  "run_started hash t t' [] d = Some (Inr [], d)"
| "run_started hash t t' (job # started) d =
     (case JobWarpper_Run hash (t (Name job)) (t' (Name job)) job d of
        None \<Rightarrow> None
      | Some (Inl p, d) \<Rightarrow> Some (Inl p, d)
      | Some (Inr (js, reruns), d) \<Rightarrow>
          (case run_started hash t t' started d of
             None \<Rightarrow> None
           | Some (Inl p, d) \<Rightarrow> Some (Inl p, d)
           | Some (Inr calls, d) \<Rightarrow> Some (Inr ((Name job, js) # calls), d)))"

text \<open>\<^verbatim>\<open>reRunRecentJobs\<close>: the functions of the user that are called.\<close>

fun reRunRecentJobs ::
    "hashfun \<Rightarrow> string list \<Rightarrow> ('s, 'z, 'u, 'd) Dcron \<Rightarrow> ((go_panic + 'u list) \<times> ('s, 'z, 'u, 'd) Dcron) option" where
  "reRunRecentJobs hash [] d = Some (Inr [], d)"
| "reRunRecentJobs hash (jobName # jobNames) d =
     (case dc_jobs d jobName of
        None \<Rightarrow> reRunRecentJobs hash jobNames d
      | Some job \<Rightarrow>
          (case IsEligible hash jobName (pool (dc_pool d)) of
             None \<Rightarrow> None
           | Some (Inl (Panic p), np) \<Rightarrow> Some (Inl p, set_pool np d)
           | Some (r, np) \<Rightarrow>
               (case reRunRecentJobs hash jobNames (set_pool np d) of
                  None \<Rightarrow> None
                | Some (Inl p, d) \<Rightarrow> Some (Inl p, d)
                | Some (Inr js, d) \<Rightarrow> Some (Inr ((if r = Inr True then Execute job else []) @ js), d))))"

section \<open>Life cycle\<close>

definition Dcron_NodeID :: "('s, 'z, 'u, 'd) Dcron \<Rightarrow> string" where
  "Dcron_NodeID d = GetNodeID (pool (dc_pool d))"

datatype start_result = StartFailed | PoolStarting | AlreadyStarted

definition startNodePool ::
    "'d DriverV2 \<Rightarrow> hashfun \<Rightarrow> range_order \<Rightarrow> int \<Rightarrow> ('s, 'z, 'u, 'd) Dcron \<Rightarrow> go_error option \<times> ('s, 'z, 'u, 'd) Dcron" where
  "startNodePool drv hash order now d =
     (case Start_init drv hash order now (pool (dc_pool d)) of
        (Some err, np) \<Rightarrow> (Some err, set_pool np d)
      | (None, np) \<Rightarrow>
          (None, d\<lparr>dc_pool := \<lparr>pool = np, loops = loops (dc_pool d) + 1, waiting = waiting (dc_pool d) + 1\<rparr>\<rparr>))"

text \<open>
  \<^verbatim>\<open>Start\<close> and \<^verbatim>\<open>Run\<close> up to the wait in the start of the pool, and what they do when the pool
  is steady. The function that recovers jobs is an argument.
\<close>

definition Dcron_Start ::
    "'d DriverV2 \<Rightarrow> hashfun \<Rightarrow> range_order \<Rightarrow> int \<Rightarrow> (('s, 'z, 'u, 'd) Dcron \<Rightarrow> ('s, 'z, 'u, 'd) Dcron) \<Rightarrow>
     ('s, 'z, 'u, 'd) Dcron \<Rightarrow> start_result \<times> ('s, 'z, 'u, 'd) Dcron" where
  "Dcron_Start drv hash order now recover_jobs d =
     (let d = (if RecoverFunc d then recover_jobs d else d)
      in if dc_running d = dcronStopped
         then let d = d\<lparr>dc_running := dcronRunning\<rparr>
              in (case startNodePool drv hash order now d of
                    (Some err, d) \<Rightarrow> (StartFailed, d\<lparr>dc_running := dcronStopped\<rparr>)
                  | (None, d) \<Rightarrow> (PoolStarting, d))
         else (AlreadyStarted, d))"

definition Dcron_Start_steady :: "('s, 'z, 'u, 'd) Dcron \<Rightarrow> ('s, 'z, 'u, 'd) Dcron option" where
  "Dcron_Start_steady d =
     (if waiting (dc_pool d) > 0 \<and> GetState (pool (dc_pool d)) = Inr NodePoolStateSteady
      then map_option (\<lambda>c. d\<lparr>dc_pool := (dc_pool d)\<lparr>waiting := waiting (dc_pool d) - 1\<rparr>, cr := c\<rparr>) (Cron_Start (cr d))
      else None)"

definition Dcron_Run ::
    "'d DriverV2 \<Rightarrow> hashfun \<Rightarrow> range_order \<Rightarrow> int \<Rightarrow> (('s, 'z, 'u, 'd) Dcron \<Rightarrow> ('s, 'z, 'u, 'd) Dcron) \<Rightarrow>
     ('s, 'z, 'u, 'd) Dcron \<Rightarrow> start_result \<times> ('s, 'z, 'u, 'd) Dcron" where
  "Dcron_Run drv hash order now recover_jobs d =
     (let d = (if RecoverFunc d then recover_jobs d else d)
      in if dc_running d = dcronStopped
         then let d = d\<lparr>dc_running := dcronRunning\<rparr>
              in (case startNodePool drv hash order now d of
                    (Some err, d) \<Rightarrow> (StartFailed, d\<lparr>dc_running := dcronStopped\<rparr>)
                  | (None, d) \<Rightarrow> (PoolStarting, d))
         else (AlreadyStarted, d))"

definition Dcron_Run_steady :: "('s, 'z, 'u, 'd) Dcron \<Rightarrow> ('s, 'z, 'u, 'd) Dcron option" where
  "Dcron_Run_steady d =
     (if waiting (dc_pool d) > 0 \<and> GetState (pool (dc_pool d)) = Inr NodePoolStateSteady
      then map_option (\<lambda>c. d\<lparr>dc_pool := (dc_pool d)\<lparr>waiting := waiting (dc_pool d) - 1\<rparr>, cr := c\<rparr>) (Cron_Run (cr d))
      else None)"

text \<open>\<^verbatim>\<open>Run\<close> is \<^verbatim>\<open>Start\<close> but for the goroutine that goes on with the loop of the scheduler.\<close>

lemma Dcron_Run_Start [simp]:
  "Dcron_Run drv hash order now recover_jobs d = Dcron_Start drv hash order now recover_jobs d"
  "Dcron_Run_steady d = Dcron_Start_steady d"
  unfolding Dcron_Run_def Dcron_Start_def Dcron_Run_steady_def Dcron_Start_steady_def Cron_Run_def Cron_Start_def
  by (rule refl)+

text \<open>
  \<^verbatim>\<open>Stop\<close>: the pool is stopped, and then, on every tick, the exchange of \<^verbatim>\<open>running\<close> is tried
  until it succeeds. \<^const>\<open>None\<close> is a tick on which it does not. The exchange and the call of
  \<^verbatim>\<open>cr.Stop\<close> are one step, taken when the scheduler accepts the call.
\<close>

definition Dcron_Stop_pool ::
    "'d DriverV2 \<Rightarrow> ('s, 'z, 'u, 'd) Dcron \<Rightarrow> (go_error option \<times> ('s, 'z, 'u, 'd) Dcron) option" where
  "Dcron_Stop_pool drv d =
     map_option (\<lambda>(err, np). (err, set_pool np d)) (NodePool_Stop drv (pool (dc_pool d)))"

definition Dcron_Stop_tick :: "('s, 'z, 'u, 'd) Dcron \<Rightarrow> ('s, 'z, 'u, 'd) Dcron option" where
  "Dcron_Stop_tick d =
     (if dc_running d = dcronRunning
      then map_option (\<lambda>c. d\<lparr>dc_running := dcronStopped, cr := c\<rparr>) (Cron_Stop (cr d))
      else None)"

section \<open>The node as a whole\<close>

text \<open>
  The calls on a \<^verbatim>\<open>Dcron\<close>, the runs of its jobs, and the steps its node pool and its cron
  scheduler take on their own. A function that recovers jobs makes calls of \<^verbatim>\<open>AddJob\<close>, which
  are steps themselves, so that \<^verbatim>\<open>Start\<close> is taken without it.
\<close>

datatype 'u dcron_label =
    DcAdd string "dcron_error option" | DcRemove string | DcClean bool | DcStart start_result | DcSteady
  | DcStopPool "go_error option" | DcStopped | DcRun "'u list" "string list list" | DcRerun "'u list"
  | DcPanic go_panic | DcPool pool_label | DcCron

definition pool_own :: "pool_label \<Rightarrow> bool" where
  "pool_own l \<longleftrightarrow> l = Tick \<or> l = LoopEnds \<or> l = Environment"

definition cron_own :: "('s, 'z, 'j) cron_label \<Rightarrow> bool" where
  "cron_own l \<longleftrightarrow> (\<exists>t. l = LInit t) \<or> (\<exists>t due. l = LWake t due) \<or> l = LJobDone"

inductive dcron_step ::
    "'d DriverV2 \<Rightarrow> hashfun \<Rightarrow> ('d \<Rightarrow> 'd \<Rightarrow> bool) \<Rightarrow> ('s \<Rightarrow> 'z Time \<Rightarrow> 'z Time) \<Rightarrow> ('s, 'z, 'u JobWarpper) sorter \<Rightarrow>
     ('s, 'z, 'u, 'd) Dcron \<Rightarrow> 'u dcron_label \<Rightarrow> ('s, 'z, 'u, 'd) Dcron \<Rightarrow> bool"
  for drv hash env nxt sorter where
  dc_add: "addJob nxt sorter t jobName spec job d = Some (r, d') \<Longrightarrow>
    dcron_step drv hash env nxt sorter d (DcAdd jobName r) d'"
| dc_remove: "Dcron_Remove sorter jobName d = Some d' \<Longrightarrow> dcron_step drv hash env nxt sorter d (DcRemove jobName) d'"
| dc_clean: "CleanJobs d = Some (ret, d') \<Longrightarrow> dcron_step drv hash env nxt sorter d (DcClean ret) d'"
| dc_start: "ranges order \<Longrightarrow>
    Dcron_Start drv hash order now (\<lambda>d. d) d = (r, d') \<or> Dcron_Run drv hash order now (\<lambda>d. d) d = (r, d') \<Longrightarrow>
    dcron_step drv hash env nxt sorter d (DcStart r) d'"
| dc_steady: "Dcron_Start_steady d = Some d' \<or> Dcron_Run_steady d = Some d' \<Longrightarrow>
    dcron_step drv hash env nxt sorter d DcSteady d'"
| dc_stop_pool: "Dcron_Stop_pool drv d = Some (r, d') \<Longrightarrow> dcron_step drv hash env nxt sorter d (DcStopPool r) d'"
| dc_stopped: "Dcron_Stop_tick d = Some d' \<Longrightarrow> dcron_step drv hash env nxt sorter d DcStopped d'"
| dc_run: "JobWarpper_Run hash t t' job d = Some (Inr (js, reruns), d') \<Longrightarrow>
    dcron_step drv hash env nxt sorter d (DcRun js reruns) d'"
| dc_rerun: "reRunRecentJobs hash jobNames d = Some (Inr js, d') \<Longrightarrow>
    dcron_step drv hash env nxt sorter d (DcRerun js) d'"
| dc_panic: "JobWarpper_Run hash t t' job d = Some (Inl p, d') \<or> reRunRecentJobs hash jobNames d = Some (Inl p, d') \<Longrightarrow>
    dcron_step drv hash env nxt sorter d (DcPanic p) d'"
| dc_pool_own: "pool_step drv hash env (dc_pool d) l ps \<Longrightarrow> pool_own l \<Longrightarrow>
    dcron_step drv hash env nxt sorter d (DcPool l) (d\<lparr>dc_pool := ps\<rparr>)"
| dc_cron_own: "cron_step nxt sorter (cr d) l c \<Longrightarrow> cron_own l \<Longrightarrow>
    dcron_step drv hash env nxt sorter d DcCron (d\<lparr>cr := c\<rparr>)"

inductive dcron_run ::
    "'d DriverV2 \<Rightarrow> hashfun \<Rightarrow> ('d \<Rightarrow> 'd \<Rightarrow> bool) \<Rightarrow> ('s \<Rightarrow> 'z Time \<Rightarrow> 'z Time) \<Rightarrow> ('s, 'z, 'u JobWarpper) sorter \<Rightarrow>
     ('s, 'z, 'u, 'd) Dcron \<Rightarrow> 'u dcron_label list \<Rightarrow> ('s, 'z, 'u, 'd) Dcron \<Rightarrow> bool"
  for drv hash env nxt sorter where
  dcrun_refl: "dcron_run drv hash env nxt sorter d [] d"
| dcrun_step: "dcron_run drv hash env nxt sorter d ls d' \<Longrightarrow> dcron_step drv hash env nxt sorter d' l d'' \<Longrightarrow>
    dcron_run drv hash env nxt sorter d (ls @ [l]) d''"

end
