(* ===== verification/DcronTable.thy ===== *)
theory DcronTable
  imports Dcron CronProps PoolProps
begin

text \<open>
  The table of jobs and the entries of the cron scheduler stay in step: every registered job
  has exactly one entry and every entry belongs to a registered job.
\<close>

section \<open>What the operations do with the table and the scheduler\<close>

text \<open>The ids and jobs of the entries.\<close>

definition entry_table :: "('s, 'z, 'j) Cron \<Rightarrow> (int \<times> 'j) set" where
  "entry_table c = (\<lambda>e. (ID e, Entry_Job e)) ` set (entries c)"

lemma image_filter_eq: "f ` {e \<in> S. P (f e)} = {x \<in> f ` S. P x}"
  by blast

lemma Cron_Schedule_table:
  assumes "sorts sorter" "Cron_Schedule nxt sorter t sch cmd s = Some (eid, s')"
  shows "entry_table (cron s') = insert (eid, cmd) (entry_table (cron s))"
proof -
  obtain e where e: "mset (entries (cron s')) = add_mset e (mset (entries (cron s)))" "ID e = eid" "Entry_Job e = cmd"
    by (rule Cron_Schedule_new [OF assms])
  have "set (entries (cron s')) = insert e (set (entries (cron s)))" using arg_cong [OF e(1), of set_mset] by simp
  with e show ?thesis by (auto simp: entry_table_def)
qed

lemma Cron_Remove_table:
  assumes "sorts sorter" "Cron_Remove sorter eid s = Some s'"
  shows "entry_table (cron s') = {x \<in> entry_table (cron s). fst x \<noteq> eid}"
proof -
  have "\<not> locked s" "running (cron s) \<longrightarrow> at_select s" using assms(2) by (auto simp: Cron_Remove_def split: if_splits)
  then obtain s'' where "Cron_Remove sorter eid s = Some s''"
    "mset (entries (cron s'')) = filter_mset (\<lambda>e. ID e \<noteq> eid) (mset (entries (cron s)))"
    by (rule Cron_Remove_spec [OF assms(1)])
  then have "mset (entries (cron s')) = filter_mset (\<lambda>e. ID e \<noteq> eid) (mset (entries (cron s)))"
    using assms(2) by simp
  from arg_cong [OF this, of set_mset] have "set (entries (cron s')) = {e \<in> set (entries (cron s)). ID e \<noteq> eid}"
    by simp
  then show ?thesis
    using image_filter_eq [of "\<lambda>e. (ID e, Entry_Job e)" "set (entries (cron s))" "\<lambda>x. fst x \<noteq> eid"]
    by (simp add: entry_table_def)
qed

lemma enter_select_table: "sorts sorter \<Longrightarrow> entry_table (cron (enter_select sorter c s)) = entry_table c"
proof -
  assume "sorts sorter"
  obtain tm c' where top: "loop_top sorter c = (tm, c')" by fastforce
  from loop_top_spec(3) [OF \<open>sorts sorter\<close> top] have "set (entries c') = set (entries c)" by (rule mset_eq_setD)
  then show ?thesis by (simp add: enter_select_def top entry_table_def)
qed

lemma fired_fields: "ID (fired nxt now e) = ID e" "Entry_Job (fired nxt now e) = Entry_Job e"
  by (simp_all add: fired_def)

lemma cron_own_table:
  assumes "cron_step nxt sorter s l s'" "cron_own l" "sorts sorter" "cron_inv s"
  shows "entry_table (cron s') = entry_table (cron s)"
  using assms(1)
proof (cases rule: cron_step.cases)
  case (loop_init t)
  then show ?thesis using assms(3) by (simp add: enter_select_table) (auto simp: entry_table_def run_init_def image_image)
next
  case (loop_wake tm t due c)
  have "in_order (entries (cron s))" using assms(4) loop_wake(3) by (simp add: cron_inv_def)
  from wake_spec(2) [OF this loop_wake(5)] have "entry_table c = entry_table (cron s)"
    by (simp add: entry_table_def image_image fired_fields)
  then show ?thesis using assms(3) loop_wake(2) by (simp add: enter_select_table)
qed (use assms(2) in \<open>auto simp: cron_own_def entry_table_def\<close>)

section \<open>The invariant\<close>

definition job_table :: "(string \<rightharpoonup> 'u JobWarpper) \<Rightarrow> (int \<times> 'u JobWarpper) set" where
  "job_table js = (\<lambda>jw. (JW_ID jw, jw\<lparr>JW_ID := 0\<rparr>)) ` ran js"

definition table_ok :: "('s, 'z, 'u, 'd) Dcron \<Rightarrow> bool" where
  "table_ok d \<longleftrightarrow> cron_inv (cr d) \<and>
     (\<not> dc_jobsRWMut d \<longrightarrow> entry_table (cron (cr d)) = job_table (dc_jobs d) \<and>
        (\<forall>n jw. dc_jobs d n = Some jw \<longrightarrow> Name jw = n))"

lemma job_table_iff: "x \<in> job_table js \<longleftrightarrow> (\<exists>n w. js n = Some w \<and> x = (JW_ID w, w\<lparr>JW_ID := 0\<rparr>))"
  by (auto simp: job_table_def ran_def)

lemma entry_ids_unique:
  assumes "cron_inv s" "(i, a) \<in> entry_table (cron s)" "(i, b) \<in> entry_table (cron s)"
  shows "a = b"
  using assms by (auto simp: cron_inv_def ids_ok_def entry_table_def distinct_map inj_on_def)

lemma addJob_ok:
  assumes "table_ok d" "addJob nxt sorter t n spec job d = Some (r, d')" "sorts sorter"
  shows "table_ok d'"
proof -
  let ?jw = "\<lparr>JW_ID = 0, Name = n, CronStr = spec, Job = job\<rparr>"
  have free: "\<not> dc_jobsRWMut d" using assms(2) by (auto simp: addJob_def split: if_splits)
  consider "d' = d" | eid c where "dc_jobs d n = None" "Cron_AddJob nxt sorter t spec ?jw (cr d) = Some (Inr eid, c)"
      "d' = d\<lparr>cr := c, dc_jobs := (dc_jobs d)(n \<mapsto> ?jw\<lparr>JW_ID := eid\<rparr>)\<rparr>"
    using assms(2) by (auto simp: addJob_def Cron_AddJob_def Let_def split: if_splits option.splits sum.splits prod.splits)
  then show ?thesis
  proof cases
    case 2
    then obtain sch where sch: "Cron_Schedule nxt sorter t sch ?jw (cr d) = Some (eid, c)"
      by (auto simp: Cron_AddJob_def split: sum.splits)
    have "cron_inv c" using cron_step_inv [OF schedule [OF sch] _ assms(3)] assms(1) by (simp add: table_ok_def)
    moreover have "job_table (dc_jobs d') = insert (eid, ?jw) (job_table (dc_jobs d))"
      using 2(1) by (simp add: job_table_def 2(3) ran_map_upd)
    ultimately show ?thesis
      using assms(1) free Cron_Schedule_table [OF assms(3) sch] by (auto simp: table_ok_def 2(3))
  qed (use assms(1) in simp)
qed

lemma Dcron_Remove_ok:
  assumes "table_ok d" "Dcron_Remove sorter n d = Some d'" "sorts sorter"
  shows "table_ok d'"
proof (cases "dc_jobs d n")
  case None
  with assms(1,2) show ?thesis by (auto simp: Dcron_Remove_def split: if_splits)
next
  case (Some jw)
  then obtain c where c: "Cron_Remove sorter (JW_ID jw) (cr d) = Some c" "\<not> dc_jobsRWMut d"
    and d': "d' = d\<lparr>dc_jobs := (dc_jobs d)(n := None), cr := c\<rparr>"
    using assms(2) by (auto simp: Dcron_Remove_def split: if_splits option.splits)
  have inv: "cron_inv (cr d)" "entry_table (cron (cr d)) = job_table (dc_jobs d)"
    and names: "\<And>m w. dc_jobs d m = Some w \<Longrightarrow> Name w = m" using assms(1) c(2) by (auto simp: table_ok_def)
  have "cron_inv c" using cron_step_inv [OF remove [OF c(1)] inv(1) assms(3)] .
  moreover have "{x \<in> job_table (dc_jobs d). fst x \<noteq> JW_ID jw} = job_table ((dc_jobs d)(n := None))"
  proof -
    have "m = n" if "dc_jobs d m = Some w" "JW_ID w = JW_ID jw" for m w
    proof -
      have "(JW_ID jw, w\<lparr>JW_ID := 0\<rparr>) \<in> job_table (dc_jobs d)" "(JW_ID jw, jw\<lparr>JW_ID := 0\<rparr>) \<in> job_table (dc_jobs d)"
        unfolding job_table_iff using that Some by metis+
      from entry_ids_unique [OF inv(1)] this inv(2) have "w\<lparr>JW_ID := 0\<rparr> = jw\<lparr>JW_ID := 0\<rparr>" by metis
      then have "Name w = Name jw" by (metis JobWarpper.select_convs(2) JobWarpper.surjective JobWarpper.update_convs(1))
      with names that(1) Some show "m = n" by metis
    qed
    then have same: "dc_jobs d m = Some w \<Longrightarrow> JW_ID w \<noteq> JW_ID jw \<longleftrightarrow> m \<noteq> n" for m w
      using Some by (metis option.inject)
    have "x \<in> {x \<in> job_table (dc_jobs d). fst x \<noteq> JW_ID jw} \<longleftrightarrow> x \<in> job_table ((dc_jobs d)(n := None))" for x
    proof -
      have "x \<in> {x \<in> job_table (dc_jobs d). fst x \<noteq> JW_ID jw} \<longleftrightarrow>
          (\<exists>m w. dc_jobs d m = Some w \<and> x = (JW_ID w, w\<lparr>JW_ID := 0\<rparr>) \<and> JW_ID w \<noteq> JW_ID jw)"
        unfolding job_table_iff mem_Collect_eq by force
      also have "\<dots> \<longleftrightarrow> (\<exists>m w. dc_jobs d m = Some w \<and> x = (JW_ID w, w\<lparr>JW_ID := 0\<rparr>) \<and> m \<noteq> n)" using same by blast
      also have "\<dots> \<longleftrightarrow> x \<in> job_table ((dc_jobs d)(n := None))" unfolding job_table_iff by auto
      finally show ?thesis .
    qed
    then show ?thesis by blast
  qed
  ultimately show ?thesis
    using Cron_Remove_table [OF assms(3) c(1)] inv(2) names by (auto simp: table_ok_def d')
qed

lemma CleanJobs_ok:
  assumes "table_ok d" "CleanJobs d = Some (ret, d')"
  shows "table_ok d'"
proof -
  have inv: "cron_inv (cr d)" using assms(1) by (simp add: table_ok_def)
  have reset_ok: "cron_inv c" if "ResetEntries (cr d) = Some (b, c)" for b c
    using that inv by (auto simp: ResetEntries_def cron_inv_def ids_ok_def split: if_splits loop.splits)
  have "entry_table (cron c) = {}" if "ResetEntries (cr d) = Some (True, c)" for c
    using that by (auto simp: ResetEntries_def entry_table_def split: if_splits)
  with assms(2) inv reset_ok show ?thesis
    by (auto simp: CleanJobs_def table_ok_def job_table_def Let_def split: if_splits option.splits prod.splits bool.splits)
qed

text \<open>Steps that leave the table, the mutex and the entries alone.\<close>

definition same_table :: "('s, 'z, 'u, 'd) Dcron \<Rightarrow> ('s, 'z, 'u, 'd) Dcron \<Rightarrow> bool" where
  "same_table d d' \<longleftrightarrow> dc_jobs d' = dc_jobs d \<and> dc_jobsRWMut d' = dc_jobsRWMut d \<and> cr d' = cr d \<and>
     dc_capacityLoad d' = dc_capacityLoad d"

lemma same_table_ok: "same_table d d' \<Longrightarrow> table_ok d \<Longrightarrow> table_ok d'"
  by (simp add: same_table_def table_ok_def)

lemma set_pool_same: "same_table d (set_pool np d)"
  by (simp add: same_table_def set_pool_def)

lemma allowThisNodeRun_same:
  assumes "allowThisNodeRun hash t t' n d = Some (r, d')"
  shows "same_table d d'"
  using assms
  by (auto simp: allowThisNodeRun_def same_table_def set_pool_def Let_def
      split: option.splits sum.splits prod.splits go_error.splits if_splits)

lemma JobWarpper_Run_same:
  assumes "JobWarpper_Run hash t t' job d = Some (r, d')"
  shows "same_table d d'"
  using assms allowThisNodeRun_same [of hash t t' "Name job" d]
  by (auto simp: JobWarpper_Run_def same_table_def split: option.splits sum.splits prod.splits if_splits)

lemma reRun_same: "reRunRecentJobs hash ns d = Some (r, d') \<Longrightarrow> same_table d d'"
proof (induction ns arbitrary: d r d')
  case (Cons n ns)
  show ?case
  proof (cases "dc_jobs d n")
    case None
    with Cons show ?thesis by simp
  next
    case (Some job)
    with Cons.prems obtain x np where el: "IsEligible hash n (pool (dc_pool d)) = Some (x, np)"
      by (auto split: option.splits)
    consider p where "x = Inl (Panic p)" | "\<nexists>p. x = Inl (Panic p)" by blast
    then show ?thesis
    proof cases
      case 1
      with Cons.prems Some el show ?thesis using set_pool_same by auto
    next
      case no: 2
      then obtain r' d'' where rec: "reRunRecentJobs hash ns (set_pool np d) = Some (r', d'')" and "d' = d''"
        using Cons.prems Some el by (auto split: option.splits sum.splits go_error.splits)
      from Cons.IH [OF rec] \<open>d' = d''\<close> show ?thesis by (simp add: same_table_def set_pool_def)
    qed
  qed
qed (simp add: same_table_def)

lemma Dcron_Start_same:
  assumes "Dcron_Start drv hash order now (\<lambda>d. d) d = (r, d')"
  shows "same_table d d'"
  using assms
  by (auto simp: Dcron_Start_def startNodePool_def same_table_def set_pool_def Let_def split: if_splits prod.splits option.splits)

lemma table_ok_cron:
  assumes "table_ok d" "dc_jobs d' = dc_jobs d" "dc_jobsRWMut d' = dc_jobsRWMut d" "cron_inv (cr d')"
    and "entry_table (cron (cr d')) = entry_table (cron (cr d))"
  shows "table_ok d'"
  using assms by (simp add: table_ok_def)

lemma Cron_Start_Stop_table:
  "Cron_Start s = Some s' \<Longrightarrow> entry_table (cron s') = entry_table (cron s)"
  "Cron_Stop s = Some s' \<Longrightarrow> entry_table (cron s') = entry_table (cron s)"
  by (auto simp: Cron_Start_def Cron_Stop_def entry_table_def split: if_splits)

lemma dcron_step_ok:
  assumes "dcron_step drv hash env nxt sorter d l d'" "table_ok d" "sorts sorter"
  shows "table_ok d'"
proof -
  have inv: "cron_inv (cr d)" using assms(2) by (simp add: table_ok_def)
  from assms(1) show ?thesis
  proof (cases rule: dcron_step.cases)
    case (dc_add t n spec job r)
    then show ?thesis using addJob_ok [OF assms(2) _ assms(3)] by blast
  next
    case (dc_remove n)
    then show ?thesis using Dcron_Remove_ok [OF assms(2) _ assms(3)] by blast
  next
    case (dc_clean ret)
    then show ?thesis using CleanJobs_ok [OF assms(2)] by blast
  next
    case (dc_start order now r)
    then have "Dcron_Start drv hash order now (\<lambda>d. d) d = (r, d')" by simp
    then show ?thesis using Dcron_Start_same same_table_ok assms(2) by blast
  next
    case dc_steady
    then obtain c where "Cron_Start (cr d) = Some c" "dc_jobs d' = dc_jobs d" "dc_jobsRWMut d' = dc_jobsRWMut d" "cr d' = c"
      by (auto simp: Dcron_Start_steady_def split: if_splits)
    with Cron_Start_Stop_table(1) cron_step_inv [OF cron_step.start [OF disjI1] _ assms(3)] inv show ?thesis
      by (intro table_ok_cron [OF assms(2)]) auto
  next
    case (dc_stop_pool r)
    then show ?thesis using set_pool_same same_table_ok assms(2) by (fastforce simp: Dcron_Stop_pool_def)
  next
    case dc_stopped
    then obtain c where "Cron_Stop (cr d) = Some c" "dc_jobs d' = dc_jobs d" "dc_jobsRWMut d' = dc_jobsRWMut d" "cr d' = c"
      by (auto simp: Dcron_Stop_tick_def split: if_splits)
    with Cron_Start_Stop_table(2) cron_step_inv [OF cron_step.stop _ assms(3)] inv show ?thesis
      by (intro table_ok_cron [OF assms(2)]) auto
  next
    case (dc_run t t' job js reruns)
    then show ?thesis using JobWarpper_Run_same same_table_ok assms(2) by blast
  next
    case (dc_rerun jobNames js)
    then show ?thesis using reRun_same same_table_ok assms(2) by blast
  next
    case (dc_panic t t' job p jobNames)
    then show ?thesis using JobWarpper_Run_same reRun_same same_table_ok assms(2) by blast
  next
    case (dc_pool_own l ps)
    then show ?thesis using assms(2) by (simp add: table_ok_def)
  next
    case (dc_cron_own l c)
    with cron_own_table [OF dc_cron_own(3,4) assms(3) inv] cron_step_inv [OF dc_cron_own(3) inv assms(3)] show ?thesis
      by (intro table_ok_cron [OF assms(2)]) simp_all
  qed
qed

lemma dcron_run_ok:
  assumes "dcron_run drv hash env nxt sorter d ls d'" "table_ok d" "sorts sorter"
  shows "table_ok d'"
  using assms by (induction rule: dcron_run.induct) (auto intro: dcron_step_ok)

text \<open>A new node, with any of the options of the package.\<close>

definition package_dcron_opts :: "('s, 'z, 'u) dcron_opt list \<Rightarrow> bool" where
  "package_dcron_opts opts \<longleftrightarrow>
     set opts \<subseteq> range WithNodeUpdateDuration \<union> range WithHashReplicas \<union> {Dcron_WithCapacityLoad, WithRecoverFunc} \<union>
       range CronOptionLocation \<union> range CronOptionParser \<union> range CronOptionChain \<union> range WithClusterStable"

lemma dcron_opt_cron:
  assumes "package_dcron_opts [opt]" "package_opts (crOptions c)"
  shows "package_opts (crOptions (opt c))"
  using assms
  by (auto simp: package_dcron_opts_def package_opts_def WithNodeUpdateDuration_def WithHashReplicas_def
      Dcron_WithCapacityLoad_def WithRecoverFunc_def CronOptionLocation_def CronOptionParser_def CronOptionChain_def
      WithClusterStable_def)

lemma dcron_opts_cron:
  assumes "package_dcron_opts opts" "package_opts (crOptions c)"
  shows "package_opts (crOptions (fold (\<lambda>opt c. opt c) opts c))"
  using assms
proof (induction opts arbitrary: c)
  case (Cons opt opts)
  have "package_dcron_opts [opt]" "package_dcron_opts opts" using Cons.prems(1) by (simp_all add: package_dcron_opts_def)
  with Cons.IH dcron_opt_cron [OF _ Cons.prems(2)] show ?case by simp
qed simp

lemma NewDcronWithOption_ok:
  assumes "package_dcron_opts opts"
  shows "table_ok (NewDcronWithOption drv std n drvst opts)"
proof -
  let ?c = "fold (\<lambda>opt c. opt c) opts (newDcron n)"
  have "package_opts (crOptions ?c)" by (rule dcron_opts_cron [OF assms]) (simp add: newDcron_def package_opts_def)
  from Cron_New_inv [OF this, of std]
  have inv: "cron_inv (new_sys (Cron_New std (crOptions ?c)))" .
  have "entries (Cron_New std (crOptions ?c)) = []"
    using \<open>package_opts (crOptions ?c)\<close> by (rule Cron_New_fields(1))
  with inv show ?thesis
    by (simp add: table_ok_def NewDcronWithOption_def Let_def dcron_conf.defs entry_table_def job_table_def new_sys_def)
qed

lemma table_entries:
  assumes "table_ok d" "\<not> dc_jobsRWMut d"
  shows "distinct (map (Name \<circ> Entry_Job) (entries (cron (cr d))))"
    and "(Name \<circ> Entry_Job) ` set (entries (cron (cr d))) = dom (dc_jobs d)"
    and "e \<in> set (entries (cron (cr d))) \<Longrightarrow> dc_jobs d (Name (Entry_Job e)) = Some ((Entry_Job e)\<lparr>JW_ID := ID e\<rparr>)"
proof -
  let ?es = "entries (cron (cr d))"
  have tab: "(\<lambda>e. (ID e, Entry_Job e)) ` set ?es = job_table (dc_jobs d)"
    and names: "\<And>m w. dc_jobs d m = Some w \<Longrightarrow> Name w = m"
    and ids: "distinct (map ID ?es)"
    using assms by (auto simp: table_ok_def entry_table_def cron_inv_def ids_ok_def)
  have look: "dc_jobs d (Name (Entry_Job e)) = Some ((Entry_Job e)\<lparr>JW_ID := ID e\<rparr>)" if "e \<in> set ?es" for e
  proof -
    have "(ID e, Entry_Job e) \<in> job_table (dc_jobs d)" using tab that by auto
    then obtain m w where "dc_jobs d m = Some w" "ID e = JW_ID w" "Entry_Job e = w\<lparr>JW_ID := 0\<rparr>"
      unfolding job_table_iff by auto
    with names show ?thesis by (cases w) force
  qed
  then show "e \<in> set ?es \<Longrightarrow> dc_jobs d (Name (Entry_Job e)) = Some ((Entry_Job e)\<lparr>JW_ID := ID e\<rparr>)" .
  have "e = f" if "e \<in> set ?es" "f \<in> set ?es" "Name (Entry_Job e) = Name (Entry_Job f)" for e f
  proof -
    have "ID e = ID f" using look [OF that(1)] look [OF that(2)] that(3) by (metis JobWarpper.select_convs(1) JobWarpper.surjective JobWarpper.update_convs(1) option.inject)
    with ids that(1,2) show ?thesis by (simp add: distinct_map inj_on_def)
  qed
  then show "distinct (map (Name \<circ> Entry_Job) ?es)" using ids by (simp add: distinct_map inj_on_def)
  have "m \<in> (Name \<circ> Entry_Job) ` set ?es" if "dc_jobs d m = Some w" for m w
  proof -
    have "(JW_ID w, w\<lparr>JW_ID := 0\<rparr>) \<in> (\<lambda>e. (ID e, Entry_Job e)) ` set ?es" unfolding tab job_table_iff using that by blast
    then obtain e where "e \<in> set ?es" "Entry_Job e = w\<lparr>JW_ID := 0\<rparr>" by auto
    with names [OF that] show ?thesis by (cases w) force
  qed
  with look show "(Name \<circ> Entry_Job) ` set ?es = dom (dc_jobs d)" by force
qed

text \<open>
  (C5) The jobs of a node are exactly the jobs its cron scheduler runs. In every run of a node,
  whatever the interleaving of calls, job runs, membership changes and wake-ups, as long as no
  call of \<^verbatim>\<open>CleanJobs\<close> has blocked: no two entries of the scheduler belong to the same job, the
  names of the entries are the names in the table, and each entry has the id and the function
  that the table has for its name.
\<close>

theorem jobs_are_the_entries:
  assumes "sorts sorter" "package_dcron_opts opts"
    and "dcron_run drv hash env nxt sorter (NewDcronWithOption drv std n drvst opts) ls d" "\<not> dc_jobsRWMut d"
  shows "distinct (map (Name \<circ> Entry_Job) (entries (cron (cr d)))) \<and>
    (Name \<circ> Entry_Job) ` set (entries (cron (cr d))) = dom (dc_jobs d) \<and>
    (\<forall>e \<in> set (entries (cron (cr d))). dc_jobs d (Name (Entry_Job e)) = Some ((Entry_Job e)\<lparr>JW_ID := ID e\<rparr>))"
proof -
  have ok: "table_ok d" by (rule dcron_run_ok [OF assms(3) NewDcronWithOption_ok [OF assms(2)] assms(1)])
  from table_entries [OF ok assms(4)] show ?thesis by blast
qed

text \<open>A node of the example cluster, with any options, and the same node with a job.\<close>

definition demo_dcron :: "(unit schedule, unit, unit) dcron_opt list \<Rightarrow> (unit schedule, unit, unit, string list) Dcron" where
  "demo_dcron opts = NewDcronWithOption (demo_driver ''a'') (\<lambda>_. Inr (ConstantDelay (Every Second_d))) ''svc'' [''a'', ''b''] opts"

definition demo_warpper :: "int \<Rightarrow> unit JobWarpper" where
  "demo_warpper i = \<lparr>JW_ID = i, Name = ''job'', CronStr = ''@every 1s'', Job = Some ()\<rparr>"

lemma demo_addJob:
  "\<exists>d. addJob demo_nxt demo_sorter (at_sec 1) ''job'' ''@every 1s'' (Some ()) (demo_dcron []) = Some (None, d) \<and>
     dc_jobs d ''job'' = Some (demo_warpper 1) \<and> \<not> dc_jobsRWMut d"
  by (simp add: addJob_def demo_dcron_def NewDcronWithOption_def newDcron_def dcron_conf.defs Cron_AddJob_def
      Cron_New_def new_sys_def Cron_Schedule_def Schedule_entry_def Then_def NewChain_def demo_warpper_def Let_def)

theorem jobs_are_the_entries_witness:
  "\<exists>d ls. dcron_run (demo_driver ''a'') demo_hash (\<lambda>_ _. False) demo_nxt demo_sorter (demo_dcron []) ls d \<and>
     dc_jobs d ''job'' = Some (demo_warpper 1) \<and> (Name \<circ> Entry_Job) ` set (entries (cron (cr d))) = dom (dc_jobs d)"
proof -
  obtain d where d: "addJob demo_nxt demo_sorter (at_sec 1) ''job'' ''@every 1s'' (Some ()) (demo_dcron []) = Some (None, d)"
    "dc_jobs d ''job'' = Some (demo_warpper 1)" "\<not> dc_jobsRWMut d" using demo_addJob by blast
  have run: "dcron_run (demo_driver ''a'') demo_hash (\<lambda>_ _. False) demo_nxt demo_sorter (demo_dcron []) ([] @ [DcAdd ''job'' None]) d"
    by (rule dcrun_step [OF dcrun_refl dc_add [OF d(1)]])
  have "package_dcron_opts []" by (simp add: package_dcron_opts_def)
  from jobs_are_the_entries [OF demo_sorter_sorts this run [unfolded demo_dcron_def] d(3)] run d(2) show ?thesis by blast
qed

end
