(* ===== verification/DcronProps.thy ===== *)
theory DcronProps
  imports DcronTable PoolProps PackerProps
begin

text \<open>
  The cluster: which nodes run a job that is due, and what becomes of a job that is due while
  the membership changes.
\<close>

section \<open>One node of the cluster\<close>

lemma allowThisNodeRun_eligible:
  assumes "IsEligible hash n (pool (dc_pool d)) = Some (Inr b, np)"
  shows "\<exists>reruns d'. allowThisNodeRun hash t t' n d = Some (Inr (b, reruns), d')"
  using assms by (auto simp: allowThisNodeRun_def Let_def split: option.splits prod.splits)

text \<open>
  When the pools of the nodes are steady on the same listing, with the same number of replicas
  and without capacity loads, and a job becomes due on all of them, then one node calls the
  function of the job, once, and every other node calls nothing.
\<close>

lemma steady_nodes_run_job_once:
  assumes "\<And>d. d \<in> set ds \<Longrightarrow> \<not> dc_capacityLoad d \<and> pool_inv hash U (pool (dc_pool d)) \<and> steady (pool (dc_pool d)) \<and>
      \<not> capacityLoad (pool (dc_pool d)) \<and> Nodes (pool (dc_pool d)) \<noteq> None \<and>
      hashReplicas (pool (dc_pool d)) = r \<and> set (preNodes (pool (dc_pool d))) = N"
    and "distinct (map Dcron_NodeID ds)" "Dcron_NodeID ` set ds = N" "ds \<noteq> []"
  shows "\<exists>d0 \<in> set ds. \<forall>d \<in> set ds. \<exists>reruns d'.
    JobWarpper_Run hash t t' job d = Some (Inr (if d = d0 then Execute job else [], reruns), d')"
proof -
  let ?pools = "map (\<lambda>d. pool (dc_pool d)) ds"
  have ids: "nodeID ` set ?pools = N" using assms(3) by (simp add: image_image Dcron_NodeID_def GetNodeID_def)
  obtain h where h: "h \<in> N" and
    elig: "\<And>np. np \<in> set ?pools \<Longrightarrow> IsEligible hash (Name job) np = Some (Inr (nodeID np = h), np)"
    by (rule one_owner [OF _ ids, where hash = hash and U = U and r = r and key = "Name job"]) (use assms(1,4) in auto)
  obtain d0 where d0: "d0 \<in> set ds" "Dcron_NodeID d0 = h" using h assms(3) by auto
  have "\<exists>reruns d'. JobWarpper_Run hash t t' job d = Some (Inr (if d = d0 then Execute job else [], reruns), d')"
    if "d \<in> set ds" for d
  proof -
    have "Dcron_NodeID d = h \<longleftrightarrow> d = d0" using assms(2) d0 that by (auto simp: distinct_map inj_on_def)
    then have "IsEligible hash (Name job) (pool (dc_pool d)) = Some (Inr (d = d0), pool (dc_pool d))"
      using elig [of "pool (dc_pool d)"] that by (simp add: Dcron_NodeID_def GetNodeID_def)
    from allowThisNodeRun_eligible [OF this, of t t'] assms(1) [OF that] show ?thesis
      by (auto simp: JobWarpper_Run_def IsLoadCapacityEnabled_def)
  qed
  with d0(1) show ?thesis by blast
qed

lemma dcron_step_capacity:
  assumes "dcron_step drv hash env nxt sorter d l d'"
  shows "dc_capacityLoad d' = dc_capacityLoad d"
  using assms
proof (cases rule: dcron_step.cases)
  case (dc_add t n spec job r)
  then show ?thesis by (auto simp: addJob_def Let_def split: if_splits option.splits sum.splits)
next
  case (dc_remove n)
  then show ?thesis by (auto simp: Dcron_Remove_def split: if_splits option.splits)
next
  case (dc_clean ret)
  then show ?thesis by (auto simp: CleanJobs_def Let_def split: if_splits option.splits bool.splits)
next
  case dc_steady
  then show ?thesis by (auto simp: Dcron_Start_steady_def split: if_splits)
next
  case dc_stopped
  then show ?thesis by (auto simp: Dcron_Stop_tick_def split: if_splits)
next
  case (dc_stop_pool r)
  then show ?thesis by (auto simp: Dcron_Stop_pool_def set_pool_def)
qed (use Dcron_Start_same JobWarpper_Run_same reRun_same in \<open>fastforce simp: same_table_def\<close>)+

lemma dcron_run_capacity:
  assumes "dcron_run drv hash env nxt sorter d ls d'"
  shows "dc_capacityLoad d' = dc_capacityLoad d"
  using assms by (induction rule: dcron_run.induct) (auto dest: dcron_step_capacity)

lemma dcron_opt_capacity:
  assumes "package_dcron_opts [opt]" "dc_capacityLoad c"
  shows "dc_capacityLoad (opt c)"
  using assms
  by (auto simp: package_dcron_opts_def WithNodeUpdateDuration_def WithHashReplicas_def Dcron_WithCapacityLoad_def
      WithRecoverFunc_def CronOptionLocation_def CronOptionParser_def CronOptionChain_def WithClusterStable_def)

lemma dcron_opts_capacity:
  assumes "package_dcron_opts opts" "dc_capacityLoad c \<or> Dcron_WithCapacityLoad \<in> set opts"
  shows "dc_capacityLoad (fold (\<lambda>opt c. opt c) opts c)"
  using assms
proof (induction opts arbitrary: c)
  case (Cons opt opts)
  have "package_dcron_opts [opt]" "package_dcron_opts opts" using Cons.prems(1) by (simp_all add: package_dcron_opts_def)
  moreover have "dc_capacityLoad (Dcron_WithCapacityLoad c)" by (simp add: Dcron_WithCapacityLoad_def)
  ultimately show ?case using Cons.prems(2) Cons.IH dcron_opt_capacity [of opt c] by auto
qed simp

text \<open>
  (C39) With the capacity option the pool is not asked: at every moment of a run of a node that
  was made with it, the node runs every job that becomes due, whatever the other nodes do, so
  that a job runs on all nodes of the cluster.
\<close>

theorem capacity_load_runs_everywhere:
  assumes "package_dcron_opts opts" "Dcron_WithCapacityLoad \<in> set opts"
    and "dcron_run drv hash env nxt sorter (NewDcronWithOption drv std n drvst opts) ls d"
  shows "JobWarpper_Run hash t t' job d = Some (Inr (Execute job, []), d)"
proof -
  have "dc_capacityLoad (NewDcronWithOption drv std n drvst opts)"
    using dcron_opts_capacity [OF assms(1), of "newDcron n"] assms(2)
    by (simp add: NewDcronWithOption_def Let_def dcron_conf.defs)
  with dcron_run_capacity [OF assms(3)] show ?thesis by (simp add: JobWarpper_Run_def IsLoadCapacityEnabled_def)
qed

section \<open>Jobs that are due while the membership changes\<close>



section \<open>Examples\<close>



theorem capacity_load_runs_everywhere_witness:
  "JobWarpper_Run demo_hash (at_sec 1) (at_sec 1) (demo_warpper 0) (demo_dcron [Dcron_WithCapacityLoad]) =
     Some (Inr (Execute (demo_warpper 0), []), demo_dcron [Dcron_WithCapacityLoad])"
proof -
  have "package_dcron_opts [Dcron_WithCapacityLoad]" by (simp add: package_dcron_opts_def)
  from capacity_load_runs_everywhere [OF this _ dcrun_refl] show ?thesis by (simp add: demo_dcron_def)
qed




end
