(* ===== verification/Cluster.thy ===== *)
theory Cluster
  imports DcronProps
begin

text \<open>
  The nodes of a cluster: a run of a node is, as far as its pool is concerned, a run of the
  pool, so that what holds of every run of the pool holds of the pool of every node. The last
  lemma says what is known of a node that was made with any options and has not been stopped.
\<close>

section \<open>A node simulates its pool\<close>

text \<open>The runs of a pool without \<^verbatim>\<open>Stop\<close>, from one state to another.\<close>

definition pool_reach :: "'d DriverV2 \<Rightarrow> hashfun \<Rightarrow> ('d \<Rightarrow> 'd \<Rightarrow> bool) \<Rightarrow> 'd pool_sys \<Rightarrow> 'd pool_sys \<Rightarrow> bool" where
  "pool_reach drv hash env s s' \<longleftrightarrow> (\<exists>ls. pool_run drv hash env s ls s' \<and> CallStop \<notin> set ls)"

lemma pool_run_trans:
  assumes "pool_run drv hash env s' ms s''" "pool_run drv hash env s ls s'"
  shows "pool_run drv hash env s (ls @ ms) s''"
  using assms
proof (induction rule: pool_run.induct)
  case (run_step s' ms t l u)
  then show ?case using pool_run.run_step [of drv hash env s "ls @ ms" t l u] by simp
qed simp

lemma pool_reach_refl [simp]: "pool_reach drv hash env s s"
  unfolding pool_reach_def using run_refl by (metis empty_iff list.set(1))

lemma pool_reach_step: "pool_step drv hash env s l s' \<Longrightarrow> l \<noteq> CallStop \<Longrightarrow> pool_reach drv hash env s s'"
  unfolding pool_reach_def using run_step [OF run_refl, of drv hash env s l s'] by force

lemma pool_reach_trans:
  "pool_reach drv hash env s s' \<Longrightarrow> pool_reach drv hash env s' s'' \<Longrightarrow> pool_reach drv hash env s s''"
  unfolding pool_reach_def using pool_run_trans by (metis UnE set_append)

lemma pool_reach_eligible:
  assumes "IsEligible hash n (pool s) = Some (r, np)"
  shows "pool_reach drv hash env s (s\<lparr>pool := np\<rparr>)"
proof (cases r)
  case (Inl e)
  with assms show ?thesis by (intro pool_reach_step [OF pool_step.eligible_error]) auto
next
  case (Inr b)
  with assms show ?thesis by (intro pool_reach_step [OF pool_step.eligible]) auto
qed

lemma allowThisNodeRun_pool:
  assumes "allowThisNodeRun hash t t' n d = Some (r, d')"
  shows "\<exists>x np. IsEligible hash n (pool (dc_pool d)) = Some (x, np) \<and> dc_pool d' = (dc_pool d)\<lparr>pool := np\<rparr>"
  using assms
  by (auto simp: allowThisNodeRun_def set_pool_def Let_def
      split: option.splits sum.splits prod.splits go_error.splits if_splits)

lemma JobWarpper_Run_pool:
  assumes "JobWarpper_Run hash t t' job d = Some (r, d')"
  shows "pool_reach drv hash env (dc_pool d) (dc_pool d')"
proof -
  from assms have "d' = d \<or> (\<exists>x. allowThisNodeRun hash t t' (Name job) d = Some (x, d'))"
    by (auto simp: JobWarpper_Run_def split: option.splits sum.splits prod.splits if_splits)
  then show ?thesis using allowThisNodeRun_pool pool_reach_eligible by fastforce
qed

lemma reRun_pool:
  "reRunRecentJobs hash ns d = Some (r, d') \<Longrightarrow> pool_reach drv hash env (dc_pool d) (dc_pool d')"
proof (induction ns arbitrary: d r d')
  case (Cons n ns)
  show ?case
  proof (cases "dc_jobs d n")
    case None
    with Cons show ?thesis by simp
  next
    case (Some job)
    with Cons.prems obtain x np where el: "IsEligible hash n (pool (dc_pool d)) = Some (x, np)"
      by (auto split: option.splits)
    have first: "pool_reach drv hash env (dc_pool d) (dc_pool (set_pool np d))"
      using pool_reach_eligible [OF el] by (simp add: set_pool_def)
    from Cons.prems Some el have "d' = set_pool np d \<or> (\<exists>r'. reRunRecentJobs hash ns (set_pool np d) = Some (r', d'))"
      by (auto split: option.splits sum.splits go_error.splits)
    with first Cons.IH pool_reach_trans show ?thesis by blast
  qed
qed simp

lemma Dcron_Start_pool:
  assumes "Dcron_Start drv hash order now (\<lambda>d. d) d = (r, d')" "ranges order"
  shows "pool_reach drv hash env (dc_pool d) (dc_pool d')"
proof -
  obtain e np where e: "Start_init drv hash order now (pool (dc_pool d)) = (e, np)" by fastforce
  show ?thesis
  proof (cases e)
    case None
    with e have "pool_reach drv hash env (dc_pool d)
        \<lparr>pool = np, loops = loops (dc_pool d) + 1, waiting = waiting (dc_pool d) + 1\<rparr>"
      by (intro pool_reach_step [OF pool_step.start [OF assms(2)]]) auto
    with assms(1) e None show ?thesis by (auto simp: Dcron_Start_def startNodePool_def Let_def split: if_splits)
  next
    case (Some err)
    with e have "pool_reach drv hash env (dc_pool d) ((dc_pool d)\<lparr>pool := np\<rparr>)"
      by (intro pool_reach_step [OF pool_step.start_error [OF assms(2)]]) auto
    with assms(1) e Some show ?thesis
      by (auto simp: Dcron_Start_def startNodePool_def set_pool_def Let_def split: if_splits)
  qed
qed

lemma dcron_step_pool:
  assumes "dcron_step drv hash env nxt sorter d l d'" "\<And>r. l \<noteq> DcStopPool r"
  shows "pool_reach drv hash env (dc_pool d) (dc_pool d')"
  using assms(1)
proof (cases rule: dcron_step.cases)
  case (dc_add t n spec job r)
  then have "dc_pool d' = dc_pool d" by (auto simp: addJob_def Let_def split: if_splits option.splits sum.splits)
  then show ?thesis by simp
next
  case (dc_remove n)
  then have "dc_pool d' = dc_pool d" by (auto simp: Dcron_Remove_def split: if_splits option.splits)
  then show ?thesis by simp
next
  case (dc_clean ret)
  then have "dc_pool d' = dc_pool d" by (auto simp: CleanJobs_def Let_def split: if_splits option.splits bool.splits)
  then show ?thesis by simp
next
  case (dc_start order now r)
  then have "Dcron_Start drv hash order now (\<lambda>d. d) d = (r, d')" by simp
  from Dcron_Start_pool [OF this] dc_start(2) show ?thesis by simp
next
  case dc_steady
  then have "waiting (dc_pool d) > 0" "GetState (pool (dc_pool d)) = Inr NodePoolStateSteady"
    "dc_pool d' = (dc_pool d)\<lparr>waiting := waiting (dc_pool d) - 1\<rparr>"
    by (auto simp: Dcron_Start_steady_def split: if_splits)
  then show ?thesis using pool_reach_step [OF pool_step.start_returns, of "dc_pool d"] by simp
next
  case (dc_stop_pool r)
  then show ?thesis using assms(2) by simp
next
  case dc_stopped
  then have "dc_pool d' = dc_pool d" by (auto simp: Dcron_Stop_tick_def split: if_splits)
  then show ?thesis by simp
next
  case (dc_pool_own l' ps)
  then have "l' \<noteq> CallStop" by (auto simp: pool_own_def)
  with dc_pool_own show ?thesis by (simp add: pool_reach_step)
qed (use JobWarpper_Run_pool reRun_pool in \<open>auto\<close>)

lemma dcron_run_pool:
  assumes "dcron_run drv hash env nxt sorter d ls d'" "\<And>r. DcStopPool r \<notin> set ls"
  shows "pool_reach drv hash env (dc_pool d) (dc_pool d')"
  using assms
proof (induction rule: dcron_run.induct)
  case (dcrun_step d ls d' l d'')
  then have "pool_reach drv hash env (dc_pool d) (dc_pool d')" "\<And>r. l \<noteq> DcStopPool r" by auto
  with dcron_step_pool [OF dcrun_step(2)] pool_reach_trans show ?case by blast
qed simp

section \<open>What a run of the pool keeps\<close>

text \<open>The options of the pool are kept, and a steady pool has a ring.\<close>

definition pool_frame :: "'d NodePool \<Rightarrow> 'd NodePool \<Rightarrow> bool" where
  "pool_frame np np' \<longleftrightarrow> hashReplicas np' = hashReplicas np \<and> capacityLoad np' = capacityLoad np \<and>
     ((steady np \<longrightarrow> Nodes np \<noteq> None) \<longrightarrow> (steady np' \<longrightarrow> Nodes np' \<noteq> None))"

lemma pool_frame_refl [simp]: "pool_frame np np"
  by (simp add: pool_frame_def)

lemma pool_frame_update:
  "pool_frame np (updateHashRing hash order now nodes (np\<lparr>nodeID := i, Driver := d, state := st\<rparr>))"
  "pool_frame np (updateHashRing hash order now nodes (np\<lparr>Driver := d\<rparr>))"
  by (simp_all add: pool_frame_def pool_simps)

lemma GetHost_frame: "GetHost hash key np = Some (r, np') \<Longrightarrow> pool_frame np np' \<and> state np' = state np"
  by (erule GetHost_cases) (auto simp: pool_frame_def)

lemma IsEligible_frame:
  assumes "IsEligible hash key np = Some (r, np')"
  shows "pool_frame np np'"
  using assms GetHost_frame [of hash key np]
  by (auto simp: IsEligible_def pool_frame_def split: option.splits prod.splits sum.splits if_splits)

lemma pool_step_frame:
  assumes "pool_step drv hash env s l s'"
  shows "pool_frame (pool s) (pool s')"
  using assms
proof (cases rule: pool_step.cases)
  case (start order now np)
  then show ?thesis by (auto simp: Start_init_def pool_frame_update Let_def split: prod.splits sum.splits option.splits)
next
  case (start_error order now e np)
  then show ?thesis by (auto simp: Start_init_def pool_frame_def Let_def split: prod.splits sum.splits option.splits)
next
  case (tick order now)
  then show ?thesis
    by (auto simp: waitingForHashRing_tick_def pool_frame_update split: prod.splits sum.splits) (simp add: pool_frame_def)
next
  case (stop r np)
  then show ?thesis
    by (auto simp: NodePool_Stop_def pool_frame_def Let_def split: prod.splits option.splits go_error.splits if_splits)
next
  case (decrease key r np)
  then show ?thesis using GetHost_frame [of hash key "pool s"]
    by (auto simp: DecreaseLoadByKey_def pool_frame_def split: option.splits prod.splits sum.splits if_splits)
next
  case (reset r np)
  then show ?thesis by (auto simp: ResetLoads_def pool_frame_def split: option.splits)
next
  case (eligible key b np)
  then show ?thesis using IsEligible_frame by auto
next
  case (eligible_error key e np)
  then show ?thesis using IsEligible_frame by auto
qed (simp_all add: pool_frame_def)

lemma pool_run_frame:
  assumes "pool_run drv hash env s ls s'"
  shows "pool_frame (pool s) (pool s')"
  using assms
proof (induction rule: pool_run.induct)
  case (run_step s ls s' l s'')
  with pool_step_frame [OF run_step(2)] show ?case by (auto simp: pool_frame_def)
qed simp

section \<open>A node of a cluster\<close>

lemma GetState_steady: "GetState np = Inr NodePoolStateSteady \<longleftrightarrow> steady np"
  by (simp add: GetState_def split: option.splits)

text \<open>
  A node that was made without capacity loads and with \<open>r\<close> replicas, whose driver lists nodes
  of the universe \<open>U\<close>, each at most once, and that has run in any way without being stopped.
\<close>

definition node_of :: "hashfun \<Rightarrow> string set \<Rightarrow> int \<Rightarrow> ('s, 'z, 'u, 'd) Dcron \<Rightarrow> bool" where
  "node_of hash U r d \<longleftrightarrow>
     (\<exists>drv std name dst opts env nxt sorter ls.
        dcron_run drv hash env nxt sorter (NewDcronWithOption drv std name dst opts) ls d \<and>
        (\<forall>e. DcStopPool e \<notin> set ls) \<and> lists_nodes drv U \<and>
        \<not> dc_capacityLoad (NewDcronWithOption drv std name dst opts) \<and>
        dc_hashReplicas (NewDcronWithOption drv std name dst opts) = r)"

lemma NewDcronWithOption_pool:
  fixes drv :: "'d DriverV2" and opts :: "('s, 'z, 'u) dcron_opt list"
  assumes "d = NewDcronWithOption drv std n dst opts" "\<not> dc_capacityLoad d"
  shows "preNodes (pool (dc_pool d)) = []" "Nodes (pool (dc_pool d)) = None" "state (pool (dc_pool d)) = None"
    "\<not> capacityLoad (pool (dc_pool d))" "hashReplicas (pool (dc_pool d)) = dc_hashReplicas d"
  using assms by (simp_all add: NewDcronWithOption_def new_pool_def NewNodePool_def Let_def dcron_conf.defs)

lemma node_of_pool:
  assumes "node_of hash U r d" "collision_free hash replicationFactor U" "0 < r" "r \<le> int replicationFactor"
  shows "pool_inv hash U (pool (dc_pool d))" "\<not> capacityLoad (pool (dc_pool d))" "\<not> dc_capacityLoad d"
    "hashReplicas (pool (dc_pool d)) = r" "steady (pool (dc_pool d)) \<Longrightarrow> Nodes (pool (dc_pool d)) \<noteq> None"
proof -
  from assms(1) obtain drv std name dst opts env nxt sorter ls d0 where
    d0: "d0 = NewDcronWithOption drv std name dst opts" and
    run: "dcron_run drv hash env nxt sorter d0 ls d" "\<And>e. DcStopPool e \<notin> set ls" and
    lists: "lists_nodes drv U" and cap: "\<not> dc_capacityLoad d0" and r: "dc_hashReplicas d0 = r"
    unfolding node_of_def by metis
  note new = NewDcronWithOption_pool [OF d0 cap]
  let ?new = "pool (dc_pool d0)" and ?p = "pool (dc_pool d)"
  have inv0: "pool_inv hash U ?new"
    using fresh_ring_invar [of ?new hash U] assms(2-4) new r
    by (simp add: pool_inv_def pool_ring_ok_def ring_of_def)
  from dcron_run_pool [OF run] obtain pls where
    prun: "pool_run drv hash env (dc_pool d0) pls (dc_pool d)" "CallStop \<notin> set pls"
    unfolding pool_reach_def by blast
  show "pool_inv hash U ?p" by (rule pool_run_inv [OF prun lists inv0])
  from pool_run_frame [OF prun(1)] new r
  show "\<not> capacityLoad ?p" "hashReplicas ?p = r" "steady ?p \<Longrightarrow> Nodes ?p \<noteq> None"
    by (auto simp: pool_frame_def)
  show "\<not> dc_capacityLoad d" using dcron_run_capacity [OF run(1)] cap by simp
qed

section \<open>An example\<close>

text \<open>A node that lists two nodes, itself included, is started and takes the listing twice.\<close>

lemma demo_starts:
  fixes d0 :: "(unit schedule, unit, unit, string list) Dcron"
  assumes "dcron_run (demo_driver_ab me) demo_hash (\<lambda>_ _. False) demo_nxt demo_sorter d ls d0"
    and "dc_running d0 = dcronStopped" "\<not> RecoverFunc d0"
  obtains d2 where
    "dcron_run (demo_driver_ab me) demo_hash (\<lambda>_ _. False) demo_nxt demo_sorter d ((ls @ [DcStart PoolStarting]) @ [DcPool Tick]) d2"
    "steady (pool (dc_pool d2))" "set (preNodes (pool (dc_pool d2))) = {''a'', ''b''}" "Dcron_NodeID d2 = me"
    "same_table d0 d2" "waiting (dc_pool d2) > 0"
proof -
  let ?drv = "demo_driver_ab me" and ?ns = "[''b'', ''a'']" and ?env = "\<lambda>_ _ :: string list. False"
  define p1 where "p1 = updateHashRing demo_hash key_order 7 ?ns
    ((pool (dc_pool d0))\<lparr>nodeID := me, Driver := Driver (pool (dc_pool d0)), state := Some NodePoolStateUpgrade\<rparr>)"
  define d1 where "d1 = d0\<lparr>dc_running := dcronRunning,
    dc_pool := \<lparr>pool = p1, loops = loops (dc_pool d0) + 1, waiting = waiting (dc_pool d0) + 1\<rparr>\<rparr>"
  define p2 where "p2 = waitingForHashRing_tick ?drv demo_hash key_order 7 p1"
  define d2 where "d2 = d1\<lparr>dc_pool := (dc_pool d1)\<lparr>pool := p2\<rparr>\<rparr>"
  have start: "Dcron_Start ?drv demo_hash key_order 7 (\<lambda>d. d) d0 = (PoolStarting, d1)"
    using assms(2,3) by (simp add: Dcron_Start_def startNodePool_def Start_init_def demo_driver_ab_def demo_driver_def d1_def p1_def Let_def)
  have tick: "pool_step ?drv demo_hash ?env (dc_pool d1) Tick ((dc_pool d1)\<lparr>pool := p2\<rparr>)"
    using pool_step.tick [OF _ ranges_key_order, of "dc_pool d1" ?drv demo_hash ?env 7] by (simp add: d1_def p2_def)
  have run: "dcron_run ?drv demo_hash ?env demo_nxt demo_sorter d ((ls @ [DcStart PoolStarting]) @ [DcPool Tick]) d2"
    unfolding d2_def using start tick ranges_key_order
    by (intro dcrun_step [OF dcrun_step [OF assms(1) dc_start] dc_pool_own]) (auto simp: pool_own_def)
  have p2_alt: "p2 = updateHashRing demo_hash key_order 7 ?ns (p1\<lparr>Driver := Driver p1\<rparr>)"
    by (simp add: p2_def waitingForHashRing_tick_def demo_driver_ab_def)
  have "mset (preNodes p1) = mset ?ns" by (rule updateHashRing_state(2) [OF ranges_key_order p1_def])
  then have st: "steady p2" and "mset (preNodes p2) = mset ?ns"
    using updateHashRing_state [OF ranges_key_order p2_alt] by simp_all
  then have pre: "set (preNodes p2) = {''a'', ''b''}" by (metis mset_eq_setD insert_commute list.set)
  have "nodeID p2 = me" by (simp add: p2_alt p1_def pool_simps)
  with run st pre show thesis
    by (intro that [of d2]) (simp_all add: d2_def d1_def Dcron_NodeID_def GetNodeID_def same_table_def)
qed

lemma demo_node:
  "\<exists>d :: (unit schedule, unit, unit, string list) Dcron. node_of demo_hash {''a'', ''b''} 50 d \<and>
     steady (pool (dc_pool d)) \<and> set (preNodes (pool (dc_pool d))) = {''a'', ''b''} \<and> Dcron_NodeID d = me"
proof -
  define d0 :: "(unit schedule, unit, unit, string list) Dcron" where
    "d0 = NewDcronWithOption (demo_driver_ab me) (\<lambda>_. Inr (ConstantDelay (Every Second_d))) ''svc'' [] []"
  have new: "dc_running d0 = dcronStopped" "\<not> RecoverFunc d0" "\<not> dc_capacityLoad d0" "dc_hashReplicas d0 = 50"
    by (simp_all add: d0_def NewDcronWithOption_def newDcron_def Let_def dcron_conf.defs defaultReplicas_def)
  obtain d2 where d2:
    "dcron_run (demo_driver_ab me) demo_hash (\<lambda>_ _. False) demo_nxt demo_sorter d0 (([] @ [DcStart PoolStarting]) @ [DcPool Tick]) d2"
    "steady (pool (dc_pool d2))" "set (preNodes (pool (dc_pool d2))) = {''a'', ''b''}" "Dcron_NodeID d2 = me"
    by (rule demo_starts [OF dcrun_refl new(1,2)])
  from d2(1) have "node_of demo_hash {''a'', ''b''} 50 d2"
    unfolding node_of_def using new d0_def
    by (intro exI conjI) (auto simp: lists_nodes_def demo_driver_ab_def)
  with d2 show ?thesis by blast
qed

end
