(* ===== verification/Activation.thy ===== *)
theory Activation
  imports Cluster
begin

text \<open>
  From the entry that is due to the call of the function: the goroutines a wake-up of the
  scheduler of a node starts, and what they do when no wrapper is around the jobs. The property
  of the cluster that follows is in the root theory.
\<close>

section \<open>Jobs that are not wrapped\<close>

definition unwrapped :: "('s, 'z, 'j) Cron \<Rightarrow> bool" where
  "unwrapped c \<longleftrightarrow> wrappers (chain c) = [] \<and> (\<forall>e \<in> set (entries c). WrappedJob e = FuncJob (Entry_Job e))"

lemma unwrapped_sub:
  assumes "unwrapped c" "chain c' = chain c"
    and "\<And>e. e \<in> set (entries c') \<Longrightarrow> \<exists>f \<in> set (entries c). WrappedJob e = WrappedJob f \<and> Entry_Job e = Entry_Job f"
  shows "unwrapped c'"
  unfolding unwrapped_def
proof (intro conjI ballI)
  show "wrappers (chain c') = []" using assms(1,2) by (simp add: unwrapped_def)
  fix e assume "e \<in> set (entries c')"
  then show "WrappedJob e = FuncJob (Entry_Job e)" using assms(1,3) unfolding unwrapped_def by metis
qed

lemma enter_select_unwrapped:
  assumes "sorts sorter" "unwrapped c"
  shows "unwrapped (cron (enter_select sorter c s))"
proof -
  obtain tm c' where top: "loop_top sorter c = (tm, c')" by fastforce
  note spec = loop_top_spec [OF assms(1) top]
  have "set (entries c') = set (entries c)" using spec(3) by (rule mset_eq_setD)
  moreover have "chain c' = chain c" by (simp add: spec(1))
  moreover have "cron (enter_select sorter c s) = c'" by (simp add: enter_select_def top)
  ultimately show ?thesis using assms(2) by (simp add: unwrapped_def)
qed

lemma Schedule_entry_unwrapped:
  assumes "unwrapped c" "Schedule_entry sch cmd c = (e, c')" "WrappedJob e' = WrappedJob e" "Entry_Job e' = Entry_Job e"
  shows "unwrapped (c'\<lparr>entries := entries c' @ [e']\<rparr>)"
  using assms by (auto simp: unwrapped_def Schedule_entry_def Then_def Let_def)

lemma Cron_Schedule_unwrapped:
  assumes "sorts sorter" "unwrapped (cron s)" "Cron_Schedule nxt sorter t sch cmd s = Some (eid, s')"
  shows "unwrapped (cron s')"
proof -
  obtain e c where e: "Schedule_entry sch cmd (cron s) = (e, c)" by fastforce
  note new = Schedule_entry_unwrapped [OF assms(2) e]
  have "unwrapped (on_add nxt t e c)" unfolding on_add_def by (rule new) simp_all
  from enter_select_unwrapped [OF assms(1) this, of s] new [of e] assms(3) show ?thesis
    by (auto simp: Cron_Schedule_def e split: if_splits)
qed

lemma Cron_Remove_unwrapped:
  assumes "sorts sorter" "unwrapped (cron s)" "Cron_Remove sorter eid s = Some s'"
  shows "unwrapped (cron s')"
proof -
  have "unwrapped (removeEntry eid (cron s))"
    using assms(2) by (auto simp: unwrapped_def removeEntry_def)
  with enter_select_unwrapped [OF assms(1)] assms(3) show ?thesis
    by (auto simp: Cron_Remove_def on_remove_def split: if_splits)
qed

lemma cron_own_unwrapped:
  assumes "cron_step nxt sorter s l s'" "cron_own l" "sorts sorter" "cron_inv s" "unwrapped (cron s)"
  shows "unwrapped (cron s')"
  using assms(1)
proof (cases rule: cron_step.cases)
  case (loop_init t)
  have "unwrapped (run_init nxt (now_in (cron s) t) (cron s))"
    by (rule unwrapped_sub [OF assms(5)]) (auto simp: run_init_def)
  then show ?thesis unfolding loop_init(2) by (rule enter_select_unwrapped [OF assms(3)])
next
  case (loop_wake tm t due c)
  have "in_order (entries (cron s))" using assms(4) loop_wake(3) by (simp add: cron_inv_def)
  from wake_spec(2) [OF this loop_wake(5)] have "unwrapped c"
    by (intro unwrapped_sub [OF assms(5)]) (auto simp: fired_def)
  then show ?thesis unfolding loop_wake(2) by (rule enter_select_unwrapped [OF assms(3)])
qed (use assms(2,5) in \<open>auto simp: cron_own_def unwrapped_def\<close>)

lemma dcron_step_unwrapped:
  assumes "dcron_step drv hash env nxt sorter d l d'" "sorts sorter" "table_ok d" "unwrapped (cron (cr d))"
  shows "unwrapped (cron (cr d'))"
  using assms(1)
proof (cases rule: dcron_step.cases)
  case (dc_add t n spec job r)
  then show ?thesis using assms(4) Cron_Schedule_unwrapped [OF assms(2,4)]
    by (auto simp: addJob_def Cron_AddJob_def Let_def split: if_splits option.splits sum.splits prod.splits)
next
  case (dc_remove n)
  then show ?thesis using assms(4) Cron_Remove_unwrapped [OF assms(2,4)]
    by (auto simp: Dcron_Remove_def split: if_splits option.splits)
next
  case (dc_clean ret)
  then show ?thesis using assms(4)
    by (auto simp: CleanJobs_def ResetEntries_def unwrapped_def Let_def split: if_splits option.splits bool.splits)
next
  case (dc_start order now r)
  then have "Dcron_Start drv hash order now (\<lambda>d. d) d = (r, d')" by simp
  then show ?thesis using Dcron_Start_same assms(4) by (fastforce simp: same_table_def)
next
  case dc_steady
  then show ?thesis using assms(4)
    by (auto simp: Dcron_Start_steady_def Cron_Start_def unwrapped_def split: if_splits)
next
  case (dc_stop_pool r)
  then show ?thesis using assms(4) by (auto simp: Dcron_Stop_pool_def set_pool_def)
next
  case dc_stopped
  then show ?thesis using assms(4)
    by (auto simp: Dcron_Stop_tick_def Cron_Stop_def unwrapped_def split: if_splits)
next
  case (dc_cron_own l' c)
  have "cron_inv (cr d)" using assms(3) by (simp add: table_ok_def)
  from cron_own_unwrapped [OF dc_cron_own(3,4) assms(2) this assms(4)] dc_cron_own show ?thesis by simp
qed (use JobWarpper_Run_same reRun_same assms(4) in \<open>fastforce simp: same_table_def\<close>)+

lemma dcron_run_unwrapped:
  assumes "dcron_run drv hash env nxt sorter d ls d'" "sorts sorter" "table_ok d" "unwrapped (cron (cr d))"
  shows "unwrapped (cron (cr d'))"
  using assms
proof (induction rule: dcron_run.induct)
  case (dcrun_step d ls d' l d'')
  then show ?case using dcron_step_unwrapped [OF dcrun_step(2)] dcron_run_ok [OF dcrun_step(1)] by blast
qed simp

section \<open>The goroutines of a wake-up\<close>

text \<open>A node on which the pool knows the owner \<open>own m\<close> of every name \<open>m\<close>.\<close>

definition answers :: "hashfun \<Rightarrow> (string \<Rightarrow> string) \<Rightarrow> ('s, 'z, 'u, 'd) Dcron \<Rightarrow> bool" where
  "answers hash own d \<longleftrightarrow> \<not> dc_capacityLoad d \<and>
     (\<forall>m. IsEligible hash m (pool (dc_pool d)) = Some (Inr (Dcron_NodeID d = own m), pool (dc_pool d)))"

lemma answers_cong:
  "dc_pool d' = dc_pool d \<Longrightarrow> dc_capacityLoad d' = dc_capacityLoad d \<Longrightarrow> answers hash own d' = answers hash own d"
  by (simp add: answers_def Dcron_NodeID_def)

lemma JobWarpper_Run_answers:
  assumes "answers hash own d"
  shows "\<exists>reruns d'. JobWarpper_Run hash t t' job d =
      Some (Inr (if Dcron_NodeID d = own (Name job) then Execute job else [], reruns), d') \<and>
    answers hash own d' \<and> Dcron_NodeID d' = Dcron_NodeID d"
proof -
  let ?b = "Dcron_NodeID d = own (Name job)"
  have el: "IsEligible hash (Name job) (pool (dc_pool d)) = Some (Inr ?b, pool (dc_pool d))"
    and nocap: "\<not> dc_capacityLoad d" using assms by (simp_all add: answers_def)
  obtain reruns d' where allow: "allowThisNodeRun hash t t' (Name job) d = Some (Inr (?b, reruns), d')"
    using allowThisNodeRun_eligible [OF el] by blast
  have "dc_pool d' = dc_pool d" using allowThisNodeRun_pool [OF allow] el by auto
  moreover have "dc_capacityLoad d' = dc_capacityLoad d"
    using allowThisNodeRun_same [OF allow] by (simp add: same_table_def)
  ultimately have "answers hash own d'" "Dcron_NodeID d' = Dcron_NodeID d"
    using assms answers_cong by (auto simp: Dcron_NodeID_def)
  with allow nocap show ?thesis by (simp add: JobWarpper_Run_def IsLoadCapacityEnabled_def)
qed

lemma run_started_answers:
  assumes "answers hash own d"
  shows "\<exists>d'. run_started hash t t' js d =
    Some (Inr (map (\<lambda>job. (Name job, if Dcron_NodeID d = own (Name job) then Execute job else [])) js), d')"
  using assms
proof (induction js arbitrary: d)
  case (Cons job js)
  from JobWarpper_Run_answers [OF Cons.prems, of "t (Name job)" "t' (Name job)" job] obtain reruns d' where
    first: "JobWarpper_Run hash (t (Name job)) (t' (Name job)) job d =
      Some (Inr (if Dcron_NodeID d = own (Name job) then Execute job else [], reruns), d')"
    and d': "answers hash own d'" "Dcron_NodeID d' = Dcron_NodeID d" by blast
  from Cons.IH [OF d'(1)] d'(2) first show ?case by auto
qed simp

text \<open>Of the jobs that a wake-up starts exactly one has the name of an entry that is due.\<close>

lemma started_once:
  assumes "table_ok d" "\<not> dc_jobsRWMut d" "loop (cr d) = Select tm" "wake nxt t (cron (cr d)) = (due, c)"
    and "mset started = mset (map Entry_Job due)"
    and "e \<in> set (entries (cron (cr d)))" "due_at (now_in (cron (cr d)) t) e"
  shows "filter (\<lambda>job. Name job = Name (Entry_Job e)) started = [Entry_Job e]"
proof -
  let ?es = "entries (cron (cr d))" and ?n = "Name (Entry_Job e)"
  have "in_order ?es" using assms(1,3) by (simp add: table_ok_def cron_inv_def)
  from wake_spec(1) [OF this assms(4)] have due: "due = filter (due_at (now_in (cron (cr d)) t)) ?es" .
  have dist: "distinct (map (Name \<circ> Entry_Job) ?es)" by (rule table_entries(1) [OF assms(1,2)])
  then have one: "f = e" if "f \<in> set ?es" "Name (Entry_Job f) = ?n" for f
    using that assms(6) by (auto simp: distinct_map inj_on_def)
  have "distinct due" "e \<in> set due" "\<And>f. f \<in> set due \<Longrightarrow> f \<in> set ?es"
    using dist assms(6,7) by (auto simp: due distinct_map)
  then have "distinct (filter (\<lambda>f. Name (Entry_Job f) = ?n) due)" "set (filter (\<lambda>f. Name (Entry_Job f) = ?n) due) = {e}"
    using one by auto
  then have "filter (\<lambda>f. Name (Entry_Job f) = ?n) due = [e]" by (rule distinct_singleton)
  moreover have "mset (filter (\<lambda>job. Name job = ?n) started) = mset (map Entry_Job (filter (\<lambda>f. Name (Entry_Job f) = ?n) due))"
    unfolding mset_filter assms(5) by (simp only: mset_filter [symmetric] filter_map comp_def)
  ultimately have "mset (filter (\<lambda>job. Name job = ?n) started) = {#Entry_Job e#}" by simp
  then show ?thesis by (simp only: mset_single_iff)
qed

section \<open>Nodes with jobs\<close>

text \<open>
  A node of a cluster, made with options of the package and no wrappers around the jobs, that
  has run in any way without being stopped.
\<close>

definition job_node :: "hashfun \<Rightarrow> string set \<Rightarrow> int \<Rightarrow> ('s, 'z, 'u, 'd) Dcron \<Rightarrow> bool" where
  "job_node hash U r d \<longleftrightarrow>
     (\<exists>drv std name dst opts env nxt sorter ls.
        dcron_run drv hash env nxt sorter (NewDcronWithOption drv std name dst opts) ls d \<and>
        (\<forall>e. DcStopPool e \<notin> set ls) \<and> lists_nodes drv U \<and> sorts sorter \<and> package_dcron_opts opts \<and>
        wrappers (chain (cron (cr (NewDcronWithOption drv std name dst opts)))) = [] \<and>
        \<not> dc_capacityLoad (NewDcronWithOption drv std name dst opts) \<and>
        dc_hashReplicas (NewDcronWithOption drv std name dst opts) = r)"

lemma NewDcronWithOption_entries:
  assumes "package_dcron_opts opts"
  shows "entries (cron (cr (NewDcronWithOption drv std n dst opts))) = []"
proof -
  have "table_ok (NewDcronWithOption drv std n dst opts)" by (rule NewDcronWithOption_ok [OF assms])
  moreover have "\<not> dc_jobsRWMut (NewDcronWithOption drv std n dst opts)"
    "dc_jobs (NewDcronWithOption drv std n dst opts) = Map.empty"
    by (simp_all add: NewDcronWithOption_def Let_def dcron_conf.defs)
  ultimately show ?thesis using table_entries(2) by force
qed

lemma job_node_facts:
  assumes "job_node hash U r d"
  shows "node_of hash U r d" "table_ok d" "unwrapped (cron (cr d))"
proof -
  from assms obtain drv std name dst opts env nxt sorter ls d0 where
    d0: "d0 = NewDcronWithOption drv std name dst opts" and
    run: "dcron_run drv hash env nxt sorter d0 ls d" and opts: "sorts sorter" "package_dcron_opts opts" and
    bare: "wrappers (chain (cron (cr d0))) = []" and
    node: "\<forall>e. DcStopPool e \<notin> set ls" "lists_nodes drv U" "\<not> dc_capacityLoad d0" "dc_hashReplicas d0 = r"
    unfolding job_node_def by metis
  show "node_of hash U r d" unfolding node_of_def using run node d0 by blast
  have ok: "table_ok d0" unfolding d0 by (rule NewDcronWithOption_ok [OF opts(2)])
  show "table_ok d" by (rule dcron_run_ok [OF run ok opts(1)])
  have "unwrapped (cron (cr d0))" using bare NewDcronWithOption_entries [OF opts(2), of drv std name dst] by (simp add: unwrapped_def d0)
  then show "unwrapped (cron (cr d))" by (rule dcron_run_unwrapped [OF run opts(1) ok])
qed

text \<open>Steady nodes that agree on the listing agree on the owner of every name, and it is one of them.\<close>

lemma cluster_answers:
  assumes "\<And>d. d \<in> set ds \<Longrightarrow> node_of hash U r d \<and> GetState (pool (dc_pool d)) = Inr NodePoolStateSteady \<and>
      set (preNodes (pool (dc_pool d))) = N"
    and "collision_free hash replicationFactor U" "0 < r" "r \<le> int replicationFactor"
    and "Dcron_NodeID ` set ds = N" "ds \<noteq> []"
  obtains own where "\<And>m. own m \<in> N" "\<And>d. d \<in> set ds \<Longrightarrow> answers hash own d"
proof -
  let ?pools = "map (\<lambda>d. pool (dc_pool d)) ds"
  have ids: "nodeID ` set ?pools = N" using assms(5) by (simp add: image_image Dcron_NodeID_def GetNodeID_def)
  have good: "pool_inv hash U np \<and> steady np \<and> \<not> capacityLoad np \<and> Nodes np \<noteq> None \<and> hashReplicas np = r \<and>
      set (preNodes np) = N" if "np \<in> set ?pools" for np
  proof -
    from that obtain d where d: "d \<in> set ds" "np = pool (dc_pool d)" by auto
    with assms(1) have "steady np" "set (preNodes np) = N" and node: "node_of hash U r d" by (simp_all add: GetState_steady)
    with node_of_pool [OF node assms(2-4)] d(2) show ?thesis by blast
  qed
  have "\<exists>h \<in> N. \<forall>np \<in> set ?pools. IsEligible hash m np = Some (Inr (nodeID np = h), np)" for m
  proof -
    obtain h where "h \<in> N" "\<And>np. np \<in> set ?pools \<Longrightarrow> IsEligible hash m np = Some (Inr (nodeID np = h), np)"
      by (rule one_owner [OF good ids, where key = m]) (use assms(6) in auto)
    then show ?thesis by blast
  qed
  then obtain own where own: "\<And>m. own m \<in> N"
    "\<And>m np. np \<in> set ?pools \<Longrightarrow> IsEligible hash m np = Some (Inr (nodeID np = own m), np)" by metis
  have "answers hash own d" if "d \<in> set ds" for d
    using own(2) [of "pool (dc_pool d)"] node_of_pool(3) [OF _ assms(2-4)] assms(1) that
    by (auto simp: answers_def Dcron_NodeID_def GetNodeID_def)
  with own(1) show thesis by (rule that)
qed

section \<open>An example\<close>

text \<open>A node with one job, whose scheduler waits for the second second.\<close>

definition demo_job_entry :: "unit Time \<Rightarrow> (unit schedule, unit, unit JobWarpper) Entry" where
  "demo_job_entry n = \<lparr>ID = 1, Entry_Schedule = ConstantDelay (Every Second_d), Next_at = n, Prev_at = zero_Time,
     WrappedJob = FuncJob (demo_warpper 0), Entry_Job = demo_warpper 0\<rparr>"

definition demo_jobs_cron ::
    "(unit schedule, unit, unit JobWarpper) Entry list \<Rightarrow> bool \<Rightarrow> int \<Rightarrow> (unit schedule, unit, unit JobWarpper) Cron" where
  "demo_jobs_cron es run n = \<lparr>entries = es, chain = NewChain [], running = run, cron_location = UTC,
     parser = (\<lambda>_. Inr (ConstantDelay (Every Second_d))), nextID = n, jobWaiter = 0, cron_heap = \<lparr>mutexes = [], channels = []\<rparr>\<rparr>"

lemma demo_job_node:
  "\<exists>d :: (unit schedule, unit, unit, string list) Dcron. job_node demo_hash {''a'', ''b''} 50 d \<and>
     steady (pool (dc_pool d)) \<and> set (preNodes (pool (dc_pool d))) = {''a'', ''b''} \<and> Dcron_NodeID d = me \<and> \<not> dc_jobsRWMut d \<and>
     loop (cr d) = Select (Until (at_sec 2)) \<and> cron (cr d) = demo_jobs_cron [demo_job_entry (at_sec 2)] True 1"
proof -
  let ?drv = "demo_driver_ab me" and ?env = "\<lambda>_ _ :: string list. False" and ?opts = "[CronOptionLocation UTC]"
  let ?run = "\<lambda>d. dcron_run ?drv demo_hash ?env demo_nxt demo_sorter d"
  define d0 :: "(unit schedule, unit, unit, string list) Dcron" where
    "d0 = NewDcronWithOption ?drv (\<lambda>_. Inr (ConstantDelay (Every Second_d))) ''svc'' [] ?opts"
  have new: "dc_running d0 = dcronStopped" "\<not> RecoverFunc d0" "\<not> dc_capacityLoad d0" "dc_hashReplicas d0 = 50"
    "\<not> dc_jobsRWMut d0" "dc_jobs d0 = Map.empty" "cr d0 = new_sys (demo_jobs_cron [] False 0)"
    by (simp_all add: d0_def NewDcronWithOption_def newDcron_def Let_def dcron_conf.defs defaultReplicas_def
        CronOptionLocation_def WithLocation_def Cron_New_def demo_jobs_cron_def)
  define d1 where "d1 = d0\<lparr>cr := new_sys (demo_jobs_cron [demo_job_entry zero_Time] False 1), dc_jobs := [''job'' \<mapsto> demo_warpper 1]\<rparr>"
  have add: "addJob demo_nxt demo_sorter (at_sec 1) ''job'' ''@every 1s'' (Some ()) d0 = Some (None, d1)"
    using new by (simp add: addJob_def Cron_AddJob_def Cron_Schedule_def Schedule_entry_def Then_def NewChain_def
        demo_jobs_cron_def demo_job_entry_def demo_warpper_def new_sys_def d1_def Let_def)
  have "dc_running d1 = dcronStopped" "\<not> RecoverFunc d1" using new by (simp_all add: d1_def)
  then obtain d2 where d2: "?run d0 ((([] @ [DcAdd ''job'' None]) @ [DcStart PoolStarting]) @ [DcPool Tick]) d2"
    "steady (pool (dc_pool d2))" "set (preNodes (pool (dc_pool d2))) = {''a'', ''b''}" "Dcron_NodeID d2 = me"
    "same_table d1 d2" "waiting (dc_pool d2) > 0"
    by (rule demo_starts [OF dcrun_step [OF dcrun_refl dc_add [OF add]]])
  define d3 where "d3 = d2\<lparr>dc_pool := (dc_pool d2)\<lparr>waiting := waiting (dc_pool d2) - 1\<rparr>,
    cr := \<lparr>cron = demo_jobs_cron [demo_job_entry zero_Time] True 1, loop = Starting, locked = False\<rparr>\<rparr>"
  have "Dcron_Start_steady d2 = Some d3"
    using d2(2,5,6) by (simp add: Dcron_Start_steady_def GetState_steady d3_def same_table_def d1_def Cron_Start_def new_sys_def demo_jobs_cron_def)
  then have run3: "?run d0 (((([] @ [DcAdd ''job'' None]) @ [DcStart PoolStarting]) @ [DcPool Tick]) @ [DcSteady]) d3"
    by (intro dcrun_step [OF d2(1) dc_steady]) simp
  define d4 where "d4 = d3\<lparr>cr := \<lparr>cron = demo_jobs_cron [demo_job_entry (at_sec 2)] True 1, loop = Select (Until (at_sec 2)), locked = False\<rparr>\<rparr>"
  have "run_init demo_nxt (now_in (cron (cr d3)) (at_sec 1)) (cron (cr d3)) = demo_jobs_cron [demo_job_entry (at_sec 2)] True 1"
    by (simp add: run_init_def d3_def demo_jobs_cron_def now_in_def demo_job_entry_def demo_nxt_second)
  moreover have "enter_select demo_sorter (demo_jobs_cron [demo_job_entry (at_sec 2)] True 1) (cr d3) = cr d4"
    by (simp add: enter_select_def loop_top_def demo_sorter_def demo_jobs_cron_def demo_job_entry_def d3_def d4_def)
  ultimately have "cron_step demo_nxt demo_sorter (cr d3) (LInit (at_sec 1)) (cr d4)"
    using loop_init [of "cr d3" demo_nxt demo_sorter "at_sec 1"] by (simp add: d3_def)
  then have "?run d0 ((((([] @ [DcAdd ''job'' None]) @ [DcStart PoolStarting]) @ [DcPool Tick]) @ [DcSteady]) @ [DcCron]) (d3\<lparr>cr := cr d4\<rparr>)"
    by (rule dcrun_step [OF run3 dc_cron_own]) (simp add: cron_own_def)
  moreover have "d3\<lparr>cr := cr d4\<rparr> = d4" by (simp add: d4_def)
  ultimately have run4: "?run d0 [DcAdd ''job'' None, DcStart PoolStarting, DcPool Tick, DcSteady, DcCron] d4" by simp
  have "wrappers (chain (cron (cr d0))) = []" by (simp add: new(7) new_sys_def demo_jobs_cron_def NewChain_def)
  moreover have "lists_nodes ?drv {''a'', ''b''}" by (auto simp: lists_nodes_def demo_driver_ab_def)
  moreover have "package_dcron_opts ?opts" by (simp add: package_dcron_opts_def)
  ultimately have "job_node demo_hash {''a'', ''b''} 50 d4"
    unfolding job_node_def using run4 new(3,4) demo_sorter_sorts unfolding d0_def by (intro exI conjI) auto
  moreover have "\<not> dc_jobsRWMut d4" using d2(5) new(5) by (simp add: d4_def d3_def same_table_def d1_def)
  ultimately show ?thesis using d2(2-4) by (intro exI [of _ d4]) (simp add: d4_def d3_def Dcron_NodeID_def GetNodeID_def)
qed

end
