(* ===== verification/StableJob.thy ===== *)
theory StableJob
  imports DcronTable
begin

text \<open>
  Jobs that survive a restart: the interface \<^verbatim>\<open>StableJob\<close> of \<^verbatim>\<open>dcron/job_warpper.go\<close> and the
  program that uses it, \<^verbatim>\<open>dcron/examples/stablejob/stablejob.go\<close>, which keeps the jobs in a hash
  at the Redis server and brings the table of a node in line with it every two minutes, with the
  tool \<^verbatim>\<open>dcron/examples/tools/tools.go\<close> that fills the hash. The methods of the interface are a
  record of functions, so that their implementation, by \<^verbatim>\<open>encoding/json\<close>, is a parameter; the
  Redis client is one too.
\<close>

section \<open>The interface\<close>

record 'u StableJob =
  GetCron :: "'u \<Rightarrow> string"
  Serialize :: "'u \<Rightarrow> string + string"
  UnSerialize :: "string \<Rightarrow> string + 'u"

section \<open>Settings\<close>

record EnvConfig =
  RedisAddr :: string
  RedisPassword :: string
  EnvServerName :: string
  JobStoreKey :: string

definition defaultString :: "string \<Rightarrow> string \<Rightarrow> string" where
  "defaultString targetStr defaultStr = (if targetStr = [] then defaultStr else targetStr)"

definition LoadEnv :: "(string \<Rightarrow> string) \<Rightarrow> EnvConfig" where
  "LoadEnv getenv =
     \<lparr>RedisAddr = defaultString (getenv ''redis_addr'') ''127.0.0.1:6379'',
      RedisPassword = defaultString (getenv ''redis_password'') ''123456'',
      EnvServerName = defaultString (getenv ''server_name'') ''dcronsvr'',
      JobStoreKey = defaultString (getenv ''job_store_key'') ''job_store_key''\<rparr>"

section \<open>Synchronisation\<close>

text \<open>
  \<^verbatim>\<open>localJobStore\<close> is \<^const>\<open>None\<close> while the map is nil. \<open>t\<close> gives the readings of the clock.
  A call that waits in the node makes the synchronisation wait: \<^const>\<open>None\<close>.
\<close>

type_synonym store = "(string, string) fmap"

definition addOrUpdateJob ::
    "'u StableJob \<Rightarrow> ('s \<Rightarrow> 'z Time \<Rightarrow> 'z Time) \<Rightarrow> ('s, 'z, 'u JobWarpper) sorter \<Rightarrow> (string \<Rightarrow> 'z Time) \<Rightarrow> string \<Rightarrow> string \<Rightarrow>
     ('s, 'z, 'u, 'd) Dcron \<Rightarrow> ('s, 'z, 'u, 'd) Dcron option" where
  "addOrUpdateJob sj nxt sorter t jobName jobData d =
     (case UnSerialize sj jobData of
        Inl err \<Rightarrow> Some d
      | Inr job \<Rightarrow> map_option snd (Dcron_AddJob nxt sorter (t jobName) jobName (GetCron sj job) (Some job) d))"

text \<open>The loop over the jobs at the server; \<open>fresh\<close> says whether a job is to be handled.\<close>

fun store_jobs ::
    "(string \<Rightarrow> string \<Rightarrow> store \<Rightarrow> bool) \<Rightarrow>
     'u StableJob \<Rightarrow> ('s \<Rightarrow> 'z Time \<Rightarrow> 'z Time) \<Rightarrow> ('s, 'z, 'u JobWarpper) sorter \<Rightarrow> (string \<Rightarrow> 'z Time) \<Rightarrow>
     store \<Rightarrow> string list \<Rightarrow> store \<Rightarrow> ('s, 'z, 'u, 'd) Dcron \<Rightarrow> (store \<times> ('s, 'z, 'u, 'd) Dcron) option" where
  "store_jobs fresh sj nxt sorter t redisJobs [] lst d = Some (lst, d)"
| "store_jobs fresh sj nxt sorter t redisJobs (jobName # jobNames) lst d =
     (case fmlookup redisJobs jobName of
        None \<Rightarrow> store_jobs fresh sj nxt sorter t redisJobs jobNames lst d
      | Some jobData \<Rightarrow>
          if fresh jobName jobData lst then
            (case addOrUpdateJob sj nxt sorter t jobName jobData d of
               None \<Rightarrow> None
             | Some d \<Rightarrow> store_jobs fresh sj nxt sorter t redisJobs jobNames (fmupd jobName jobData lst) d)
          else store_jobs fresh sj nxt sorter t redisJobs jobNames lst d)"

text \<open>\<^verbatim>\<open>localData, exists := localJobStore[jobName]; !exists || localData != jobData\<close>\<close>

definition changed :: "string \<Rightarrow> string \<Rightarrow> store \<Rightarrow> bool" where
  "changed jobName jobData lst \<longleftrightarrow>
     (case fmlookup lst jobName of None \<Rightarrow> True | Some localData \<Rightarrow> localData \<noteq> jobData)"

text \<open>The loop over the local store that removes what is no longer at the server.\<close>

fun drop_jobs ::
    "('s, 'z, 'u JobWarpper) sorter \<Rightarrow> store \<Rightarrow> string list \<Rightarrow> store \<Rightarrow> ('s, 'z, 'u, 'd) Dcron \<Rightarrow>
     (store \<times> ('s, 'z, 'u, 'd) Dcron) option" where
  "drop_jobs sorter redisJobs [] lst d = Some (lst, d)"
| "drop_jobs sorter redisJobs (jobName # jobNames) lst d =
     (if fmlookup redisJobs jobName = None then
        (case Dcron_Remove sorter jobName d of
           None \<Rightarrow> None
         | Some d \<Rightarrow> drop_jobs sorter redisJobs jobNames (fmdrop jobName lst) d)
      else drop_jobs sorter redisJobs jobNames lst d)"

text \<open>
  \<^verbatim>\<open>syncJobsWithLocalStore\<close>; \<open>redis\<close> is the answer of \<^verbatim>\<open>HGetAll\<close>, \<open>order\<close> the order in which
  the maps are ranged over.
\<close>

definition syncJobsWithLocalStore ::
    "'u StableJob \<Rightarrow> ('s \<Rightarrow> 'z Time \<Rightarrow> 'z Time) \<Rightarrow> ('s, 'z, 'u JobWarpper) sorter \<Rightarrow> (string \<Rightarrow> 'z Time) \<Rightarrow>
     (store \<Rightarrow> string list) \<Rightarrow> string + store \<Rightarrow> store option \<Rightarrow> ('s, 'z, 'u, 'd) Dcron \<Rightarrow>
     (store option \<times> ('s, 'z, 'u, 'd) Dcron) option" where
  "syncJobsWithLocalStore sj nxt sorter t order redis localJobStore d =
     (case redis of
        Inl err \<Rightarrow> Some (localJobStore, d)
      | Inr redisJobs \<Rightarrow>
          (case localJobStore of
             None \<Rightarrow>
               map_option (\<lambda>(lst, d). (Some lst, d))
                 (store_jobs (\<lambda>_ _ _. True) sj nxt sorter t redisJobs (order redisJobs) fmempty d)
           | Some lst \<Rightarrow>
               (case store_jobs changed sj nxt sorter t redisJobs (order redisJobs) lst d of
                  None \<Rightarrow> None
                | Some (lst, d) \<Rightarrow>
                    map_option (\<lambda>(lst, d). (Some lst, d)) (drop_jobs sorter redisJobs (order lst) lst d))))"

section \<open>The program\<close>

definition stablejob_opts :: "(string \<Rightarrow> string + 'z) \<Rightarrow> ('z schedule, 'z, 'u) dcron_opt list" where
  "stablejob_opts tzload =
     [CronOptionSeconds tzload, WithHashReplicas 20, WithNodeUpdateDuration (10 * Second_d), WithRecoverFunc]"

definition stablejob_dcron ::
    "'d DriverV2 \<Rightarrow> (string \<Rightarrow> parse_error + 'z schedule) \<Rightarrow> (string \<Rightarrow> string + 'z) \<Rightarrow> EnvConfig \<Rightarrow> 'd \<Rightarrow>
     ('z schedule, 'z, 'u, 'd) Dcron" where
  "stablejob_dcron drv std tzload env drvst = NewDcronWithOption drv std (EnvServerName env) drvst (stablejob_opts tzload)"

text \<open>
  The node and the goroutine that its recover function starts: synchronisations, one at a time,
  between the steps that the node takes otherwise. Nothing else adds or removes jobs.
\<close>

datatype 'u stable_label = Sync "string + store" | Node "'u dcron_label"

definition table_label :: "'u dcron_label \<Rightarrow> bool" where
  "table_label l \<longleftrightarrow> (\<exists>n r. l = DcAdd n r) \<or> (\<exists>n. l = DcRemove n) \<or> (\<exists>b. l = DcClean b)"

definition ranges_store :: "(store \<Rightarrow> string list) \<Rightarrow> bool" where
  "ranges_store order \<longleftrightarrow> (\<forall>m. distinct (order m) \<and> set (order m) = fset (fmdom m))"

inductive stable_step ::
    "'u StableJob \<Rightarrow> 'd DriverV2 \<Rightarrow> hashfun \<Rightarrow> ('d \<Rightarrow> 'd \<Rightarrow> bool) \<Rightarrow> ('s \<Rightarrow> 'z Time \<Rightarrow> 'z Time) \<Rightarrow> ('s, 'z, 'u JobWarpper) sorter \<Rightarrow>
     store option \<times> ('s, 'z, 'u, 'd) Dcron \<Rightarrow> 'u stable_label \<Rightarrow> store option \<times> ('s, 'z, 'u, 'd) Dcron \<Rightarrow> bool"
  for sj drv hash env nxt sorter where
  st_sync: "ranges_store order \<Longrightarrow> syncJobsWithLocalStore sj nxt sorter t order redis lst d = Some (lst', d') \<Longrightarrow>
    stable_step sj drv hash env nxt sorter (lst, d) (Sync redis) (lst', d')"
| st_node: "dcron_step drv hash env nxt sorter d l d' \<Longrightarrow> \<not> table_label l \<Longrightarrow>
    stable_step sj drv hash env nxt sorter (lst, d) (Node l) (lst, d')"

inductive stable_run ::
    "'u StableJob \<Rightarrow> 'd DriverV2 \<Rightarrow> hashfun \<Rightarrow> ('d \<Rightarrow> 'd \<Rightarrow> bool) \<Rightarrow> ('s \<Rightarrow> 'z Time \<Rightarrow> 'z Time) \<Rightarrow> ('s, 'z, 'u JobWarpper) sorter \<Rightarrow>
     store option \<times> ('s, 'z, 'u, 'd) Dcron \<Rightarrow> 'u stable_label list \<Rightarrow> store option \<times> ('s, 'z, 'u, 'd) Dcron \<Rightarrow> bool"
  for sj drv hash env nxt sorter where
  st_refl: "stable_run sj drv hash env nxt sorter s [] s"
| st_step: "stable_run sj drv hash env nxt sorter s ls s' \<Longrightarrow> stable_step sj drv hash env nxt sorter s' l s'' \<Longrightarrow>
    stable_run sj drv hash env nxt sorter s (ls @ [l]) s''"

section \<open>The tool that stores jobs\<close>

record ExecJob =
  ExecCron :: string
  Command :: string

definition ExecJob_GetCron :: "ExecJob \<Rightarrow> string" where
  "ExecJob_GetCron execjob = ExecCron execjob"

text \<open>\<open>HSet\<close> is the call of the Redis client. An error of \<^verbatim>\<open>Serialize\<close> is dropped, and nil is stored.\<close>

definition Store ::
    "(string \<Rightarrow> string \<Rightarrow> string \<Rightarrow> 'w \<Rightarrow> 'w) \<Rightarrow> 'u StableJob \<Rightarrow> string \<Rightarrow> string \<Rightarrow> 'u \<Rightarrow> 'w \<Rightarrow> 'w" where
  "Store HSet sj key jobName job w =
     (let b = (case Serialize sj job of Inl _ \<Rightarrow> [] | Inr b \<Rightarrow> b) in HSet key jobName b w)"

definition tool_jobs :: "(string \<times> ExecJob) list" where
  "tool_jobs =
     [(''job1'', \<lparr>ExecCron = ''@every 10s'', Command = ''date''\<rparr>),
      (''job2'', \<lparr>ExecCron = ''@every 10s'', Command = ''df -h''\<rparr>),
      (''job3'', \<lparr>ExecCron = ''@every 10s'', Command = ''echo job3''\<rparr>),
      (''job4'', \<lparr>ExecCron = ''@every 20s'', Command = ''echo job4''\<rparr>),
      (''job5'', \<lparr>ExecCron = ''@every 10s'', Command = ''echo job5''\<rparr>),
      (''job6'', \<lparr>ExecCron = ''@every 20s'', Command = ''echo job6''\<rparr>),
      (''job7'', \<lparr>ExecCron = ''@every 20s'', Command = ''echo job7''\<rparr>),
      (''job8'', \<lparr>ExecCron = ''@every 20s'', Command = ''echo job8''\<rparr>),
      (''job9'', \<lparr>ExecCron = ''@every 10s'', Command = ''echo job9''\<rparr>),
      (''job10'', \<lparr>ExecCron = ''@every 10s'', Command = ''echo job10''\<rparr>),
      (''job11'', \<lparr>ExecCron = ''@every 10s'', Command = ''echo job11''\<rparr>),
      (''job12'', \<lparr>ExecCron = ''@every 20s'', Command = ''echo job12''\<rparr>),
      (''job13'', \<lparr>ExecCron = ''@every 10s'', Command = ''echo job13''\<rparr>),
      (''job14'', \<lparr>ExecCron = ''@every 20s'', Command = ''echo job14''\<rparr>)]"

definition tools_main ::
    "(string \<Rightarrow> string \<Rightarrow> string \<Rightarrow> 'w \<Rightarrow> 'w) \<Rightarrow> ExecJob StableJob \<Rightarrow> string \<Rightarrow> 'w \<Rightarrow> 'w" where
  "tools_main HSet sj key w = fold (\<lambda>(jobName, job) w. Store HSet sj key jobName job w) tool_jobs w"

end
