(* ===== verification/StableProps.thy ===== *)
theory StableProps
  imports StableJob
begin

text \<open>
  What the synchronisation with the store of jobs achieves, in every run of the node that uses
  it, and what it does not.
\<close>

section \<open>The parser of a scheduler does not change\<close>

lemma enter_select_parser: "parser (cron (enter_select sorter c s)) = parser c"
  by (simp add: enter_select_def loop_top_def Let_def)

lemma Cron_Schedule_parser:
  assumes "Cron_Schedule nxt sorter t sch cmd s = Some (eid, s')"
  shows "parser (cron s') = parser (cron s)"
proof -
  obtain e c where e: "Schedule_entry sch cmd (cron s) = (e, c)" by fastforce
  then have "parser c = parser (cron s)" by (auto simp: Schedule_entry_def Let_def split: prod.splits)
  with assms show ?thesis by (auto simp: Cron_Schedule_def e enter_select_parser on_add_def split: if_splits)
qed

lemma Cron_Remove_parser: "Cron_Remove sorter eid s = Some s' \<Longrightarrow> parser (cron s') = parser (cron s)"
  by (auto simp: Cron_Remove_def enter_select_parser on_remove_def removeEntry_def split: if_splits)

lemma wake_parser: "wake nxt t c = (due, c') \<Longrightarrow> parser c' = parser c"
proof -
  assume "wake nxt t c = (due, c')"
  moreover have "parser (fold (\<lambda>e c. startJob (WrappedJob e) c) es c) = parser c" for es and c :: "('s, 'z, 'j) Cron"
    by (induction es arbitrary: c) (simp_all add: startJob_def)
  ultimately show ?thesis by (auto simp: wake_def Let_def split: prod.splits)
qed

lemma cron_own_parser:
  assumes "cron_step nxt sorter s l s'" "cron_own l"
  shows "parser (cron s') = parser (cron s)"
  using assms(1)
proof (cases rule: cron_step.cases)
  case (loop_wake tm t due c)
  then show ?thesis using wake_parser by (simp add: enter_select_parser)
qed (use assms(2) in \<open>auto simp: cron_own_def enter_select_parser run_init_def\<close>)

text \<open>The table and the parser.\<close>

definition keeps_jobs :: "('s, 'z, 'u, 'd) Dcron \<Rightarrow> ('s, 'z, 'u, 'd) Dcron \<Rightarrow> bool" where
  "keeps_jobs d d' \<longleftrightarrow> dc_jobs d' = dc_jobs d \<and> parser (cron (cr d')) = parser (cron (cr d))"

lemma same_table_keeps: "same_table d d' \<Longrightarrow> keeps_jobs d d'"
  by (simp add: same_table_def keeps_jobs_def)

lemma dcron_step_keeps:
  assumes "dcron_step drv hash env nxt sorter d l d'" "\<not> table_label l"
  shows "keeps_jobs d d'"
  using assms(1)
proof (cases rule: dcron_step.cases)
  case (dc_start order now r)
  then have "Dcron_Start drv hash order now (\<lambda>d. d) d = (r, d')" by simp
  then show ?thesis by (intro same_table_keeps Dcron_Start_same)
next
  case dc_steady
  then show ?thesis
    by (auto simp: Dcron_Start_steady_def Cron_Start_def keeps_jobs_def split: if_splits)
next
  case (dc_stop_pool r)
  then show ?thesis by (auto simp: Dcron_Stop_pool_def set_pool_def keeps_jobs_def)
next
  case dc_stopped
  then show ?thesis by (auto simp: Dcron_Stop_tick_def Cron_Stop_def keeps_jobs_def split: if_splits)
next
  case (dc_run t t' job js reruns)
  then show ?thesis by (intro same_table_keeps JobWarpper_Run_same)
next
  case (dc_rerun jobNames js)
  then show ?thesis by (intro same_table_keeps reRun_same)
next
  case (dc_panic t t' job p jobNames)
  then show ?thesis using JobWarpper_Run_same reRun_same same_table_keeps by blast
next
  case (dc_cron_own l' c)
  then show ?thesis using cron_own_parser by (simp add: keeps_jobs_def)
qed (use assms(2) in \<open>auto simp: table_label_def keeps_jobs_def\<close>)

section \<open>One job\<close>

text \<open>Data that the node can make a job of.\<close>

definition runnable :: "'u StableJob \<Rightarrow> (string \<Rightarrow> parse_error + 's) \<Rightarrow> string \<Rightarrow> bool" where
  "runnable sj p jobData =
     (case UnSerialize sj jobData of Inl _ \<Rightarrow> False | Inr job \<Rightarrow> (case p (GetCron sj job) of Inl _ \<Rightarrow> False | Inr _ \<Rightarrow> True))"

lemma addJob_jobs:
  assumes "addJob nxt sorter t n spec job d = Some (r, d')"
  shows "m \<noteq> n \<or> dc_jobs d n \<noteq> None \<Longrightarrow> dc_jobs d' m = dc_jobs d m"
    and "parser (cron (cr d')) = parser (cron (cr d))"
    and "parser (cron (cr d)) spec = Inr sch \<Longrightarrow> dc_jobs d' n \<noteq> None"
proof -
  let ?jw = "\<lparr>JW_ID = 0, Name = n, CronStr = spec, Job = job\<rparr>"
  consider "d' = d" "dc_jobs d n \<noteq> None \<or> (\<exists>e. parser (cron (cr d)) spec = Inl e)"
    | eid c where "dc_jobs d n = None" "Cron_AddJob nxt sorter t spec ?jw (cr d) = Some (Inr eid, c)"
      "d' = d\<lparr>cr := c, dc_jobs := (dc_jobs d)(n \<mapsto> ?jw\<lparr>JW_ID := eid\<rparr>)\<rparr>"
    using assms by (auto simp: addJob_def Cron_AddJob_def Let_def split: if_splits option.splits sum.splits prod.splits)
  then show "m \<noteq> n \<or> dc_jobs d n \<noteq> None \<Longrightarrow> dc_jobs d' m = dc_jobs d m" "parser (cron (cr d')) = parser (cron (cr d))"
    "parser (cron (cr d)) spec = Inr sch \<Longrightarrow> dc_jobs d' n \<noteq> None"
    by (cases; auto simp: Cron_AddJob_def Cron_Schedule_parser split: sum.splits)+
qed

lemma addOrUpdateJob_jobs:
  assumes "addOrUpdateJob sj nxt sorter t n jobData d = Some d'"
  shows "m \<noteq> n \<or> dc_jobs d n \<noteq> None \<Longrightarrow> dc_jobs d' m = dc_jobs d m"
    and "parser (cron (cr d')) = parser (cron (cr d))"
    and "runnable sj (parser (cron (cr d))) jobData \<Longrightarrow> dc_jobs d' n \<noteq> None"
  using assms addJob_jobs
  by (fastforce simp: addOrUpdateJob_def Dcron_AddJob_def runnable_def split: sum.splits)+

lemma Dcron_Remove_jobs:
  assumes "Dcron_Remove sorter n d = Some d'"
  shows "dc_jobs d' = (dc_jobs d)(n := None)" "parser (cron (cr d')) = parser (cron (cr d))"
  using assms by (auto simp: Dcron_Remove_def Cron_Remove_parser split: if_splits option.splits)

section \<open>One synchronisation\<close>

text \<open>The table holds only jobs of the local store, and all of those that can be run.\<close>

definition in_step :: "'u StableJob \<Rightarrow> (string \<Rightarrow> parse_error + 's) \<Rightarrow> store \<Rightarrow> ('s, 'z, 'u, 'd) Dcron \<Rightarrow> bool" where
  "in_step sj p lst d \<longleftrightarrow> parser (cron (cr d)) = p \<and>
     (\<forall>k. dc_jobs d k \<noteq> None \<longrightarrow> fmlookup lst k \<noteq> None) \<and>
     (\<forall>k jobData. fmlookup lst k = Some jobData \<longrightarrow> runnable sj p jobData \<longrightarrow> dc_jobs d k \<noteq> None)"

lemma in_step_add:
  assumes "in_step sj p lst d" "addOrUpdateJob sj nxt sorter t n jobData d = Some d'"
  shows "in_step sj p (fmupd n jobData lst) d'"
proof -
  note add = addOrUpdateJob_jobs [OF assms(2)]
  have p: "parser (cron (cr d)) = p" using assms(1) by (simp add: in_step_def)
  have "fmlookup (fmupd n jobData lst) k \<noteq> None" if "dc_jobs d' k \<noteq> None" for k
    using that add(1) [of k] assms(1) by (cases "k = n") (auto simp: in_step_def)
  moreover have "dc_jobs d' k \<noteq> None" if "fmlookup (fmupd n jobData lst) k = Some x" "runnable sj p x" for k x
    using that add(1) [of k] add(3) assms(1) p by (cases "k = n") (auto simp: in_step_def)
  ultimately show ?thesis using add(2) p by (simp add: in_step_def)
qed

lemma in_step_remove:
  assumes "in_step sj p lst d" "Dcron_Remove sorter n d = Some d'"
  shows "in_step sj p (fmdrop n lst) d'"
  using assms(1) Dcron_Remove_jobs [OF assms(2)] by (auto simp: in_step_def)

lemma store_jobs_spec:
  assumes "store_jobs fresh sj nxt sorter t redisJobs ks lst d = Some (lst', d')" "in_step sj p lst d"
    and "\<And>k x l. \<not> fresh k x l \<Longrightarrow> fmlookup l k = Some x"
  shows "in_step sj p lst' d' \<and>
    (\<forall>k. fmlookup lst' k = (if k \<in> set ks \<and> fmlookup redisJobs k \<noteq> None then fmlookup redisJobs k else fmlookup lst k)) \<and>
    (\<forall>k. dc_jobs d k \<noteq> None \<longrightarrow> dc_jobs d' k = dc_jobs d k)"
  using assms(1,2)
proof (induction ks arbitrary: lst d)
  case (Cons n ks)
  show ?case
  proof (cases "fmlookup redisJobs n")
    case None
    with Cons.prems have "store_jobs fresh sj nxt sorter t redisJobs ks lst d = Some (lst', d')" by simp
    from Cons.IH [OF this Cons.prems(2)] None show ?thesis by auto
  next
    case (Some x)
    show ?thesis
    proof (cases "fresh n x lst")
      case False
      with Cons.prems Some have "store_jobs fresh sj nxt sorter t redisJobs ks lst d = Some (lst', d')" by simp
      from Cons.IH [OF this Cons.prems(2)] Some assms(3) [OF False] show ?thesis by auto
    next
      case True
      with Cons.prems(1) Some obtain d1 where d1: "addOrUpdateJob sj nxt sorter t n x d = Some d1"
        and rest: "store_jobs fresh sj nxt sorter t redisJobs ks (fmupd n x lst) d1 = Some (lst', d')"
        by (auto split: option.splits)
      note IH = Cons.IH [OF rest in_step_add [OF Cons.prems(2) d1]]
      have "dc_jobs d' k = dc_jobs d k" if "dc_jobs d k \<noteq> None" for k
        using IH that addOrUpdateJob_jobs(1) [OF d1, of k] by (cases "k = n") auto
      with IH Some show ?thesis by auto
    qed
  qed
qed simp

lemma drop_jobs_spec:
  assumes "drop_jobs sorter redisJobs ks lst d = Some (lst', d')" "in_step sj p lst d"
  shows "in_step sj p lst' d' \<and>
    (\<forall>k. fmlookup lst' k = (if k \<in> set ks \<and> fmlookup redisJobs k = None then None else fmlookup lst k)) \<and>
    (\<forall>k. fmlookup redisJobs k \<noteq> None \<longrightarrow> dc_jobs d' k = dc_jobs d k)"
  using assms
proof (induction ks arbitrary: lst d)
  case (Cons n ks)
  show ?case
  proof (cases "fmlookup redisJobs n")
    case None
    with Cons.prems(1) obtain d1 where d1: "Dcron_Remove sorter n d = Some d1"
      and rest: "drop_jobs sorter redisJobs ks (fmdrop n lst) d1 = Some (lst', d')" by (auto split: option.splits)
    from Cons.IH [OF rest in_step_remove [OF Cons.prems(2) d1]] Dcron_Remove_jobs(1) [OF d1] None show ?thesis by auto
  next
    case (Some x)
    with Cons.prems(1) have "drop_jobs sorter redisJobs ks lst d = Some (lst', d')" by simp
    from Cons.IH [OF this Cons.prems(2)] Some show ?thesis by auto
  qed
qed simp

definition stable_inv :: "'u StableJob \<Rightarrow> (string \<Rightarrow> parse_error + 's) \<Rightarrow> store option \<Rightarrow> ('s, 'z, 'u, 'd) Dcron \<Rightarrow> bool" where
  "stable_inv sj p lst d = in_step sj p (case lst of None \<Rightarrow> fmempty | Some m \<Rightarrow> m) d"

lemma sync_spec:
  assumes "ranges_store order" "stable_inv sj p lst d"
    and "syncJobsWithLocalStore sj nxt sorter t order (Inr redisJobs) lst d = Some (lst', d')"
  shows "lst' = Some redisJobs" "in_step sj p redisJobs d'"
    and "dc_jobs d k \<noteq> None \<Longrightarrow> fmlookup redisJobs k \<noteq> None \<Longrightarrow> dc_jobs d' k = dc_jobs d k"
proof -
  have mem: "k \<in> set (order m) \<longleftrightarrow> fmlookup m k \<noteq> None" for k m
    using assms(1) by (simp add: ranges_store_def fmlookup_dom_iff)
  have main: "lst' = Some redisJobs \<and> in_step sj p redisJobs d' \<and>
      (\<forall>k. dc_jobs d k \<noteq> None \<longrightarrow> fmlookup redisJobs k \<noteq> None \<longrightarrow> dc_jobs d' k = dc_jobs d k)"
  proof (cases lst)
    case None
    with assms(3) obtain m where m: "store_jobs (\<lambda>_ _ _. True) sj nxt sorter t redisJobs (order redisJobs) fmempty d = Some (m, d')"
      "lst' = Some m" by (auto simp: syncJobsWithLocalStore_def)
    have "in_step sj p fmempty d" using assms(2) None by (simp add: stable_inv_def)
    note spec = store_jobs_spec [OF m(1) this]
    then have "m = redisJobs" by (intro fmap_ext) (simp add: mem)
    with spec m(2) show ?thesis by simp
  next
    case (Some l)
    with assms(3) obtain l1 d1 m where
      l1: "store_jobs changed sj nxt sorter t redisJobs (order redisJobs) l d = Some (l1, d1)" and
      m: "drop_jobs sorter redisJobs (order l1) l1 d1 = Some (m, d')" "lst' = Some m"
      by (auto simp: syncJobsWithLocalStore_def split: option.splits)
    have "in_step sj p l d" using assms(2) Some by (simp add: stable_inv_def)
    moreover have "fmlookup l k = Some x" if "\<not> changed k x l" for k x l
      using that by (simp add: changed_def split: option.splits)
    ultimately have first: "in_step sj p l1 d1 \<and>
      (\<forall>k. fmlookup l1 k = (if k \<in> set (order redisJobs) \<and> fmlookup redisJobs k \<noteq> None then fmlookup redisJobs k else fmlookup l k)) \<and>
      (\<forall>k. dc_jobs d k \<noteq> None \<longrightarrow> dc_jobs d1 k = dc_jobs d k)" by (rule store_jobs_spec [OF l1])
    note second = drop_jobs_spec [OF m(1) conjunct1 [OF first]]
    have "fmlookup m k = fmlookup redisJobs k" for k using first second by (simp add: mem)
    then have "m = redisJobs" by (rule fmap_ext)
    with second first m(2) show ?thesis by metis
  qed
  then show "lst' = Some redisJobs" "in_step sj p redisJobs d'"
    "dc_jobs d k \<noteq> None \<Longrightarrow> fmlookup redisJobs k \<noteq> None \<Longrightarrow> dc_jobs d' k = dc_jobs d k" by blast+
qed

section \<open>Every run\<close>

lemma in_step_keeps: "keeps_jobs d d' \<Longrightarrow> in_step sj p lst d \<Longrightarrow> in_step sj p lst d'"
  by (simp add: keeps_jobs_def in_step_def)

lemma stable_step_inv:
  assumes "stable_step sj drv hash env nxt sorter s l s'" "stable_inv sj p (fst s) (snd s)"
  shows "stable_inv sj p (fst s') (snd s')"
  using assms(1)
proof (cases rule: stable_step.cases)
  case (st_sync order t redis lst d lst' d')
  show ?thesis
  proof (cases redis)
    case (Inl e)
    with st_sync assms(2) show ?thesis by (simp add: syncJobsWithLocalStore_def)
  next
    case (Inr m)
    have "stable_inv sj p lst d" using assms(2) st_sync(1) by simp
    moreover have "syncJobsWithLocalStore sj nxt sorter t order (Inr m) lst d = Some (lst', d')" using st_sync(5) Inr by simp
    ultimately have "lst' = Some m" "in_step sj p m d'" by (rule sync_spec(1,2) [OF st_sync(4)])+
    with st_sync(3) show ?thesis by (simp add: stable_inv_def)
  qed
next
  case (st_node d l' d' lst)
  then show ?thesis using assms(2) dcron_step_keeps in_step_keeps by (fastforce simp: stable_inv_def)
qed

lemma stable_run_inv:
  assumes "stable_run sj drv hash env nxt sorter s ls s'" "stable_inv sj p (fst s) (snd s)"
  shows "stable_inv sj p (fst s') (snd s')"
  using assms by (induction rule: stable_run.induct) (auto intro: stable_step_inv)

lemma stable_inv_new: "stable_inv sj (parser (cron (cr d))) None d" if "dc_jobs d = Map.empty"
  using that by (simp add: stable_inv_def in_step_def)

lemma NewDcronWithOption_jobs: "dc_jobs (NewDcronWithOption drv std n dst opts) = Map.empty"
  by (simp add: NewDcronWithOption_def Let_def dcron_conf.defs)

lemma stable_run_new_inv:
  assumes "stable_run sj drv hash env nxt sorter (None, NewDcronWithOption drv std n dst opts) ls (lst, d)"
  shows "stable_inv sj (parser (cron (cr (NewDcronWithOption drv std n dst opts)))) lst d"
  by (rule stable_run_inv [OF assms, simplified], rule stable_inv_new, rule NewDcronWithOption_jobs)

text \<open>
  (C7) The node follows the store of jobs. Whatever it and the synchronisations before have done,
  a synchronisation that reads the jobs from the server and returns leaves the local store equal
  to what it read, no job in the table that is not at the server, and every job of the server in
  the table whose data can be read and whose spec the scheduler parses.
\<close>

theorem stable_jobs_follow_store:
  assumes "stable_run sj drv hash env nxt sorter (None, NewDcronWithOption drv std n dst opts) ls (lst, d)"
    and "ranges_store order" "syncJobsWithLocalStore sj nxt sorter t order (Inr redisJobs) lst d = Some (lst', d')"
  shows "lst' = Some redisJobs \<and> (\<forall>k. dc_jobs d' k \<noteq> None \<longrightarrow> fmlookup redisJobs k \<noteq> None) \<and>
    (\<forall>k jobData. fmlookup redisJobs k = Some jobData \<and>
       runnable sj (parser (cron (cr (NewDcronWithOption drv std n dst opts)))) jobData \<longrightarrow> dc_jobs d' k \<noteq> None)"
proof -
  let ?p = "parser (cron (cr (NewDcronWithOption drv std n dst opts)))"
  have "stable_inv sj ?p lst d"
    by (rule stable_run_new_inv [OF assms(1)])
  from sync_spec(1,2) [OF assms(2) this assms(3)] show ?thesis by (simp add: in_step_def)
qed

lemma stable_run_stale:
  assumes "stable_run sj drv hash env nxt sorter s ls s'" "stable_inv sj p (fst s) (snd s)"
    and "dc_jobs (snd s) k = Some w" "\<And>m. Sync (Inr m) \<in> set ls \<Longrightarrow> fmlookup m k \<noteq> None"
  shows "dc_jobs (snd s') k = Some w"
  using assms
proof (induction rule: stable_run.induct)
  case (st_step s ls s' l s'')
  then have IH: "dc_jobs (snd s') k = Some w" and listed: "\<And>m. l = Sync (Inr m) \<Longrightarrow> fmlookup m k \<noteq> None" by auto
  have inv: "stable_inv sj p (fst s') (snd s')" by (rule stable_run_inv [OF st_step.hyps(1) st_step.prems(1)])
  from st_step.hyps(2) show ?case
  proof (cases rule: stable_step.cases)
    case (st_sync order t redis lst d lst' d')
    show ?thesis
    proof (cases redis)
      case (Inl e)
      with st_sync IH show ?thesis by (simp add: syncJobsWithLocalStore_def)
    next
      case (Inr m)
      have "stable_inv sj p lst d" using inv st_sync(1) by simp
      from sync_spec(3) [OF st_sync(4) this, of nxt sorter t m lst' d' k] st_sync Inr IH listed [of m] show ?thesis by simp
    qed
  next
    case (st_node d l' d' lst)
    then show ?thesis using IH dcron_step_keeps [OF st_node(4,5)] by (simp add: keeps_jobs_def)
  qed
qed simp

text \<open>
  (C40) A change of a job at the server is never taken over. However many synchronisations read
  the job from the server, with whatever data, the table keeps the job that was added first,
  although the local store holds the new data, so that no later synchronisation sees a change.
\<close>

theorem changed_job_is_not_updated:
  assumes "stable_run sj drv hash env nxt sorter (None, NewDcronWithOption drv std n dst opts) ls0 (lst, d)"
    and "stable_run sj drv hash env nxt sorter (lst, d) ls (lst', d')"
    and "dc_jobs d k = Some w" "\<And>m. Sync (Inr m) \<in> set ls \<Longrightarrow> fmlookup m k \<noteq> None"
  shows "dc_jobs d' k = Some w \<and> (\<forall>xs m. ls = xs @ [Sync (Inr m)] \<longrightarrow> lst' = Some m)"
proof -
  let ?p = "parser (cron (cr (NewDcronWithOption drv std n dst opts)))"
  have inv: "stable_inv sj ?p lst d"
    by (rule stable_run_new_inv [OF assms(1)])
  have "dc_jobs d' k = Some w" using stable_run_stale [OF assms(2)] inv assms(3,4) by simp
  moreover have "lst' = Some m" if "ls = xs @ [Sync (Inr m)]" for xs m
    using assms(2)
  proof (cases rule: stable_run.cases)
    case (st_step ls1 s1 l)
    then have run: "stable_run sj drv hash env nxt sorter (lst, d) xs s1"
      and last: "stable_step sj drv hash env nxt sorter s1 (Sync (Inr m)) (lst', d')" using that by auto
    have inv1: "stable_inv sj ?p (fst s1) (snd s1)" using stable_run_inv [OF run] inv by simp
    from last show ?thesis
    proof (cases rule: stable_step.cases)
      case (st_sync order t lst1 d1)
      then show ?thesis using sync_spec(1) [OF st_sync(2), of sj ?p lst1 d1] inv1 by auto
    qed
  qed (use that in simp)
  ultimately show ?thesis by blast
qed

section \<open>From the tool to the table\<close>

text \<open>A node on which no call waits: it has not been started.\<close>

definition idle :: "('s, 'z, 'u, 'd) Dcron \<Rightarrow> bool" where
  "idle d \<longleftrightarrow> \<not> dc_jobsRWMut d \<and> \<not> locked (cr d) \<and> \<not> running (cron (cr d))"

lemma idle_addJob:
  assumes "idle d"
  shows "\<exists>r d'. addJob nxt sorter t n spec job d = Some (r, d') \<and> idle d' \<and>
    (dc_jobs d n = None \<longrightarrow> (\<forall>sch. parser (cron (cr d)) spec = Inr sch \<longrightarrow>
      (\<exists>i. dc_jobs d' n = Some \<lparr>JW_ID = i, Name = n, CronStr = spec, Job = job\<rparr>)))"
proof -
  have off: "\<not> running c" if "Schedule_entry sch cmd (cron (cr d)) = (e, c)" for sch and cmd :: "'c JobWarpper" and e c
    using Schedule_entry_spec(4) [OF that] assms by (simp add: idle_def)
  then show ?thesis using assms
    by (auto dest: off simp: addJob_def Cron_AddJob_def Cron_Schedule_def idle_def Let_def split: sum.splits prod.splits)
qed

lemma idle_addOrUpdateJob:
  assumes "idle d"
  shows "\<exists>d'. addOrUpdateJob sj nxt sorter t n x d = Some d' \<and> idle d' \<and>
    (\<forall>job sch. dc_jobs d n = None \<and> UnSerialize sj x = Inr job \<and> parser (cron (cr d)) (GetCron sj job) = Inr sch \<longrightarrow>
      (\<exists>i. dc_jobs d' n = Some \<lparr>JW_ID = i, Name = n, CronStr = GetCron sj job, Job = Some job\<rparr>))"
proof (cases "UnSerialize sj x")
  case (Inr job)
  from idle_addJob [OF assms, of nxt sorter "t n" n "GetCron sj job" "Some job"] Inr show ?thesis
    by (auto simp: addOrUpdateJob_def Dcron_AddJob_def)
qed (use assms in \<open>simp add: addOrUpdateJob_def\<close>)



lemma stablejob_dcron_new:
  "idle (stablejob_dcron drv std tzload env drvst)" "dc_jobs (stablejob_dcron drv std tzload env drvst) = Map.empty"
  "parser (cron (cr (stablejob_dcron drv std tzload env drvst))) = schedule_parser tzload
     \<lparr>options = Second_opt OR Minute_opt OR Hour_opt OR Dom_opt OR Month_opt OR Dow_opt OR Descriptor\<rparr>"
  by (simp_all add: idle_def stablejob_dcron_def stablejob_opts_def NewDcronWithOption_def newDcron_def Let_def dcron_conf.defs
      CronOptionSeconds_def WithHashReplicas_def WithNodeUpdateDuration_def WithRecoverFunc_def Cron_New_def new_sys_def
      WithSeconds_def NewParser_def WithParser_def Second_opt_def Minute_opt_def Hour_opt_def Dom_opt_def Month_opt_def
      Dow_opt_def Descriptor_def DowOptional_def SecondOptional_def)

lemma every_with_seconds:
  fixes tzload :: "string \<Rightarrow> string + 'z"
  assumes "0 < n" "n \<le> 9223372036"
  shows "schedule_parser tzload
      \<lparr>options = Second_opt OR Minute_opt OR Hour_opt OR Dom_opt OR Month_opt OR Dow_opt OR Descriptor\<rparr> (''@every '' @ itoa n @ ''s'') =
    Inr (ConstantDelay \<lparr>Delay = int n * Second_d\<rparr>)"
proof -
  let ?f = "''@every '' @ itoa n @ ''s''"
  have pre: "HasPrefix ?f ''@''" "\<not> HasPrefix ?f ''TZ=''" "\<not> HasPrefix ?f ''CRON_TZ=''" by (simp_all add: HasPrefix_iff)
  have "(Second_opt OR Minute_opt OR Hour_opt OR Dom_opt OR Month_opt OR Dow_opt OR Descriptor) AND Descriptor \<noteq> 0"
    by (simp add: Second_opt_def Minute_opt_def Hour_opt_def Dom_opt_def Month_opt_def Dow_opt_def Descriptor_def)
  moreover have "parseDescriptor ?f (Local :: 'z location) = Some (Inr (ConstantDelay \<lparr>Delay = int n * Second_d\<rparr>))"
    by (rule parseDescriptor_every [OF assms])
  ultimately show ?thesis using pre by (simp add: schedule_parser_def Parser_Parse_def Parse_in_def)
qed



section \<open>An example\<close>

text \<open>On a node that has not been started every synchronisation returns.\<close>

lemma idle_Remove: "idle d \<Longrightarrow> \<exists>d'. Dcron_Remove sorter n d = Some d' \<and> idle d'"
  by (auto simp: idle_def Dcron_Remove_def Cron_Remove_def removeEntry_def split: option.splits)

lemma idle_store: "idle d \<Longrightarrow> \<exists>l d'. store_jobs fresh sj nxt sorter t m ks lst d = Some (l, d') \<and> idle d'"
proof (induction ks arbitrary: lst d)
  case (Cons k ks)
  obtain d1 where "fmlookup m k = None \<or> addOrUpdateJob sj nxt sorter t k (the (fmlookup m k)) d = Some d1 \<and> idle d1"
    using idle_addOrUpdateJob [OF Cons.prems] by blast
  then show ?case using Cons.IH Cons.prems by (auto split: option.splits)
qed simp

lemma idle_drop: "idle d \<Longrightarrow> \<exists>l d'. drop_jobs sorter m ks lst d = Some (l, d') \<and> idle d'"
proof (induction ks arbitrary: lst d)
  case (Cons k ks)
  obtain d1 where "Dcron_Remove sorter k d = Some d1" "idle d1" using idle_Remove [OF Cons.prems] by blast
  then show ?case using Cons.IH Cons.prems by auto
qed simp

lemma idle_sync:
  assumes "idle d"
  shows "\<exists>l d'. syncJobsWithLocalStore sj nxt sorter t order redis lst d = Some (l, d') \<and> idle d'"
proof (cases redis)
  case (Inr m)
  show ?thesis
  proof (cases lst)
    case None
    with Inr idle_store [OF assms, of "\<lambda>_ _ _. True" sj nxt sorter t m "order m" fmempty] show ?thesis
      by (auto simp: syncJobsWithLocalStore_def)
  next
    case (Some l)
    obtain l1 d1 where "store_jobs changed sj nxt sorter t m (order m) l d = Some (l1, d1)" "idle d1"
      using idle_store [OF assms] by blast
    moreover obtain l2 d2 where "drop_jobs sorter m (order l1) l1 d1 = Some (l2, d2)" "idle d2"
      using idle_drop [OF \<open>idle d1\<close>] by blast
    ultimately show ?thesis using Inr Some by (simp add: syncJobsWithLocalStore_def)
  qed
qed (use assms in \<open>simp add: syncJobsWithLocalStore_def\<close>)

definition demo_enc :: "ExecJob \<Rightarrow> string" where
  "demo_enc job = ExecCron job @ CHR ''|'' # Command job"

definition demo_codec :: "ExecJob StableJob" where
  "demo_codec = \<lparr>GetCron = ExecJob_GetCron, Serialize = (\<lambda>job. Inr (demo_enc job)),
     UnSerialize = (\<lambda>b. if CHR ''|'' \<in> set b
       then Inr \<lparr>ExecCron = takeWhile (\<lambda>c. c \<noteq> CHR ''|'') b, Command = tl (dropWhile (\<lambda>c. c \<noteq> CHR ''|'') b)\<rparr>
       else Inl ''no separator'')\<rparr>"

definition demo_store_order :: "store \<Rightarrow> string list" where
  "demo_store_order m = sorted_list_of_fset (fmdom m)"

lemma demo_store_order_ranges: "ranges_store demo_store_order"
  by (simp add: ranges_store_def demo_store_order_def sorted_list_of_fset.rep_eq)

definition demo_stable :: "(unit schedule, unit, ExecJob, string list) Dcron" where
  "demo_stable = stablejob_dcron (demo_driver ''a'') (\<lambda>_. Inl EmptySpec) (\<lambda>_. Inl []) (LoadEnv (\<lambda>_. [])) []"

definition demo_exec :: "nat \<Rightarrow> ExecJob" where
  "demo_exec n = \<lparr>ExecCron = ''@every '' @ itoa n @ ''s'', Command = ''date''\<rparr>"

definition demo_store :: "nat \<Rightarrow> store" where
  "demo_store n = fmupd ''job'' (demo_enc (demo_exec n)) fmempty"


lemma demo_sync:
  assumes "idle d"
  obtains lst' d' where "stable_step demo_codec (demo_driver ''a'') demo_hash (\<lambda>_ _. False) demo_nxt demo_sorter (lst, d)
      (Sync redis) (lst', d')" "idle d'"
    "syncJobsWithLocalStore demo_codec demo_nxt demo_sorter (\<lambda>_. at_sec 1) demo_store_order redis lst d = Some (lst', d')"
  using idle_sync [OF assms, of demo_codec demo_nxt demo_sorter "\<lambda>_. at_sec 1" demo_store_order redis lst]
    st_sync [OF demo_store_order_ranges] that by blast

lemma demo_decode:
  assumes "CHR ''|'' \<notin> set (ExecCron job)"
  shows "UnSerialize demo_codec (demo_enc job) = Inr job"
proof -
  have "\<And>c. c \<in> set (ExecCron job) \<Longrightarrow> c \<noteq> CHR ''|''" using assms by blast
  then have "takeWhile (\<lambda>c. c \<noteq> CHR ''|'') (demo_enc job) = ExecCron job"
    "dropWhile (\<lambda>c. c \<noteq> CHR ''|'') (demo_enc job) = CHR ''|'' # Command job"
    by (simp_all add: demo_enc_def takeWhile_append2 dropWhile_append2)
  moreover have "CHR ''|'' \<in> set (demo_enc job)" by (simp add: demo_enc_def)
  ultimately show ?thesis by (simp add: demo_codec_def)
qed

lemma demo_runnable:
  assumes "0 < n" "n \<le> 9223372036"
  shows "runnable demo_codec (parser (cron (cr demo_stable))) (demo_enc (demo_exec n))"
proof -
  have "CHR ''|'' \<notin> set (ExecCron (demo_exec n))" using itoa_no_char [of "CHR ''|''" n] by (simp add: demo_exec_def is_digit_def)
  then have "UnSerialize demo_codec (demo_enc (demo_exec n)) = Inr (demo_exec n)" by (rule demo_decode)
  moreover have "parser (cron (cr demo_stable)) (GetCron demo_codec (demo_exec n)) = Inr (ConstantDelay \<lparr>Delay = int n * Second_d\<rparr>)"
    unfolding demo_stable_def stablejob_dcron_new(3) using every_with_seconds [OF assms, of "\<lambda>_. Inl [] :: string + unit"]
    by (simp add: demo_codec_def ExecJob_GetCron_def demo_exec_def)
  ultimately show ?thesis by (simp add: runnable_def)
qed

lemma demo_store_lookup:
  "fmlookup (demo_store n) ''job'' = Some (demo_enc (demo_exec n))" "fmlookup (demo_store n) ''other'' = None"
  by (simp_all add: demo_store_def)

lemma demo_stable_idle: "idle demo_stable"
  unfolding demo_stable_def by (rule stablejob_dcron_new)

theorem stable_jobs_follow_store_witness:
  "\<exists>d. syncJobsWithLocalStore demo_codec demo_nxt demo_sorter (\<lambda>_. at_sec 1) demo_store_order (Inr (demo_store 10)) None demo_stable =
       Some (Some (demo_store 10), d) \<and> dc_jobs d ''job'' \<noteq> None \<and> dc_jobs d ''other'' = None"
proof -
  obtain lst d where sync: "syncJobsWithLocalStore demo_codec demo_nxt demo_sorter (\<lambda>_. at_sec 1) demo_store_order
      (Inr (demo_store 10)) None demo_stable = Some (lst, d)" by (rule demo_sync [OF demo_stable_idle])
  note follow = stable_jobs_follow_store [OF st_refl demo_store_order_ranges
      sync [unfolded demo_stable_def stablejob_dcron_def], folded stablejob_dcron_def, folded demo_stable_def]
  have "runnable demo_codec (parser (cron (cr demo_stable))) (demo_enc (demo_exec 10))" by (rule demo_runnable) simp_all
  with follow demo_store_lookup(1) have "dc_jobs d ''job'' \<noteq> None" by blast
  with follow sync demo_store_lookup(2) show ?thesis by blast
qed

theorem changed_job_is_not_updated_witness:
  "\<exists>lst d w lst' d'.
     syncJobsWithLocalStore demo_codec demo_nxt demo_sorter (\<lambda>_. at_sec 1) demo_store_order (Inr (demo_store 10)) None demo_stable = Some (lst, d) \<and>
     syncJobsWithLocalStore demo_codec demo_nxt demo_sorter (\<lambda>_. at_sec 1) demo_store_order (Inr (demo_store 20)) lst d = Some (lst', d') \<and>
     dc_jobs d ''job'' = Some w \<and> dc_jobs d' ''job'' = Some w \<and> lst' = Some (demo_store 20)"
proof -
  let ?run = "stable_run demo_codec (demo_driver ''a'') demo_hash (\<lambda>_ _. False) demo_nxt demo_sorter"
  obtain lst d where 1: "stable_step demo_codec (demo_driver ''a'') demo_hash (\<lambda>_ _. False) demo_nxt demo_sorter (None, demo_stable)
      (Sync (Inr (demo_store 10))) (lst, d)" "idle d"
    "syncJobsWithLocalStore demo_codec demo_nxt demo_sorter (\<lambda>_. at_sec 1) demo_store_order (Inr (demo_store 10)) None demo_stable = Some (lst, d)"
    by (rule demo_sync [OF demo_stable_idle])
  obtain lst' d' where 2: "stable_step demo_codec (demo_driver ''a'') demo_hash (\<lambda>_ _. False) demo_nxt demo_sorter (lst, d)
      (Sync (Inr (demo_store 20))) (lst', d')" "idle d'"
    "syncJobsWithLocalStore demo_codec demo_nxt demo_sorter (\<lambda>_. at_sec 1) demo_store_order (Inr (demo_store 20)) lst d = Some (lst', d')"
    by (rule demo_sync [OF 1(2)])
  have runs: "?run (None, demo_stable) ([] @ [Sync (Inr (demo_store 10))]) (lst, d)"
    "?run (lst, d) ([] @ [Sync (Inr (demo_store 20))]) (lst', d')" by (rule st_step [OF st_refl 1(1)], rule st_step [OF st_refl 2(1)])
  have "stable_inv demo_codec (parser (cron (cr demo_stable))) None demo_stable"
    unfolding demo_stable_def by (rule stable_inv_new) (rule stablejob_dcron_new)
  from sync_spec(2) [OF demo_store_order_ranges this 1(3)]
  have "dc_jobs d ''job'' \<noteq> None" using demo_runnable [of 10] demo_store_lookup(1) [of 10] by (simp add: in_step_def)
  then obtain w where w: "dc_jobs d ''job'' = Some w" by blast
  from changed_job_is_not_updated [OF runs(1) [unfolded demo_stable_def stablejob_dcron_def] runs(2) w]
  have "dc_jobs d' ''job'' = Some w \<and> lst' = Some (demo_store 20)" by (simp add: demo_store_lookup)
  with 1(3) 2(3) w show ?thesis by blast
qed

end
