(* ===== verification/Spec2Isabelle.thy ===== *)
theory Spec2Isabelle
  imports PoolProps SpecProps PackerProps DriverListing ChainProps CronProps Activation StableProps
begin

text \<open>
  \<^bold>\<open>go-dispatch\<close>: a verification development.

  The program runs cron jobs on a cluster so that each job runs on one node. Every node
  schedules every job. When a job is due, each node asks its node pool whether the name of the
  job belongs to it on a consistent hash ring over the nodes that are alive, and only the owner
  calls the function of the job. The nodes find each other through Redis.

  \<^bold>\<open>The parts, the theories and the source.\<close>

  \<^item> Go itself. \<open>Prelude\<close>: machine integers, panics and errors as values, \<^verbatim>\<open>sort.Search\<close>,
    rounding to \<^verbatim>\<open>float64\<close>, the collections of simplification rules. \<open>GoStrings\<close>, \<open>GoDuration\<close>,
    \<open>GoTime\<close>: what the program uses of strings, strconv and time. \<open>Calendar\<close>: the calendar of
    \<open>GoTime\<close> is the Gregorian one.

  \<^item> The hash ring, \<^verbatim>\<open>consistenthash/consistenthash.go\<close>. \<open>ConsistentHash\<close> has the struct as a
    record and each method as a definition. \<open>HostRing\<close> is the contract of a ring as a locale,
    \<open>Ring\<close> interprets it on the model (\<^verbatim>\<open>Get\<close> returns the successor on the ring, which depends
    on the set of hosts only), \<open>RingLoad\<close> treats the bounded loads, \<open>RingProps\<close> has the properties.

  \<^item> The node pool, \<^verbatim>\<open>nodepool/nodepool.go\<close>. \<open>NodePool\<close>: the pool, its calls, its background
    loop, and the whole as the step relation \<open>pool_step\<close>. \<open>PoolUpdate\<close>, \<open>PoolProps\<close>: the ring is
    the last listing in every run, an unchanged listing makes the pool steady, and pools that
    are steady on the same listing give each key to exactly one node.

  \<^item> The drivers, \<^verbatim>\<open>driver/*.go\<close>. \<open>Driver\<close>: both drivers over a Redis client that is a record
    of operations on a world, with their heartbeat goroutines. \<open>DriverProps\<close> states the life
    cycle as the locale \<open>announcer\<close> and interprets it on both; \<open>DriverListing\<close> has the listing:
    what is documented of Redis is a hypothesis there and a server in memory satisfies it.

  \<^item> The crontab parser, \<^verbatim>\<open>cron/parser.go\<close>, in \<open>CronParser\<close>, \<open>ParserLemmas\<close>, \<open>ParserProps\<close>, and
    the schedules, \<^verbatim>\<open>cron/spec.go\<close> and \<^verbatim>\<open>cron/constantdelay.go\<close>, in \<open>Schedule\<close>, \<open>SpecNext\<close>,
    \<open>SpecSearch\<close>, \<open>SpecProps\<close>: parsing returns, stays within the bounds and inverts printing, and
    \<^verbatim>\<open>Next\<close> finds the first matching second.

  \<^item> The wrappers of jobs, \<^verbatim>\<open>cron/chain.go\<close>, in \<open>Chain\<close> and \<open>ChainProps\<close>: a run of a wrapped job
    is a thread with the deferred calls it has still to make, and the threads interleave in any
    way.

  \<^item> The scheduler, \<^verbatim>\<open>cron/cron.go\<close> and \<^verbatim>\<open>cron/option.go\<close>, in \<open>Cron\<close> and \<open>CronProps\<close>: its loop
    and its callers are the step relation \<open>cron_step\<close>, in which a call and the case of the
    \<^verbatim>\<open>select\<close> that receives from it are one step. A wake-up runs exactly the entries that are due.

  \<^item> The packer of recent jobs, \<^verbatim>\<open>dcron/recentjobpacker.go\<close>, in \<open>JobPacker\<close> and \<open>PackerProps\<close>:
    the binary heap in a slice implements the priority queue of the locale in \<open>PrioQueue\<close>.

  \<^item> The node, \<^verbatim>\<open>dcron/dcron.go\<close>, \<^verbatim>\<open>option.go\<close> and \<^verbatim>\<open>job_warpper.go\<close>, in \<open>Dcron\<close>: the record has a
    pool, a scheduler and a packer in it, and \<open>dcron_step\<close> interleaves the calls on the node, the
    runs of its jobs and the steps that pool and scheduler take on their own. \<open>DcronTable\<close>: the
    table of jobs and the entries of the scheduler stay in step. \<open>DcronProps\<close>: what a node does
    with a job that is due, also while the membership changes. \<open>Cluster\<close>: a run of a node is a run
    of its pool, which carries the invariants of the pool over. \<open>Activation\<close>: what the goroutines
    of a wake-up do on a node. The theorems of this theory put these together to the promise of
    the program, for nodes with any history: an activation of a job is run by one node, once.

  \<^item> Jobs that survive a restart, the interface in \<^verbatim>\<open>job_warpper.go\<close> and the programs
    \<^verbatim>\<open>dcron/examples/stablejob\<close> and \<^verbatim>\<open>tools\<close>, in \<open>StableJob\<close> and \<open>StableProps\<close>: a client of the
    node that keeps its table in step with a hash at the Redis server, and the jobs it never
    updates.

  \<^bold>\<open>Parameters.\<close> Code from outside the repository is an argument: the hash function (xxhash),
  the Redis client, the generator of UUIDs, the clock, the time zone rules, the encoding of stable
  jobs. So is what Go leaves
  open: the order in which a map is ranged over, and the order \<^verbatim>\<open>sort.Sort\<close> gives to entries that
  tie. Interfaces are arguments too: the driver of a pool, the schedules and parsers of a scheduler,
  the function of a job.

  \<^bold>\<open>Loops and calls that do not return.\<close> No definition uses fuel. The loops with no bound of their
  own (\<^verbatim>\<open>GetLeast\<close>, \<^verbatim>\<open>getBits\<close>, the search of \<^verbatim>\<open>Next\<close>, a scan of Redis) are partial functions
  into an option, \<^const>\<open>None\<close> being a call that does not return, and that they return is proved:
  \<open>getBits\<close> and \<open>Next\<close> always, \<open>GetLeast\<close> when the loads are consistent, with an example where it
  does not. A call that has to wait is \<^const>\<open>None\<close> in the state in which it waits.

  \<^bold>\<open>Hypotheses that recur.\<close> The ring is treated for hash functions without collisions on the
  virtual nodes of the nodes that occur, and for at most 50 replicas, because \<^verbatim>\<open>Remove\<close> deletes 50
  virtual nodes whatever their number (\<open>Remove_leaves_ghost\<close>). Listings name a node at most once; what
  happens otherwise is \<open>repeated_node_empties_ring\<close>. \<^verbatim>\<open>Next\<close> is treated in full in locations of a
  fixed offset; that it returns holds everywhere.

  \<^bold>\<open>Not modelled.\<close> Loggers (\<^verbatim>\<open>logger/logger.go\<close>, \<^verbatim>\<open>cron/logger.go\<close>, the options and setters for
  them), which are only written to; \<^verbatim>\<open>dcron/examples/example\<close>, whose job writes to a file;
  \<^verbatim>\<open>cron/doc.go\<close>, a comment. Calls of the pool under the read lock are single steps although they may overlap in
  the code, and instants are unbounded integers although Go wraps them around.
\<close>

section \<open>The cluster\<close>

text \<open>
  (C2) Exactly one node of the cluster runs a job. Take nodes that were made with any options
  but capacity loads and with the same number of replicas, at most 50, and that have run since
  in any way but not been stopped. When all of them are steady, agree on the listing of the
  nodes and are the listed nodes, and a job becomes due on all of them, then one node calls the
  function of the job, once, and every other node calls nothing. Of the drivers it is assumed
  that a listing names a node at most once, and of the hash that the virtual nodes of the nodes
  do not collide.
\<close>

theorem cluster_runs_job_once:
  assumes "\<And>d. d \<in> set ds \<Longrightarrow> node_of hash U r d \<and> GetState (pool (dc_pool d)) = Inr NodePoolStateSteady \<and>
      set (preNodes (pool (dc_pool d))) = N"
    and "collision_free hash replicationFactor U" "0 < r" "r \<le> int replicationFactor"
    and "distinct (map Dcron_NodeID ds)" "Dcron_NodeID ` set ds = N" "ds \<noteq> []"
  shows "\<exists>d0 \<in> set ds. \<forall>d \<in> set ds. \<exists>reruns d'.
    JobWarpper_Run hash t t' job d = Some (Inr (if d = d0 then Execute job else [], reruns), d')"
proof (rule steady_nodes_run_job_once [OF _ assms(5-7)])
  fix d assume "d \<in> set ds"
  with assms(1) have d: "node_of hash U r d" "steady (pool (dc_pool d))" "set (preNodes (pool (dc_pool d))) = N"
    by (simp_all add: GetState_steady)
  with node_of_pool [OF d(1) assms(2-4)]
  show "\<not> dc_capacityLoad d \<and> pool_inv hash U (pool (dc_pool d)) \<and> steady (pool (dc_pool d)) \<and>
      \<not> capacityLoad (pool (dc_pool d)) \<and> Nodes (pool (dc_pool d)) \<noteq> None \<and>
      hashReplicas (pool (dc_pool d)) = r \<and> set (preNodes (pool (dc_pool d))) = N" by blast
qed

theorem cluster_runs_job_once_witness:
  "\<exists>(da :: (unit schedule, unit, unit, string list) Dcron) (db :: (unit schedule, unit, unit, string list) Dcron)
       ja jb ra rb da' db'.
     Dcron_NodeID da = ''a'' \<and> Dcron_NodeID db = ''b'' \<and>
     JobWarpper_Run demo_hash (at_sec 1) (at_sec 1) (demo_warpper 0) da = Some (Inr (ja, ra), da') \<and>
     JobWarpper_Run demo_hash (at_sec 1) (at_sec 1) (demo_warpper 0) db = Some (Inr (jb, rb), db') \<and>
     (ja = [()] \<and> jb = [] \<or> ja = [] \<and> jb = [()])"
proof -
  obtain da db :: "(unit schedule, unit, unit, string list) Dcron" where
    a: "node_of demo_hash {''a'', ''b''} 50 da" "steady (pool (dc_pool da))"
      "set (preNodes (pool (dc_pool da))) = {''a'', ''b''}" "Dcron_NodeID da = ''a''" and
    b: "node_of demo_hash {''a'', ''b''} 50 db" "steady (pool (dc_pool db))"
      "set (preNodes (pool (dc_pool db))) = {''a'', ''b''}" "Dcron_NodeID db = ''b''"
    using demo_node by meson
  have ex: "Execute (demo_warpper 0) = [()]" by (simp add: Execute_def demo_warpper_def)
  have "\<exists>d0 \<in> set [da, db]. \<forall>d \<in> set [da, db]. \<exists>reruns d'.
    JobWarpper_Run demo_hash (at_sec 1) (at_sec 1) (demo_warpper 0) d =
      Some (Inr (if d = d0 then Execute (demo_warpper 0) else [], reruns), d')"
  proof (rule cluster_runs_job_once [OF _ demo_universe, where r = 50])
    fix d assume "d \<in> set [da, db]"
    then show "node_of demo_hash {''a'', ''b''} 50 d \<and> GetState (pool (dc_pool d)) = Inr NodePoolStateSteady \<and>
        set (preNodes (pool (dc_pool d))) = {''a'', ''b''}"
      unfolding GetState_steady using a b by auto
  qed (use a(4) b(4) in \<open>simp_all add: replicationFactor_def\<close>)
  then obtain d0 ra rb da' db' where "d0 \<in> {da, db}" and
    runs: "JobWarpper_Run demo_hash (at_sec 1) (at_sec 1) (demo_warpper 0) da = Some (Inr (if da = d0 then [()] else [], ra), da')"
      "JobWarpper_Run demo_hash (at_sec 1) (at_sec 1) (demo_warpper 0) db = Some (Inr (if db = d0 then [()] else [], rb), db')"
    unfolding ex by force
  moreover have "da \<noteq> db" using a(4) b(4) by auto
  ultimately have pick: "(if da = d0 then [()] else []) = [()] \<and> (if db = d0 then [()] else []) = [] \<or>
      (if da = d0 then [()] else []) = [] \<and> (if db = d0 then [()] else []) = [()]" by auto
  show ?thesis by (intro exI conjI) (rule a(4), rule b(4), rule runs(1), rule runs(2), rule pick)
qed

text \<open>
  (C1) From the schedule to the call: every activation of a job runs once in the cluster. Take
  nodes as before, made without wrappers around the jobs, on each of which an entry of the job is
  due when its scheduler wakes up, each by its own clock. The wake-up of every node starts the
  job once, without a wrapper around it; in whatever order the goroutines of the wake-up get to
  run, all of them return; and over all nodes the function of the job is called exactly once.
\<close>

theorem activation_runs_once:
  assumes "\<And>d. d \<in> set ds \<Longrightarrow> job_node hash U r d \<and> GetState (pool (dc_pool d)) = Inr NodePoolStateSteady \<and>
      set (preNodes (pool (dc_pool d))) = N \<and> \<not> dc_jobsRWMut d"
    and "collision_free hash replicationFactor U" "0 < r" "r \<le> int replicationFactor"
    and "distinct (map Dcron_NodeID ds)" "Dcron_NodeID ` set ds = N" "ds \<noteq> []"
    and "\<And>d. d \<in> set ds \<Longrightarrow> loop (cr d) = Select (tm d) \<and> wake nxt (now d) (cron (cr d)) = (due d, c d) \<and>
      mset (started d) = mset (map Entry_Job (due d))"
    and "\<And>d. d \<in> set ds \<Longrightarrow> \<exists>e \<in> set (entries (cron (cr d))).
      due_at (now_in (cron (cr d)) (now d)) e \<and> Name (Entry_Job e) = n \<and> Job (Entry_Job e) = Some f"
  shows "\<exists>d0 \<in> set ds. \<forall>d \<in> set ds. (\<forall>e \<in> set (due d). WrappedJob e = FuncJob (Entry_Job e)) \<and>
    (\<exists>calls d'. run_started hash t t' (started d) d = Some (Inr calls, d') \<and>
      filter (\<lambda>(m, _). m = n) calls = [(n, if d = d0 then [f] else [])])"
proof -
  have steady_nodes: "node_of hash U r d \<and> GetState (pool (dc_pool d)) = Inr NodePoolStateSteady \<and>
      set (preNodes (pool (dc_pool d))) = N" if "d \<in> set ds" for d
    using assms(1) [OF that] job_node_facts(1) [of hash U r d] by simp
  obtain own where own: "\<And>m. own m \<in> N" "\<And>d. d \<in> set ds \<Longrightarrow> answers hash own d"
    using cluster_answers [OF steady_nodes assms(2-4,6,7)] by blast
  obtain d0 where d0: "d0 \<in> set ds" "Dcron_NodeID d0 = own n" using own(1) [of n] assms(6) by auto
  have "(\<forall>e \<in> set (due d). WrappedJob e = FuncJob (Entry_Job e)) \<and>
    (\<exists>calls d'. run_started hash t t' (started d) d = Some (Inr calls, d') \<and>
      filter (\<lambda>(m, _). m = n) calls = [(n, if d = d0 then [f] else [])])" if d: "d \<in> set ds" for d
  proof -
    note node = job_node_facts [OF conjunct1 [OF assms(1) [OF d]]] and w = assms(8) [OF d]
    have free: "\<not> dc_jobsRWMut d" using assms(1) [OF d] by simp
    obtain e where e: "e \<in> set (entries (cron (cr d)))" "due_at (now_in (cron (cr d)) (now d)) e"
      "Name (Entry_Job e) = n" "Job (Entry_Job e) = Some f" using assms(9) [OF d] by blast
    have "in_order (entries (cron (cr d)))" using node(2) w by (simp add: table_ok_def cron_inv_def)
    with wake_spec(1) w have "set (due d) \<subseteq> set (entries (cron (cr d)))" by fastforce
    with node(3) have bare: "\<forall>e \<in> set (due d). WrappedJob e = FuncJob (Entry_Job e)" by (auto simp: unwrapped_def)
    have one: "filter (\<lambda>job. Name job = n) (started d) = [Entry_Job e]"
      using started_once [OF node(2) free _ _ _ e(1,2)] w e(3) by blast
    have same: "Dcron_NodeID d = own n \<longleftrightarrow> d = d0"
      using assms(5) d d0 by (auto simp: distinct_map inj_on_def)
    let ?call = "\<lambda>job. (Name job, if Dcron_NodeID d = own (Name job) then Execute job else [])"
    have "filter (\<lambda>(m, _). m = n) (map ?call (started d)) = map ?call [Entry_Job e]"
      unfolding one [symmetric] by (simp add: filter_map comp_def)
    also have "\<dots> = [(n, if d = d0 then [f] else [])]" using e(3,4) same by (simp add: Execute_def)
    finally show ?thesis using bare run_started_answers [OF own(2) [OF d], of t t' "started d"] by blast
  qed
  with d0(1) show ?thesis by blast
qed

lemma run_started_one:
  assumes "run_started hash t t' [job] d = Some (Inr calls, d')" "filter (\<lambda>(m, _). m = Name job) calls = cs"
  shows "calls = cs"
  using assms by (auto split: option.splits prod.splits sum.splits)

theorem activation_runs_once_witness:
  "\<exists>(da :: (unit schedule, unit, unit, string list) Dcron) (db :: (unit schedule, unit, unit, string list) Dcron)
       ca cb da' db'.
     Dcron_NodeID da = ''a'' \<and> Dcron_NodeID db = ''b'' \<and>
     run_started demo_hash (\<lambda>_. at_sec 2) (\<lambda>_. at_sec 2) [demo_warpper 0] da = Some (Inr ca, da') \<and>
     run_started demo_hash (\<lambda>_. at_sec 2) (\<lambda>_. at_sec 2) [demo_warpper 0] db = Some (Inr cb, db') \<and>
     (ca = [(''job'', [()])] \<and> cb = [(''job'', [])] \<or> ca = [(''job'', [])] \<and> cb = [(''job'', [()])])"
proof -
  let ?ok = "\<lambda>d :: (unit schedule, unit, unit, string list) Dcron. job_node demo_hash {''a'', ''b''} 50 d \<and>
    steady (pool (dc_pool d)) \<and> set (preNodes (pool (dc_pool d))) = {''a'', ''b''} \<and> \<not> dc_jobsRWMut d \<and>
    loop (cr d) = Select (Until (at_sec 2)) \<and> cron (cr d) = demo_jobs_cron [demo_job_entry (at_sec 2)] True 1"
  let ?run = "\<lambda>d :: (unit schedule, unit, unit, string list) Dcron.
    run_started demo_hash (\<lambda>_. at_sec 2) (\<lambda>_. at_sec 2) [demo_warpper 0] d"
  have member: "\<exists>d. ?ok d \<and> Dcron_NodeID d = me" for me
    by (rule exE [OF demo_job_node [of me]], rule exI, elim conjE, intro conjI)
  obtain da where a: "?ok da" "Dcron_NodeID da = ''a''" using member [of "''a''"] by (elim exE conjE) (intro that conjI)
  obtain db where b: "?ok db" "Dcron_NodeID db = ''b''" using member [of "''b''"] by (elim exE conjE) (intro that conjI)
  obtain c where wake: "wake demo_nxt (at_sec 2) (demo_jobs_cron [demo_job_entry (at_sec 2)] True 1) = ([demo_job_entry (at_sec 2)], c)"
    by (simp add: wake_def now_in_def demo_jobs_cron_def demo_job_entry_def Time_After_def Let_def)
  have due: "due_at (now_in (demo_jobs_cron [demo_job_entry (at_sec 2)] True 1) (at_sec 2)) (demo_job_entry (at_sec 2))"
    by (simp add: due_at_def now_in_def demo_jobs_cron_def demo_job_entry_def)
  have fields: "entries (demo_jobs_cron [demo_job_entry (at_sec 2)] True 1) = [demo_job_entry (at_sec 2)]"
    "Entry_Job (demo_job_entry (at_sec 2)) = demo_warpper 0" "Name (demo_warpper 0) = ''job''" "Job (demo_warpper 0) = Some ()"
    by (simp_all add: demo_jobs_cron_def demo_job_entry_def demo_warpper_def)
  have "\<exists>d0 \<in> set [da, db]. \<forall>d \<in> set [da, db]. (\<forall>e \<in> set [demo_job_entry (at_sec 2)]. WrappedJob e = FuncJob (Entry_Job e)) \<and>
    (\<exists>calls d'. ?run d = Some (Inr calls, d') \<and> filter (\<lambda>(m, _). m = ''job'') calls = [(''job'', if d = d0 then [()] else [])])"
  proof (rule activation_runs_once [OF _ demo_universe, where r = 50 and tm = "\<lambda>_. Until (at_sec 2)" and nxt = demo_nxt
        and now = "\<lambda>_. at_sec 2" and c = "\<lambda>_. c"])
    fix d assume "d \<in> set [da, db]"
    then have d: "?ok d" using a(1) b(1) by auto
    then show "job_node demo_hash {''a'', ''b''} 50 d \<and> GetState (pool (dc_pool d)) = Inr NodePoolStateSteady \<and>
        set (preNodes (pool (dc_pool d))) = {''a'', ''b''} \<and> \<not> dc_jobsRWMut d" by (simp add: GetState_steady)
    show "loop (cr d) = Select (Until (at_sec 2)) \<and> wake demo_nxt (at_sec 2) (cron (cr d)) = ([demo_job_entry (at_sec 2)], c) \<and>
        mset [demo_warpper 0] = mset (map Entry_Job [demo_job_entry (at_sec 2)])" using d wake fields by simp
    show "\<exists>e \<in> set (entries (cron (cr d))). due_at (now_in (cron (cr d)) (at_sec 2)) e \<and>
        Name (Entry_Job e) = ''job'' \<and> Job (Entry_Job e) = Some ()" using d due fields by simp
  qed (use a(2) b(2) in \<open>simp_all add: replicationFactor_def\<close>)
  then obtain d0 ca cb da' db' where "d0 \<in> {da, db}" and runs: "?run da = Some (Inr ca, da')" "?run db = Some (Inr cb, db')"
    and "filter (\<lambda>(m, _). m = ''job'') ca = [(''job'', if da = d0 then [()] else [])]"
      "filter (\<lambda>(m, _). m = ''job'') cb = [(''job'', if db = d0 then [()] else [])]" by force
  moreover from this have "ca = [(''job'', if da = d0 then [()] else [])]" "cb = [(''job'', if db = d0 then [()] else [])]"
    using run_started_one [OF runs(1)] run_started_one [OF runs(2)] fields(3) by simp_all
  moreover have "da \<noteq> db" using a(2) b(2) by auto
  ultimately have pick: "ca = [(''job'', [()])] \<and> cb = [(''job'', [])] \<or> ca = [(''job'', [])] \<and> cb = [(''job'', [()])]" by auto
  show ?thesis by (intro exI conjI) (rule a(2), rule b(2), rule runs(1), rule runs(2), rule pick)
qed

end
